(* ===== verification/Prelude.thy ===== *)
theory Prelude
  imports Main "HOL-Library.Word" "HOL-Library.Multiset" "HOL-Library.Sublist"
begin

text \<open>
  Shared vocabulary of the development: the widths of the C++ integer types the headers use,
  the theorem collections the component theories feed, list and word facts that several
  components need, and the reachable states of a step relation together with the locale in
  which an inductive invariant is lifted to every reachable state.

  Conventions. A \<^verbatim>\<open>std::uintN_t\<close> that is computed with is an \<open>N word\<close>, so \<open>+\<close>, \<open>-\<close> and \<open>*\<close>
  wrap as they do in C++. A \<^verbatim>\<open>std::size_t\<close> that only counts the elements of a container is a
  \<open>nat\<close>. A \<^verbatim>\<open>std::chrono::nanoseconds\<close> or \<^verbatim>\<open>time_point\<close> (a signed 64-bit count) is an \<open>int\<close>.
\<close>

unbundle bit_operations_syntax

section \<open>Types\<close>

type_synonym u8 = "8 word"
type_synonym u16 = "16 word"
type_synonym u32 = "32 word"
type_synonym u64 = "64 word"

type_synonym nanos = int

type_synonym bytes = "u8 list"

section \<open>Theorem collections\<close>

named_theorems slice_simps \<open>reading and writing a contiguous slice of a list\<close>
named_theorems frame_simps \<open>fields that an operation leaves alone\<close>
named_theorems inv_intros \<open>operations that keep the invariant of their component\<close>

section \<open>Lists\<close>

lemma list_update_slice [slice_simps]:
  "length xs = p \<Longrightarrow> i < length ys \<Longrightarrow> (xs @ ys @ zs)[p + i := v] = xs @ ys[i := v] @ zs"
  by (simp add: list_update_append)

lemma nth_slice [slice_simps]:
  "length xs = p \<Longrightarrow> i < length ys \<Longrightarrow> (xs @ ys @ zs) ! (p + i) = ys ! i"
  by (simp add: nth_append)

lemma split_slice:
  assumes "p + n \<le> length m"
  shows "\<exists>xs ys zs. m = xs @ ys @ zs \<and> length xs = p \<and> length ys = n"
proof -
  have "m = take p m @ take n (drop p m) @ drop n (drop p m)"
    by (metis append_take_drop_id)
  moreover have "length (take p m) = p" "length (take n (drop p m)) = n"
    using assms by simp_all
  ultimately show ?thesis by blast
qed

lemma snoc_prefix_cancel: "xs @ ys = zs \<Longrightarrow> xs = take (length xs) zs"
  by auto

text \<open>A list of elements that went one of two ways.\<close>

definition untag :: "'a + 'a \<Rightarrow> 'a" where
  "untag = case_sum id id"

definition lefts :: "('a + 'b) list \<Rightarrow> 'a list" where
  "lefts xs = concat (map (case_sum (\<lambda>t. [t]) (\<lambda>_. [])) xs)"

definition rights :: "('a + 'b) list \<Rightarrow> 'b list" where
  "rights xs = concat (map (case_sum (\<lambda>_. []) (\<lambda>t. [t])) xs)"

lemma tagged_simps [simp]:
  "lefts [] = []" "lefts (xs @ ys) = lefts xs @ lefts ys" "lefts [Inl t] = [t]" "lefts [Inr u] = []"
  "lefts (map Inr us) = []"
  "rights [] = []" "rights (xs @ ys) = rights xs @ rights ys" "rights [Inl t] = []" "rights [Inr u] = [u]"
  "rights (map Inr us) = us" "map (untag \<circ> Inr) ts = ts" "untag (Inl t) = t" "untag (Inr t) = t"
  by (simp_all add: lefts_def rights_def untag_def comp_def)

lemma lefts_rights: "mset (map untag xs) = mset (lefts xs) + mset (rights xs)"
  by (induction xs) (auto simp: lefts_def rights_def untag_def split: sum.splits)

lemma lefts_subseq: "subseq (lefts xs) (map untag xs)"
  by (induction xs) (auto simp: lefts_def untag_def split: sum.splits)

lemma subseq_set: "subseq xs ys \<Longrightarrow> set xs \<subseteq> set ys"
  by (induction rule: list_emb.induct) auto

lemma subseq_distinct: "subseq xs ys \<Longrightarrow> distinct ys \<Longrightarrow> distinct xs"
  by (induction rule: list_emb.induct) (auto dest: subseq_set)

lemma subseq_mset: "subseq xs ys \<Longrightarrow> mset xs \<subseteq># mset ys"
proof (induction rule: list_emb.induct)
  case (list_emb_Cons xs ys y)
  then show ?case using mset_subset_eq_add_right [of "mset ys" "{#y#}"] subset_mset.trans by fastforce
qed auto

lemma length_untag: "length xs = length (lefts xs) + length (rights xs)"
  by (induction xs) (auto simp: lefts_def rights_def split: sum.splits)

lemma sum_list_replace:
  fixes f :: "'b \<Rightarrow> 'c::cancel_comm_monoid_add"
  assumes "i < length ws"
  shows "sum_list (map f (ws[i := w])) + f (ws ! i) = sum_list (map f ws) + f w"
proof -
  have ws: "ws = take i ws @ ws ! i # drop (Suc i) ws" using assms by (rule id_take_nth_drop)
  have "ws[i := w] = take i ws @ w # drop (Suc i) ws" using assms by (rule upd_conv_take_nth_drop)
  then show ?thesis by (subst (3) ws) (simp add: add.assoc add.left_commute add.commute)
qed

section \<open>Words\<close>

lemma unat_diff_mod:
  fixes a b :: "'a::len word"
  shows "unat (a - b) = (unat a + (2 ^ LENGTH('a) - unat b)) mod 2 ^ LENGTH('a)"
proof (cases "b \<le> a")
  case True
  then have le: "unat b \<le> unat a" by (simp add: word_le_nat_alt)
  have b: "unat b < 2 ^ LENGTH('a)" and a: "unat a < 2 ^ LENGTH('a)" by simp_all
  have "unat a + (2 ^ LENGTH('a) - unat b) = (unat a - unat b) + 2 ^ LENGTH('a)"
    using le b by linarith
  moreover have "unat a - unat b < 2 ^ LENGTH('a)" using a by linarith
  ultimately have "(unat a + (2 ^ LENGTH('a) - unat b)) mod 2 ^ LENGTH('a) = unat a - unat b"
    by simp
  then show ?thesis using True by (simp add: unat_sub)
next
  case False
  then have lt: "unat a < unat b" by (simp add: word_le_nat_alt)
  have b: "unat b < 2 ^ LENGTH('a)" by simp
  have "unat a + (2 ^ LENGTH('a) - unat b) < 2 ^ LENGTH('a)"
    using lt b by linarith
  moreover have "unat a + 2 ^ LENGTH('a) - unat b = unat a + (2 ^ LENGTH('a) - unat b)"
    using b by linarith
  ultimately show ?thesis using False
    by (simp add: unat_sub_if_size word_size word_le_nat_alt)
qed

lemma of_nat_diff_word:
  "m \<le> n \<Longrightarrow> (of_nat n - of_nat m :: 'a::len word) = of_nat (n - m)"
  by simp

lemma unat_of_nat_small: "n < 2 ^ 64 \<Longrightarrow> unat (of_nat n :: u64) = n"
  by (simp add: unat_of_nat)

lemma unat_u64_less: "unat (v :: u64) < 2 ^ 64"
  using unsigned_less [of v] by simp

lemma unat_pow2: "k < 64 \<Longrightarrow> unat (2 ^ k :: u64) = 2 ^ k"
proof -
  assume "k < 64"
  then have "(2 :: nat) ^ k < 2 ^ LENGTH(64)" by (intro power_strict_increasing) simp_all
  then have "unat (of_nat (2 ^ k) :: u64) = 2 ^ k" by (simp only: unat_of_nat mod_less)
  then show "unat (2 ^ k :: u64) = 2 ^ k" by simp
qed

lemma xor_cancel_right: "(a XOR c :: 'a::len word) = b XOR c \<longleftrightarrow> a = b"
  by (metis xor.assoc xor_self_eq xor.right_neutral)

lemma xor_cancel_left: "(c XOR a :: 'a::len word) = c XOR b \<longleftrightarrow> a = b"
  by (metis xor.assoc xor_self_eq xor.left_neutral)

section \<open>Step relations\<close>

text \<open>
  \<open>reachable init step\<close> are the states a run from a state of \<open>init\<close> can visit. The locale
  states once and for all that an inductive invariant holds in all of them; every state
  machine of the development is an interpretation.
\<close>

inductive reachable :: "('s \<Rightarrow> bool) \<Rightarrow> ('s \<Rightarrow> 's \<Rightarrow> bool) \<Rightarrow> 's \<Rightarrow> bool"
  for init :: "'s \<Rightarrow> bool" and step :: "'s \<Rightarrow> 's \<Rightarrow> bool"
where
  start: "init s \<Longrightarrow> reachable init step s"
| move: "reachable init step s \<Longrightarrow> step s t \<Longrightarrow> reachable init step t"

lemma reachable_trans:
  "step\<^sup>*\<^sup>* s t \<Longrightarrow> reachable init step s \<Longrightarrow> reachable init step t"
  by (induction rule: rtranclp_induct) (auto intro: reachable.move)

locale inductive_invariant =
  fixes init :: "'s \<Rightarrow> bool" and step :: "'s \<Rightarrow> 's \<Rightarrow> bool" and inv :: "'s \<Rightarrow> bool"
  assumes init_inv: "init s \<Longrightarrow> inv s"
    and step_inv: "inv s \<Longrightarrow> step s t \<Longrightarrow> inv t"
begin

lemma reachable_inv: "reachable init step s \<Longrightarrow> inv s"
  by (induction rule: reachable.induct) (auto intro: init_inv step_inv)

lemma steps_inv: "step\<^sup>*\<^sup>* s t \<Longrightarrow> inv s \<Longrightarrow> inv t"
  by (induction rule: rtranclp_induct) (auto intro: step_inv)

end

end
