(* ===== verification/Qos.thy ===== *)
theory Qos
  imports Prelude
begin

text \<open>
  \<^verbatim>\<open>code/include/rdb/bus/qos.h\<close>: the quality-of-service record, its presets, and the
  requested/offered (RxO) compatibility test. The two enums get the strength order that the
  header's comments describe, as instances of \<open>linorder\<close>, and the test is shown to behave like an order.
\<close>

section \<open>Policies\<close>

datatype Reliability = BestEffort | Reliable

datatype Durability = Volatile | TransientLocal

datatype HistoryKind = KeepLast | KeepAll

record QoS =
  reliability :: Reliability
  durability :: Durability
  history :: HistoryKind
  depth :: nat
  deadline :: nanos
  lifespan :: nanos

text \<open>The default member initialisers, and the three presets that start from them.\<close>

definition default_qos :: QoS where
  "default_qos = \<lparr>reliability = Reliable, durability = Volatile, history = KeepLast,
                  depth = 10, deadline = 0, lifespan = 0\<rparr>"

definition sensor_data :: "nat \<Rightarrow> QoS" where
  "sensor_data n =
     default_qos\<lparr>reliability := BestEffort, durability := Volatile, depth := n\<rparr>"

definition command :: "nat \<Rightarrow> QoS" where
  "command n =
     default_qos\<lparr>reliability := Reliable, durability := Volatile, depth := n\<rparr>"

definition latched :: "nat \<Rightarrow> QoS" where
  "latched n =
     default_qos\<lparr>reliability := Reliable, durability := TransientLocal, depth := n\<rparr>"

datatype QosMismatch = NoMismatch | ReliabilityMismatch | DurabilityMismatch | DeadlineMismatch

definition check_compatible :: "QoS \<Rightarrow> QoS \<Rightarrow> QosMismatch" where
  "check_compatible offered requested =
     (if reliability offered = BestEffort \<and> reliability requested = Reliable
      then ReliabilityMismatch
      else if durability offered = Volatile \<and> durability requested = TransientLocal
      then DurabilityMismatch
      else if deadline requested > 0
      then (if deadline offered = 0 \<or> deadline offered > deadline requested
            then DeadlineMismatch else NoMismatch)
      else NoMismatch)"

definition to_string_mismatch :: "QosMismatch \<Rightarrow> string" where
  "to_string_mismatch m = (case m of
     NoMismatch \<Rightarrow> ''none''
   | ReliabilityMismatch \<Rightarrow> ''reliability''
   | DurabilityMismatch \<Rightarrow> ''durability''
   | DeadlineMismatch \<Rightarrow> ''deadline'')"

definition to_string_reliability :: "Reliability \<Rightarrow> string" where
  "to_string_reliability r = (if r = Reliable then ''reliable'' else ''best_effort'')"

definition to_string_durability :: "Durability \<Rightarrow> string" where
  "to_string_durability d = (if d = TransientLocal then ''transient_local'' else ''volatile'')"

section \<open>The strength order\<close>

instantiation Reliability :: linorder
begin

definition less_eq_Reliability :: "Reliability \<Rightarrow> Reliability \<Rightarrow> bool" where
  "less_eq_Reliability a b \<longleftrightarrow> a = BestEffort \<or> b = Reliable"

definition less_Reliability :: "Reliability \<Rightarrow> Reliability \<Rightarrow> bool" where
  "less_Reliability a b \<longleftrightarrow> a = BestEffort \<and> b = Reliable"

instance
proof
  fix a b c :: Reliability
  show "a < b \<longleftrightarrow> a \<le> b \<and> \<not> b \<le> a"
    by (cases a; cases b) (auto simp: less_eq_Reliability_def less_Reliability_def)
  show "a \<le> a" by (cases a) (auto simp: less_eq_Reliability_def)
  show "a \<le> b \<Longrightarrow> b \<le> c \<Longrightarrow> a \<le> c" by (auto simp: less_eq_Reliability_def)
  show "a \<le> b \<Longrightarrow> b \<le> a \<Longrightarrow> a = b" by (auto simp: less_eq_Reliability_def)
  show "a \<le> b \<or> b \<le> a" by (cases a; cases b) (auto simp: less_eq_Reliability_def)
qed

end

instantiation Durability :: linorder
begin

definition less_eq_Durability :: "Durability \<Rightarrow> Durability \<Rightarrow> bool" where
  "less_eq_Durability a b \<longleftrightarrow> a = Volatile \<or> b = TransientLocal"

definition less_Durability :: "Durability \<Rightarrow> Durability \<Rightarrow> bool" where
  "less_Durability a b \<longleftrightarrow> a = Volatile \<and> b = TransientLocal"

instance
proof
  fix a b c :: Durability
  show "a < b \<longleftrightarrow> a \<le> b \<and> \<not> b \<le> a"
    by (cases a; cases b) (auto simp: less_eq_Durability_def less_Durability_def)
  show "a \<le> a" by (cases a) (auto simp: less_eq_Durability_def)
  show "a \<le> b \<Longrightarrow> b \<le> c \<Longrightarrow> a \<le> c" by (auto simp: less_eq_Durability_def)
  show "a \<le> b \<Longrightarrow> b \<le> a \<Longrightarrow> a = b" by (auto simp: less_eq_Durability_def)
  show "a \<le> b \<or> b \<le> a" by (cases a; cases b) (auto simp: less_eq_Durability_def)
qed

end

lemma reliability_not_le [simp]:
  fixes a b :: Reliability
  shows "\<not> a \<le> b \<longleftrightarrow> a = Reliable \<and> b = BestEffort"
  by (cases a; cases b) (auto simp: less_eq_Reliability_def)

lemma durability_not_le [simp]:
  fixes a b :: Durability
  shows "\<not> a \<le> b \<longleftrightarrow> a = TransientLocal \<and> b = Volatile"
  by (cases a; cases b) (auto simp: less_eq_Durability_def)

section \<open>Compatibility as an order\<close>

text \<open>
  What the header's opening comment asks for is that an offer is at least as strong as a request, so the test has to behave like an
  order: every offer satisfies the same request, and what satisfies a stronger request satisfies a weaker one. The second needs a
  deadline in the middle that is not negative: a negative one asks for nothing but, offered, promises something.
\<close>

lemma check_compatible_le:
  "check_compatible p s = NoMismatch \<longleftrightarrow> reliability s \<le> reliability p \<and> durability s \<le> durability p \<and>
     (0 < deadline s \<longrightarrow> deadline p \<noteq> 0 \<and> deadline p \<le> deadline s)"
  by (cases "reliability p"; cases "reliability s"; cases "durability p"; cases "durability s")
     (auto simp: check_compatible_def less_eq_Reliability_def less_eq_Durability_def)

lemma check_compatible_refl [simp]: "check_compatible q q = NoMismatch"
  by (simp add: check_compatible_le)

lemma check_compatible_trans:
  assumes "check_compatible p q = NoMismatch" and "check_compatible q s = NoMismatch" and "0 \<le> deadline q"
  shows "check_compatible p s = NoMismatch"
  using assms order_trans [of "reliability s" "reliability q" "reliability p"]
    order_trans [of "durability s" "durability q" "durability p"]
  by (auto simp: check_compatible_le simp del: reliability_not_le durability_not_le)

end
