(* ===== verification/Byte_Codec.thy ===== *)
theory Byte_Codec
  imports Prelude
begin

text \<open>
  The byte-level writers and readers of \<^verbatim>\<open>code/include/rdb/msg/header.h\<close> (namespace \<^verbatim>\<open>detail\<close>),
  which the frame prefix of \<^verbatim>\<open>transport/framing.h\<close> repeats inline. A \<^verbatim>\<open>std::byte*\<close> is a byte
  list together with an offset; a writer returns the updated list.

  The locale \<open>byte_codec\<close> is the interface the message header and the framing layer rely on: a
  fixed-width writer and reader that are mutually inverse on their slice and leave the rest of
  the buffer alone. The three integer widths of the header interpret it.
\<close>

unbundle bit_operations_syntax

section \<open>The loops of the source\<close>

definition put_loop :: "nat \<Rightarrow> bytes \<Rightarrow> nat \<Rightarrow> 'a::len word \<Rightarrow> bytes" where
  "put_loop n out p v =
     foldl (\<lambda>m i. m[p + i := ucast (drop_bit (8 * i) v AND 0xFF)]) out [0..<n]"

definition get_loop :: "nat \<Rightarrow> bytes \<Rightarrow> nat \<Rightarrow> 'a::len word" where
  "get_loop n inp p = foldl (\<lambda>v i. v OR push_bit (8 * i) (ucast (inp ! (p + i)))) 0 [0..<n]"

definition put_u16 :: "bytes \<Rightarrow> nat \<Rightarrow> u16 \<Rightarrow> bytes" where
  "put_u16 out p v =
     (let out = out[p + 0 := ucast (v AND 0xFF)] in
      out[p + 1 := ucast (drop_bit 8 v AND 0xFF)])"

definition put_u32 :: "bytes \<Rightarrow> nat \<Rightarrow> u32 \<Rightarrow> bytes" where
  "put_u32 = put_loop 4"

definition put_u64 :: "bytes \<Rightarrow> nat \<Rightarrow> u64 \<Rightarrow> bytes" where
  "put_u64 = put_loop 8"

definition get_u16 :: "bytes \<Rightarrow> nat \<Rightarrow> u16" where
  "get_u16 inp p = ucast (inp ! (p + 0)) OR push_bit 8 (ucast (inp ! (p + 1)))"

definition get_u32 :: "bytes \<Rightarrow> nat \<Rightarrow> u32" where
  "get_u32 = get_loop 4"

definition get_u64 :: "bytes \<Rightarrow> nat \<Rightarrow> u64" where
  "get_u64 = get_loop 8"

section \<open>Little-endian byte strings\<close>

text \<open>The reference the loops are compared with: byte \<open>i\<close> holds bits \<open>8i..8i+7\<close>.\<close>

definition le_bytes :: "nat \<Rightarrow> 'a::len word \<Rightarrow> bytes" where
  "le_bytes n v = map (\<lambda>i. ucast (drop_bit (8 * i) v)) [0..<n]"

definition le_word :: "bytes \<Rightarrow> 'a::len word" where
  "le_word bs = foldl (\<lambda>v i. v OR push_bit (8 * i) (ucast (bs ! i))) 0 [0..<length bs]"

lemma length_le_bytes [simp]: "length (le_bytes n v) = n"
  by (simp add: le_bytes_def)

lemma nth_le_bytes: "i < n \<Longrightarrow> le_bytes n v ! i = ucast (drop_bit (8 * i) v)"
  by (simp add: le_bytes_def)

lemma bit_foldl_or:
  fixes f :: "nat \<Rightarrow> 'a::len word"
  shows "bit (foldl (\<lambda>v i. v OR f i) a [0..<n]) k \<longleftrightarrow> bit a k \<or> (\<exists>i<n. bit (f i) k)"
  by (induction n) (auto simp: bit_or_iff less_Suc_eq)

lemma bit_le_word:
  "bit (le_word bs :: 'a::len word) k \<longleftrightarrow>
     k < LENGTH('a) \<and> k < 8 * length bs \<and> bit (bs ! (k div 8)) (k mod 8)"
proof -
  have "bit (le_word bs :: 'a word) k \<longleftrightarrow>
        (\<exists>i<length bs. 8 * i \<le> k \<and> k < LENGTH('a) \<and> bit (bs ! i) (k - 8 * i))"
    by (auto simp: le_word_def bit_foldl_or bit_push_bit_iff bit_ucast_iff)
  also have "\<dots> \<longleftrightarrow> k < LENGTH('a) \<and> k < 8 * length bs \<and> bit (bs ! (k div 8)) (k mod 8)"
  proof safe
    fix i assume i: "i < length bs" "8 * i \<le> k" "k < LENGTH('a)" "bit (bs ! i) (k - 8 * i)"
    have "k - 8 * i < 8" using bit_imp_le_length [OF i(4)] by simp
    with i(2) obtain r where r: "k = 8 * i + r" "r < 8" by (metis le_add_diff_inverse)
    then have d: "k div 8 = i" and m: "k mod 8 = k - 8 * i" by simp_all
    show "k < 8 * length bs" using i(1) \<open>k - 8 * i < 8\<close> by linarith
    show "bit (bs ! (k div 8)) (k mod 8)" using i(4) d m by simp
  next
    assume k: "k < LENGTH('a)" "k < 8 * length bs" "bit (bs ! (k div 8)) (k mod 8)"
    moreover have "k - 8 * (k div 8) = k mod 8" by (simp add: minus_mult_div_eq_mod)
    moreover have "k div 8 < length bs" using k(2) by linarith
    ultimately show "\<exists>i<length bs. 8 * i \<le> k \<and> k < LENGTH('a) \<and> bit (bs ! i) (k - 8 * i)"
      by (intro exI [of _ "k div 8"]) auto
  qed
  finally show ?thesis .
qed

lemma bit_nth_le_bytes:
  "i < n \<Longrightarrow> bit (le_bytes n v ! i) j \<longleftrightarrow> j < 8 \<and> bit v (8 * i + j)"
  by (auto simp: nth_le_bytes bit_ucast_iff bit_drop_bit_eq)

lemma le_word_le_bytes:
  fixes v :: "'a::len word"
  assumes "LENGTH('a) \<le> 8 * n"
  shows "le_word (le_bytes n v) = v"
proof (rule bit_word_eqI)
  fix k assume k: "k < LENGTH('a)"
  have "k div 8 < n" using k assms by linarith
  then show "bit (le_word (le_bytes n v) :: 'a word) k \<longleftrightarrow> bit v k"
    using k assms by (simp add: bit_le_word bit_nth_le_bytes)
qed

lemma le_bytes_le_word:
  assumes "LENGTH('a::len) = 8 * n" and "length bs = n"
  shows "le_bytes n (le_word bs :: 'a word) = bs"
proof (rule nth_equalityI)
  show "length (le_bytes n (le_word bs :: 'a word)) = length bs" using assms by simp
next
  fix i assume "i < length (le_bytes n (le_word bs :: 'a word))"
  then have i: "i < n" by simp
  show "le_bytes n (le_word bs :: 'a word) ! i = bs ! i"
  proof (rule bit_word_eqI)
    fix j assume j: "j < LENGTH(8)"
    then have "(8 * i + j) div 8 = i" "(8 * i + j) mod 8 = j" "8 * i + j < 8 * n"
      using i by auto
    then show "bit (le_bytes n (le_word bs :: 'a word) ! i) j \<longleftrightarrow> bit (bs ! i) j"
      using i j assms by (simp add: bit_nth_le_bytes bit_le_word)
  qed
qed

lemma ucast_mask8: "(ucast (x AND 0xFF) :: u8) = ucast (x :: 'a::len word)"
proof (rule bit_word_eqI)
  fix k assume "k < LENGTH(8)"
  then have "k < 8" by simp
  have m: "(0xFF :: 'a word) = mask 8" by (simp add: mask_eq_exp_minus_1)
  show "bit (ucast (x AND 0xFF) :: u8) k \<longleftrightarrow> bit (ucast x :: u8) k"
    unfolding m using \<open>k < 8\<close>
    by (auto simp only: bit_ucast_iff bit_and_iff bit_mask_iff dest: bit_imp_possible_bit)
qed

section \<open>The loops compute the reference\<close>

lemma put_loop_prefix:
  assumes "length xs = p" and "length ys = n" and "k \<le> n"
  shows "foldl (\<lambda>m i. m[p + i := f i]) (xs @ ys @ zs) [0..<k] =
         xs @ (map f [0..<k] @ drop k ys) @ zs"
  using assms(3)
proof (induction k)
  case 0
  then show ?case by simp
next
  case (Suc k)
  have "(map f [0..<k] @ drop k ys)[k := f k] = map f [0..<Suc k] @ drop (Suc k) ys"
    using Suc.prems assms(2) by (simp add: list_update_append upd_conv_take_nth_drop drop_Suc tl_drop)
  moreover have "k < length (map f [0..<k] @ drop k ys)" using Suc.prems assms(2) by simp
  ultimately show ?case using Suc assms by (simp add: slice_simps del: append_assoc)
qed

lemma put_loop_slice:
  "length xs = p \<Longrightarrow> length ys = n \<Longrightarrow> put_loop n (xs @ ys @ zs) p v = xs @ le_bytes n v @ zs"
  unfolding put_loop_def ucast_mask8
  by (simp add: put_loop_prefix [where k = n and n = n] le_bytes_def)

lemma get_loop_slice:
  assumes "length xs = p" and "length ys = n"
  shows "get_loop n (xs @ ys @ zs) p = le_word ys"
  unfolding get_loop_def le_word_def
  by (rule foldl_cong) (auto simp: slice_simps assms)

lemma put_u16_slice:
  "length xs = p \<Longrightarrow> length ys = 2 \<Longrightarrow> put_u16 (xs @ ys @ zs) p v = xs @ le_bytes 2 v @ zs"
proof -
  have "put_u16 m p v = put_loop 2 m p v" for m
    by (simp add: put_u16_def put_loop_def Let_def numeral_2_eq_2)
  then show "length xs = p \<Longrightarrow> length ys = 2 \<Longrightarrow> ?thesis" by (simp add: put_loop_slice)
qed

lemma get_u16_slice:
  "length xs = p \<Longrightarrow> length ys = 2 \<Longrightarrow> get_u16 (xs @ ys @ zs) p = le_word ys"
proof -
  have "get_u16 m p = get_loop 2 m p" for m
    by (simp add: get_u16_def get_loop_def numeral_2_eq_2)
  then show "length xs = p \<Longrightarrow> length ys = 2 \<Longrightarrow> ?thesis" by (simp add: get_loop_slice)
qed

section \<open>The interface\<close>

locale byte_codec =
  fixes width :: nat
    and put :: "bytes \<Rightarrow> nat \<Rightarrow> 'v \<Rightarrow> bytes"
    and get :: "bytes \<Rightarrow> nat \<Rightarrow> 'v"
    and enc :: "'v \<Rightarrow> bytes"
    and dec :: "bytes \<Rightarrow> 'v"
  assumes put_slice: "length xs = p \<Longrightarrow> length ys = width \<Longrightarrow>
      put (xs @ ys @ zs) p v = xs @ enc v @ zs"
    and get_slice: "length xs = p \<Longrightarrow> length ys = width \<Longrightarrow> get (xs @ ys @ zs) p = dec ys"
    and enc_length: "length (enc v) = width"
    and dec_enc: "dec (enc v) = v"
    and enc_dec: "length bs = width \<Longrightarrow> enc (dec bs) = bs"
begin

lemma put_eq: "p + width \<le> length m \<Longrightarrow> put m p v = take p m @ enc v @ drop (p + width) m"
  using split_slice [of p width m] by (auto simp: put_slice)

lemma get_eq: "p + width \<le> length m \<Longrightarrow> get m p = dec (take width (drop p m))"
  using split_slice [of p width m] by (auto simp: get_slice)

lemma get_is: "p + width \<le> length m \<Longrightarrow> get m p = v \<longleftrightarrow> take width (drop p m) = enc v"
proof -
  assume le: "p + width \<le> length m"
  then have "enc (dec (take width (drop p m))) = take width (drop p m)" by (intro enc_dec) simp
  then show "get m p = v \<longleftrightarrow> take width (drop p m) = enc v" using le get_eq dec_enc by metis
qed

lemma put_length: "p + width \<le> length m \<Longrightarrow> length (put m p v) = length m"
  by (simp add: put_eq enc_length)

lemma get_put: "p + width \<le> length m \<Longrightarrow> get (put m p v) p = v"
  by (simp add: get_eq put_length) (simp add: put_eq enc_length dec_enc)

lemma put_get: "p + width \<le> length m \<Longrightarrow> put m p (get m p) = m"
proof -
  assume le: "p + width \<le> length m"
  then have "enc (dec (take width (drop p m))) = take width (drop p m)"
    by (intro enc_dec) simp
  then show "put m p (get m p) = m"
    using le by (simp add: put_eq get_eq) (metis append_take_drop_id drop_drop add.commute)
qed

lemma put_cons_slices:
  "p = length xs \<Longrightarrow> width \<le> length rest \<Longrightarrow>
     put (xs @ rest) p v = (xs @ enc v) @ drop width rest"
  using put_slice [of xs p "take width rest" "drop width rest" v] by simp

lemma get_cons_slices:
  "p = length xs \<Longrightarrow> get (xs @ enc v @ rest) p = v"
  using get_slice [of xs p "enc v" rest] by (simp add: enc_length dec_enc)

end

interpretation le16: byte_codec 2 put_u16 get_u16 "le_bytes 2" le_word
  by unfold_locales
     (simp_all add: put_u16_slice get_u16_slice le_word_le_bytes le_bytes_le_word)

interpretation le32: byte_codec 4 put_u32 get_u32 "le_bytes 4" le_word
  by unfold_locales
     (simp_all add: put_u32_def get_u32_def put_loop_slice get_loop_slice
        le_word_le_bytes le_bytes_le_word)

interpretation le64: byte_codec 8 put_u64 get_u64 "le_bytes 8" le_word
  by unfold_locales
     (simp_all add: put_u64_def get_u64_def put_loop_slice get_loop_slice
        le_word_le_bytes le_bytes_le_word)

end
