(* ===== verification/Header.thy ===== *)
theory Header
  imports Byte_Codec
begin

text \<open>
  \<^verbatim>\<open>code/include/rdb/msg/header.h\<close>: the 48-byte message header, its encoder and decoder, and
  the FNV-1a schema fingerprint. \<open>decode_header\<close> assigns the fields of its output parameter as
  it goes, so on a failure the output keeps what was assigned before the failing check; the
  model returns the output beside the boolean.
\<close>

unbundle bit_operations_syntax

section \<open>Data\<close>

definition kMessageMagic :: u32 where "kMessageMagic = 0x31424452"
definition kMessageVersion :: u16 where "kMessageVersion = 1"
definition kHeaderSize :: nat where "kHeaderSize = 48"

definition kFlagNone :: u16 where "kFlagNone = 0"
definition kFlagCompressed :: u16 where "kFlagCompressed = push_bit 0 1"
definition kFlagKeyFrame :: u16 where "kFlagKeyFrame = push_bit 1 1"
definition kFlagFragment :: u16 where "kFlagFragment = push_bit 2 1"
definition kFlagLastFragment :: u16 where "kFlagLastFragment = push_bit 3 1"

record MessageHeader =
  magic :: u32
  version :: u16
  flags :: u16
  schema_id :: u32
  schema_hash :: u32
  seq :: u64
  stamp_ns :: u64
  publish_ns :: u64
  payload_size :: u32
  reserved :: u32

definition default_header :: MessageHeader where
  "default_header = \<lparr>magic = kMessageMagic, version = kMessageVersion, flags = kFlagNone,
     schema_id = 0, schema_hash = 0, seq = 0, stamp_ns = 0, publish_ns = 0,
     payload_size = 0, reserved = 0\<rparr>"

section \<open>Operations\<close>

definition encode_header :: "MessageHeader \<Rightarrow> bytes \<Rightarrow> bytes" where
  "encode_header h out =
     (let out = put_u32 out 0 (magic h);
          out = put_u16 out 4 (version h);
          out = put_u16 out 6 (flags h);
          out = put_u32 out 8 (schema_id h);
          out = put_u32 out 12 (schema_hash h);
          out = put_u64 out 16 (seq h);
          out = put_u64 out 24 (stamp_ns h);
          out = put_u64 out 32 (publish_ns h);
          out = put_u32 out 40 (payload_size h)
      in put_u32 out 44 (reserved h))"

definition decode_header :: "bytes \<Rightarrow> nat \<Rightarrow> MessageHeader \<Rightarrow> bool \<times> MessageHeader" where
  "decode_header inp n out =
     (if n < kHeaderSize then (False, out)
      else let out = out\<lparr>magic := get_u32 inp 0\<rparr> in
      if magic out \<noteq> kMessageMagic then (False, out)
      else let out = out\<lparr>version := get_u16 inp 4\<rparr> in
      if version out = 0 \<or> version out > kMessageVersion then (False, out)
      else (True, out\<lparr>flags := get_u16 inp 6,
                      schema_id := get_u32 inp 8,
                      schema_hash := get_u32 inp 12,
                      seq := get_u64 inp 16,
                      stamp_ns := get_u64 inp 24,
                      publish_ns := get_u64 inp 32,
                      payload_size := get_u32 inp 40,
                      reserved := get_u32 inp 44\<rparr>))"

definition schema_fingerprint :: "u8 list \<Rightarrow> u32" where
  "schema_fingerprint signature =
     foldl (\<lambda>hash c. (hash XOR ucast c) * 16777619) 2166136261 signature"

section \<open>The wire image\<close>

text \<open>The 48 bytes a header occupies, field after field, little-endian.\<close>

definition header_image :: "MessageHeader \<Rightarrow> bytes" where
  "header_image h =
     le_bytes 4 (magic h) @ le_bytes 2 (version h) @ le_bytes 2 (flags h) @
     le_bytes 4 (schema_id h) @ le_bytes 4 (schema_hash h) @ le_bytes 8 (seq h) @
     le_bytes 8 (stamp_ns h) @ le_bytes 8 (publish_ns h) @ le_bytes 4 (payload_size h) @
     le_bytes 4 (reserved h)"

definition header_fields :: "bytes \<Rightarrow> MessageHeader" where
  "header_fields m = \<lparr>magic = get_u32 m 0, version = get_u16 m 4, flags = get_u16 m 6,
     schema_id = get_u32 m 8, schema_hash = get_u32 m 12, seq = get_u64 m 16,
     stamp_ns = get_u64 m 24, publish_ns = get_u64 m 32, payload_size = get_u32 m 40,
     reserved = get_u32 m 44\<rparr>"

lemma length_header_image [simp]: "length (header_image h) = 48"
  by (simp add: header_image_def)

lemmas put_chunks = le16.put_cons_slices le32.put_cons_slices le64.put_cons_slices

lemma encode_header_image:
  assumes "kHeaderSize \<le> length out"
  shows "encode_header h out = header_image h @ drop kHeaderSize out"
proof -
  have len: "48 \<le> length out" using assms by (simp add: kHeaderSize_def)
  have "put_u32 out 0 v = le_bytes 4 v @ drop 4 out" for v
    using len le32.put_cons_slices [of 0 "[]" out v] by simp
  then show ?thesis
    using len by (simp add: encode_header_def header_image_def Let_def kHeaderSize_def
        put_chunks del: append_assoc)
qed

lemmas get_eqs = le16.get_eq le32.get_eq le64.get_eq

lemma header_fields_image: "header_fields (header_image h @ rest) = h"
  by (simp add: header_fields_def get_eqs header_image_def le16.dec_enc le32.dec_enc le64.dec_enc)

lemma header_image_fields:
  assumes "kHeaderSize \<le> length m"
  shows "header_image (header_fields m) = take kHeaderSize m"
proof -
  have len: "48 \<le> length m" using assms by (simp add: kHeaderSize_def)
  have chunk: "take n (drop p m) @ take k (drop (p + n) m) = take (n + k) (drop p m)" for n p k
    by (metis drop_drop add.commute take_add)
  have "header_image (header_fields m) =
          take 4 (drop 0 m) @ take 2 (drop 4 m) @ take 2 (drop 6 m) @ take 4 (drop 8 m) @
          take 4 (drop 12 m) @ take 8 (drop 16 m) @ take 8 (drop 24 m) @ take 8 (drop 32 m) @
          take 4 (drop 40 m) @ take 4 (drop 44 m)"
    using len by (simp add: header_image_def header_fields_def get_eqs
        le16.enc_dec le32.enc_dec le64.enc_dec)
  also have "\<dots> = take 48 (drop 0 m)"
    using chunk [of 4 40 4] chunk [of 8 32 8] chunk [of 8 24 16] chunk [of 8 16 24]
      chunk [of 4 12 32] chunk [of 4 8 36] chunk [of 2 6 40] chunk [of 2 4 42] chunk [of 4 0 44]
    by simp
  finally show ?thesis by (simp add: kHeaderSize_def)
qed

section \<open>Decoding\<close>

lemma version_accepted:
  "\<not> (v = 0 \<or> v > kMessageVersion) \<longleftrightarrow> v = kMessageVersion"
  by (auto simp: kMessageVersion_def word_unat_eq_iff word_less_nat_alt)

lemma decode_header_cases:
  "decode_header inp n out =
     (if n < kHeaderSize then (False, out)
      else if get_u32 inp 0 \<noteq> kMessageMagic then (False, out\<lparr>magic := get_u32 inp 0\<rparr>)
      else if get_u16 inp 4 \<noteq> kMessageVersion
      then (False, out\<lparr>magic := kMessageMagic, version := get_u16 inp 4\<rparr>)
      else (True, header_fields inp))"
proof -
  have eq: "out\<lparr>magic := a, version := b, flags := c, schema_id := d, schema_hash := e, seq := f,
        stamp_ns := g, publish_ns := i, payload_size := j, reserved := k\<rparr> =
        \<lparr>magic = a, version = b, flags = c, schema_id = d, schema_hash = e, seq = f,
         stamp_ns = g, publish_ns = i, payload_size = j, reserved = k\<rparr>"
    for a b c d e f g i j k and out :: MessageHeader
    by (cases out) simp
  show ?thesis
    using version_accepted [of "get_u16 inp 4"]
    by (auto simp: decode_header_def Let_def header_fields_def eq)
qed

text \<open>
  C15: Encoding a header that carries the current magic and version into any buffer with room for
  it and decoding that buffer gives back every field, whatever the buffer held before and
  whatever the output parameter held.
\<close>

theorem header_roundtrip:
  assumes "kHeaderSize \<le> length buf" and "kHeaderSize \<le> n"
    and "magic h = kMessageMagic" and "version h = kMessageVersion"
  shows "decode_header (encode_header h buf) n out = (True, h)"
proof -
  have f: "header_fields (encode_header h buf) = h"
    using assms(1) by (simp add: encode_header_image header_fields_image)
  then have "get_u32 (encode_header h buf) 0 = magic h"
    and "get_u16 (encode_header h buf) 4 = version h"
    by (metis MessageHeader.select_convs(1) header_fields_def,
        metis MessageHeader.select_convs(2) header_fields_def)
  then show ?thesis using assms f by (simp add: decode_header_cases)
qed

theorem header_roundtrip_witness:
  "decode_header (encode_header (default_header\<lparr>seq := 7\<rparr>) (replicate 50 0)) 48 default_header =
     (True, default_header\<lparr>seq := 7\<rparr>)"
  by (rule header_roundtrip) (simp_all add: kHeaderSize_def default_header_def)

text \<open>
  C31: The decoder accepts canonical bytes only: whatever it accepts has the current magic and
  version, came from at least 48 bytes, and encoding the decoded header again over the same
  buffer changes no byte.
\<close>

theorem decode_header_canonical:
  assumes "decode_header inp n out = (True, h)" and "n \<le> length inp"
  shows "kHeaderSize \<le> n \<and> magic h = kMessageMagic \<and> version h = kMessageVersion \<and>
         encode_header h inp = inp"
proof -
  have n: "kHeaderSize \<le> n" and h: "h = header_fields inp"
    and v: "get_u32 inp 0 = kMessageMagic" "get_u16 inp 4 = kMessageVersion"
    using assms(1) by (auto simp: decode_header_cases split: if_splits)
  have "encode_header h inp = inp"
    using n assms(2) h by (simp add: encode_header_image header_image_fields)
  then show ?thesis using n h v by (simp add: header_fields_def)
qed

theorem decode_header_canonical_witness:
  "kHeaderSize \<le> 48 \<and> magic default_header = kMessageMagic \<and>
   version default_header = kMessageVersion \<and>
   encode_header default_header (header_image default_header) = header_image default_header"
proof -
  have "header_fields (header_image default_header @ []) = default_header"
    by (rule header_fields_image)
  then have f: "header_fields (header_image default_header) = default_header" by simp
  then have "get_u32 (header_image default_header) 0 = kMessageMagic"
    and "get_u16 (header_image default_header) 4 = kMessageVersion"
    by (metis MessageHeader.select_convs(1) header_fields_def default_header_def,
        metis MessageHeader.select_convs(2) header_fields_def default_header_def)
  then have "decode_header (header_image default_header) 48 default_header = (True, default_header)"
    using f by (simp add: decode_header_cases kHeaderSize_def)
  then show ?thesis using decode_header_canonical by simp
qed

lemma magic_bytes: "le_bytes 4 kMessageMagic = map (\<lambda>c. of_nat (of_char c)) ''RDB1''" "le_bytes 2 kMessageVersion = [1, 0]"
proof -
  have upt: "[0..<4] = [0, 1, 2, 3]" "[0..<2] = [0, 1 :: nat]" by (simp_all add: upt_rec)
  show "le_bytes 4 kMessageMagic = map (\<lambda>c. of_nat (of_char c)) ''RDB1''" unfolding le_bytes_def kMessageMagic_def upt by simp
  show "le_bytes 2 kMessageVersion = [1, 0]" unfolding le_bytes_def kMessageVersion_def upt by simp
qed

text \<open>
  C32: which bytes the decoder takes for a header. It accepts exactly the buffers of at least 48 bytes that begin with the
  characters RDB1 and the version 1 in little-endian, whatever follows; so one wrong byte among the first six is always detected. A buffer
  that is too short leaves the output as it was, and any other that is refused changes at most the
  magic and the version in it.
\<close>

theorem decode_header_accepts:
  assumes "n \<le> length inp" and "decode_header inp n out = (ok, h)"
  shows "(ok \<longleftrightarrow> kHeaderSize \<le> n \<and> take 6 inp = map (\<lambda>c. of_nat (of_char c)) ''RDB1'' @ [1, 0]) \<and>
    (n < kHeaderSize \<longrightarrow> h = out) \<and> (\<not> ok \<longrightarrow> (\<exists>m v. h = out\<lparr>magic := m, version := v\<rparr>))"
proof -
  have kept: "\<exists>m v. out\<lparr>magic := a\<rparr> = out\<lparr>magic := m, version := v\<rparr>" for a
    by (rule exI [of _ a], rule exI [of _ "version out"]) (cases out, simp)
  have "\<exists>m v. out = out\<lparr>magic := m, version := v\<rparr>"
    by (rule exI [of _ "magic out"], rule exI [of _ "version out"]) (cases out, simp)
  moreover have "take 6 inp = map (\<lambda>c. of_nat (of_char c)) ''RDB1'' @ [1, 0] \<longleftrightarrow>
      get_u32 inp 0 = kMessageMagic \<and> get_u16 inp 4 = kMessageVersion" if "48 \<le> length inp"
  proof -
    have t: "take 6 inp = take 4 (drop 0 inp) @ take 2 (drop 4 inp)" using take_add [of 4 2 inp] by simp
    have "take 6 inp = le_bytes 4 kMessageMagic @ le_bytes 2 kMessageVersion \<longleftrightarrow>
        take 4 (drop 0 inp) = le_bytes 4 kMessageMagic \<and> take 2 (drop 4 inp) = le_bytes 2 kMessageVersion"
      unfolding t using that by (intro append_eq_append_conv) simp
    then show ?thesis using that le32.get_is [of 0 inp kMessageMagic] le16.get_is [of 4 inp kMessageVersion]
      by (simp only: magic_bytes)
  qed
  ultimately show ?thesis using assms kept
    by (auto simp: decode_header_cases kHeaderSize_def split: if_splits)
qed

theorem decode_header_accepts_witness:
  "\<not> fst (decode_header ((header_image default_header)[3 := 0x32]) 48 default_header)"
proof -
  let ?m = "(header_image default_header)[3 := 0x32]"
  obtain ok h where d: "decode_header ?m 48 default_header = (ok, h)" by fastforce
  have "take 6 ?m ! 3 = 0x32" by simp
  moreover have "(map (\<lambda>c. of_nat (of_char c)) ''RDB1'' @ [1, 0 :: u8]) ! 3 \<noteq> 0x32" by simp
  ultimately have "take 6 ?m \<noteq> map (\<lambda>c. of_nat (of_char c)) ''RDB1'' @ [1, 0]" by metis
  then show ?thesis using decode_header_accepts [OF _ d] d by simp
qed

text \<open>
  The encoder writes the 48 bytes of the little-endian wire image, nothing outside them, and
  a header with the default magic starts with the bytes of the ASCII string RDB1.
\<close>

theorem encode_header_layout:
  assumes "kHeaderSize \<le> length out"
  shows "encode_header h out = header_image h @ drop kHeaderSize out \<and>
         (magic h = kMessageMagic \<longrightarrow>
            take 4 (encode_header h out) = map (\<lambda>c. of_nat (of_char c)) ''RDB1'')"
  using assms by (simp add: encode_header_image header_image_def magic_bytes)

theorem encode_header_layout_witness:
  "encode_header default_header (replicate 49 7) =
     header_image default_header @ drop kHeaderSize (replicate 49 7)"
  using encode_header_layout [of "replicate 49 7" default_header] by (simp add: kHeaderSize_def)

section \<open>The schema fingerprint\<close>

definition fnv_step :: "u32 \<Rightarrow> u8 \<Rightarrow> u32" where
  "fnv_step hash c = (hash XOR ucast c) * 16777619"

lemma fnv_prime_inverse: "(16777619 :: u32) * 899433627 = 1"
  by simp

lemma fnv_mult_inject: "(a * 16777619 :: u32) = b * 16777619 \<longleftrightarrow> a = b"
  by (metis (no_types) fnv_prime_inverse mult.assoc mult.right_neutral)

lemma fnv_step_inject_hash: "fnv_step h c = fnv_step h' c \<longleftrightarrow> h = h'"
  by (simp add: fnv_step_def fnv_mult_inject xor_cancel_right)

lemma fnv_step_inject_byte: "fnv_step h c = fnv_step h c' \<longleftrightarrow> c = c'"
proof
  assume "fnv_step h c = fnv_step h c'"
  then have "(ucast c :: u32) = ucast c'"
    by (simp add: fnv_step_def fnv_mult_inject xor_cancel_left)
  then show "c = c'" by transfer (simp add: take_bit_eq_mod)
qed simp

lemma foldl_fnv_inject: "foldl fnv_step h zs = foldl fnv_step h' zs \<longleftrightarrow> h = h'"
  by (induction zs arbitrary: h h') (simp_all add: fnv_step_inject_hash)

lemma schema_fingerprint_fnv: "schema_fingerprint s = foldl fnv_step 2166136261 s"
proof -
  have "(\<lambda>hash c. (hash XOR ucast c) * 16777619) = fnv_step"
    by (intro ext) (simp add: fnv_step_def)
  then show ?thesis by (simp add: schema_fingerprint_def)
qed

text \<open>
  C33: The fingerprint detects every single-byte change of a schema signature, at any position
  and in a signature of any length; and a common suffix neither hides nor creates a
  difference between two signatures.
\<close>

theorem schema_fingerprint_detects:
  "(a \<noteq> b \<longrightarrow> schema_fingerprint (xs @ a # ys) \<noteq> schema_fingerprint (xs @ b # ys)) \<and>
   (schema_fingerprint (us @ ys) = schema_fingerprint (vs @ ys) \<longleftrightarrow>
      schema_fingerprint us = schema_fingerprint vs)"
  by (simp add: schema_fingerprint_fnv foldl_fnv_inject fnv_step_inject_byte)

theorem schema_fingerprint_detects_witness:
  "schema_fingerprint ([0x66] @ 0x36 # [0x34]) \<noteq> schema_fingerprint ([0x66] @ 0x33 # [0x34])"
  using schema_fingerprint_detects [of "0x36" "0x33" "[0x66]" "[0x34]" "[]" "[]"] by simp

end
