(* ===== verification/Framing.thy ===== *)
theory Framing
  imports Byte_Codec
begin

text \<open>
  \<^verbatim>\<open>code/include/rdb/transport/framing.h\<close>: length-prefixed frames over a byte stream. The
  encoder appends \<open>[magic u32][length u32][payload]\<close> to a byte vector; the decoder keeps a buffer
  with a consumed prefix of \<open>head\<close> bytes, which \<open>compact\<close> removes lazily.

  The decoder is compared with \<open>parse_frame\<close>, a parser of byte lists: \<open>pending\<close> (the unconsumed
  bytes) is the abstraction, and compaction is invisible through it. On top of that stand the
  properties a byte-stream transport needs: what is decoded does not depend on how the stream
  was cut into reads, and decoding inverts encoding.
\<close>

section \<open>Encoder\<close>

definition kFrameMagic :: u32 where "kFrameMagic = 0x314D5246"
definition kFramePrefixSize :: nat where "kFramePrefixSize = 8"

definition memcpy :: "bytes \<Rightarrow> nat \<Rightarrow> bytes \<Rightarrow> bytes" where
  "memcpy dst p src = take p dst @ src @ drop (p + length src) dst"

definition encode_frame_into :: "bytes \<Rightarrow> bytes \<Rightarrow> bytes" where
  "encode_frame_into payload out =
     (let n = length payload;
          offset = length out;
          out = out @ replicate (kFramePrefixSize + n) 0;
          out = put_loop 4 out offset kFrameMagic;
          len = (of_nat n :: u32);
          out = put_loop 4 out (offset + 4) len
      in if n > 0 then memcpy out (offset + kFramePrefixSize) payload else out)"

definition encode_frame :: "bytes \<Rightarrow> bytes" where
  "encode_frame payload = encode_frame_into payload []"

section \<open>Decoder\<close>

record FrameDecoder =
  buffer :: bytes
  head :: nat
  max_frame_bytes :: nat
  frames :: u64
  error :: bool

definition new_decoder :: "nat \<Rightarrow> FrameDecoder" where
  "new_decoder m = \<lparr>buffer = [], head = 0, max_frame_bytes = m, frames = 0, error = False\<rparr>"

definition default_max_frame_bytes :: nat where
  "default_max_frame_bytes = 8 * 1024 * 1024"

definition feed :: "FrameDecoder \<Rightarrow> bytes \<Rightarrow> FrameDecoder" where
  "feed d data = (if error d then d else d\<lparr>buffer := buffer d @ data\<rparr>)"

definition compact :: "FrameDecoder \<Rightarrow> FrameDecoder" where
  "compact d =
     (if head d = 0 then d
      else if head d = length (buffer d) then d\<lparr>buffer := [], head := 0\<rparr>
      else if head d * 2 \<ge> length (buffer d)
      then d\<lparr>buffer := drop (head d) (buffer d), head := 0\<rparr>
      else d)"

definition next_frame :: "FrameDecoder \<Rightarrow> bytes \<Rightarrow> bool \<times> bytes \<times> FrameDecoder" where
  "next_frame d out =
     (if error d then (False, out, d)
      else if length (buffer d) - head d < kFramePrefixSize then (False, out, compact d)
      else let magic = (get_loop 4 (buffer d) (head d) :: u32) in
      if magic \<noteq> kFrameMagic then (False, out, d\<lparr>error := True\<rparr>)
      else let len = unat (get_loop 4 (buffer d) (head d + 4) :: u32) in
      if len > max_frame_bytes d then (False, out, d\<lparr>error := True\<rparr>)
      else let total = kFramePrefixSize + len in
      if length (buffer d) - head d < total then (False, out, compact d)
      else (True, take (total - kFramePrefixSize) (drop (head d + kFramePrefixSize) (buffer d)),
            compact (d\<lparr>head := head d + total, frames := frames d + 1\<rparr>)))"

definition buffered :: "FrameDecoder \<Rightarrow> nat" where
  "buffered d = length (buffer d) - head d"

definition frames_decoded :: "FrameDecoder \<Rightarrow> u64" where
  "frames_decoded d = frames d"

definition reset :: "FrameDecoder \<Rightarrow> FrameDecoder" where
  "reset d = d\<lparr>buffer := [], head := 0, error := False\<rparr>"

section \<open>Invariant and abstraction\<close>

definition decoder_inv :: "FrameDecoder \<Rightarrow> bool" where
  "decoder_inv d \<longleftrightarrow> head d \<le> length (buffer d)"

definition pending :: "FrameDecoder \<Rightarrow> bytes" where
  "pending d = drop (head d) (buffer d)"

lemma compact_fields [frame_simps]:
  "error (compact d) = error d" "frames (compact d) = frames d"
  "max_frame_bytes (compact d) = max_frame_bytes d" "pending (compact d) = pending d"
  by (simp_all add: compact_def pending_def)

lemma compact_inv [inv_intros]: "decoder_inv d \<Longrightarrow> decoder_inv (compact d)"
  by (auto simp: compact_def decoder_inv_def)

lemma compact_halved: "decoder_inv d \<Longrightarrow>
    head (compact d) = 0 \<or> 2 * head (compact d) < length (buffer (compact d))"
  by (auto simp: compact_def decoder_inv_def)

lemma feed_inv [inv_intros]: "decoder_inv d \<Longrightarrow> decoder_inv (feed d data)"
  by (auto simp: feed_def decoder_inv_def)

lemma feed_fields [frame_simps]:
  "error (feed d data) = error d" "frames (feed d data) = frames d"
  "max_frame_bytes (feed d data) = max_frame_bytes d"
  by (simp_all add: feed_def)

lemma pending_feed:
  "decoder_inv d \<Longrightarrow> pending (feed d data) = (if error d then pending d else pending d @ data)"
  by (simp add: feed_def pending_def decoder_inv_def)

lemma length_pending: "length (pending d) = length (buffer d) - head d"
  by (simp add: pending_def)

section \<open>The reference parser\<close>

datatype parse_result = NeedMore | Desync | Frame bytes bytes

definition parse_frame :: "nat \<Rightarrow> bytes \<Rightarrow> parse_result" where
  "parse_frame m bs =
     (if length bs < 8 then NeedMore
      else if (le_word (take 4 bs) :: u32) \<noteq> kFrameMagic then Desync
      else let len = unat (le_word (take 4 (drop 4 bs)) :: u32) in
      if len > m then Desync
      else if length bs < 8 + len then NeedMore
      else Frame (take len (drop 8 bs)) (drop (8 + len) bs))"

lemma get_loop_pending:
  assumes "k + 4 \<le> length (pending d)"
  shows "(get_loop 4 (buffer d) (head d + k) :: u32) = le_word (take 4 (drop k (pending d)))"
proof -
  have "head d + k + 4 \<le> length (buffer d)" using assms by (simp add: pending_def)
  then have "get_u32 (buffer d) (head d + k) = le_word (take 4 (drop (head d + k) (buffer d)))"
    by (rule le32.get_eq)
  then show ?thesis by (simp add: get_u32_def pending_def add.commute)
qed

lemma next_frame_cases:
  assumes "decoder_inv d" and "\<not> error d"
  shows "next_frame d out =
    (case parse_frame (max_frame_bytes d) (pending d) of
       NeedMore \<Rightarrow> (False, out, compact d)
     | Desync \<Rightarrow> (False, out, d\<lparr>error := True\<rparr>)
     | Frame f rest \<Rightarrow>
         (True, f, compact (d\<lparr>head := head d + 8 + length f, frames := frames d + 1\<rparr>)))"
proof (cases "length (pending d) < 8")
  case True
  then show ?thesis
    using assms by (simp add: next_frame_def parse_frame_def kFramePrefixSize_def length_pending)
next
  case False
  then have m: "(get_loop 4 (buffer d) (head d) :: u32) = le_word (take 4 (pending d))"
    and l: "(get_loop 4 (buffer d) (head d + 4) :: u32) = le_word (take 4 (drop 4 (pending d)))"
    using get_loop_pending [of 0 d] get_loop_pending [of 4 d] by simp_all
  show ?thesis
    using False assms
    by (simp add: next_frame_def parse_frame_def kFramePrefixSize_def length_pending Let_def m l)
       (simp add: pending_def ac_simps)
qed

lemma next_frame_error: "error d \<Longrightarrow> next_frame d out = (False, out, d)"
  by (simp add: next_frame_def)

lemma parse_frame_Frame:
  assumes "parse_frame m bs = Frame f rest"
  shows "length f \<le> m" and "length bs = 8 + length f + length rest"
    and "rest = drop (8 + length f) bs"
  using assms by (auto simp: parse_frame_def Let_def split: if_splits)

text \<open>One call refines one step of the parser, and keeps the invariant.\<close>

lemma next_frame_refines:
  assumes "decoder_inv d" and "\<not> error d" and "next_frame d out = (ok, out', d')"
  shows "decoder_inv d'" and "max_frame_bytes d' = max_frame_bytes d"
    and "case parse_frame (max_frame_bytes d) (pending d) of
           NeedMore \<Rightarrow> \<not> ok \<and> out' = out \<and> \<not> error d' \<and> pending d' = pending d \<and> frames d' = frames d
         | Desync \<Rightarrow> \<not> ok \<and> out' = out \<and> error d' \<and> pending d' = pending d \<and> frames d' = frames d
         | Frame f rest \<Rightarrow> ok \<and> out' = f \<and> \<not> error d' \<and> pending d' = rest \<and> frames d' = frames d + 1"
proof -
  let ?p = "parse_frame (max_frame_bytes d) (pending d)"
  have adv: "decoder_inv (d\<lparr>head := head d + 8 + length f, frames := frames d + 1\<rparr>)"
    and pend: "drop (head d + 8 + length f) (buffer d) = rest" if "?p = Frame f rest" for f rest
    using parse_frame_Frame [OF that] assms(1)
    by (auto simp: decoder_inv_def pending_def ac_simps)
  note eq = assms(3) [unfolded next_frame_cases [OF assms(1,2)]]
  have "decoder_inv (d\<lparr>error := True\<rparr>)" using assms(1) by (simp add: decoder_inv_def)
  then show "decoder_inv d'"
    using eq adv assms(1) by (auto split: parse_result.splits intro: compact_inv)
  show "max_frame_bytes d' = max_frame_bytes d"
    using eq by (auto split: parse_result.splits simp: frame_simps)
  show "case ?p of
           NeedMore \<Rightarrow> \<not> ok \<and> out' = out \<and> \<not> error d' \<and> pending d' = pending d \<and> frames d' = frames d
         | Desync \<Rightarrow> \<not> ok \<and> out' = out \<and> error d' \<and> pending d' = pending d \<and> frames d' = frames d
         | Frame f rest \<Rightarrow> ok \<and> out' = f \<and> \<not> error d' \<and> pending d' = rest \<and> frames d' = frames d + 1"
    using eq pend assms(2)
    by (auto split: parse_result.splits simp: frame_simps) (auto simp: pending_def)
qed

section \<open>Reading a stream\<close>

text \<open>
  The loop every client of the decoder runs (\<^verbatim>\<open>while (decoder.next(frame)) ...\<close>), and the reader
  that feeds one chunk at a time and drains the decoder after each.
\<close>

lemma next_frame_shrinks:
  "next_frame d out = (True, f, d') \<Longrightarrow> length (pending d') < length (pending d)"
  by (auto simp: next_frame_def Let_def kFramePrefixSize_def frame_simps split: if_splits)
     (auto simp: pending_def)

function drain :: "FrameDecoder \<Rightarrow> bytes \<Rightarrow> bytes list \<times> FrameDecoder" where
  "drain d out = (case next_frame d out of
      (True, f, d') \<Rightarrow> (let (fs, d'') = drain d' f in (f # fs, d''))
    | (False, _, d') \<Rightarrow> ([], d'))"
  by pat_completeness auto
termination
  by (relation "measure (\<lambda>(d, out). length (pending d))")
     (auto dest: next_frame_shrinks [OF sym])

declare drain.simps [simp del]

fun read_chunks :: "FrameDecoder \<Rightarrow> bytes list \<Rightarrow> bytes list \<times> FrameDecoder" where
  "read_chunks d [] = ([], d)"
| "read_chunks d (c # cs) =
     (let (fs, d1) = drain (feed d c) [];
          (gs, d2) = read_chunks d1 cs
      in (fs @ gs, d2))"

function parse_all :: "nat \<Rightarrow> bytes \<Rightarrow> bytes list \<times> bytes \<times> bool" where
  "parse_all m bs = (case parse_frame m bs of
      NeedMore \<Rightarrow> ([], bs, False)
    | Desync \<Rightarrow> ([], bs, True)
    | Frame f rest \<Rightarrow> (let (fs, r, e) = parse_all m rest in (f # fs, r, e)))"
  by pat_completeness auto
termination
  by (relation "measure (\<lambda>(m, bs). length bs)") (auto dest!: parse_frame_Frame(2))

declare parse_all.simps [simp del]

lemma drain_refines:
  assumes "decoder_inv d" and "\<not> error d"
    and "parse_all (max_frame_bytes d) (pending d) = (fs, r, e)"
  shows "\<exists>d'. drain d out = (fs, d') \<and> decoder_inv d' \<and> max_frame_bytes d' = max_frame_bytes d \<and>
           error d' = e \<and> pending d' = r \<and> frames d' = frames d + of_nat (length fs)"
  using assms
proof (induction d out arbitrary: fs rule: drain.induct)
  case (1 d out)
  obtain ok out' d' where nf: "next_frame d out = (ok, out', d')" by (metis prod_cases3)
  note ref = next_frame_refines [OF "1.prems"(1,2) nf]
  show ?case
  proof (cases "parse_frame (max_frame_bytes d) (pending d)")
    case NeedMore
    then show ?thesis using "1.prems"(3) nf ref
      by (auto simp: drain.simps [of d out] parse_all.simps [of _ "pending d"])
  next
    case Desync
    then show ?thesis using "1.prems"(3) nf ref
      by (auto simp: drain.simps [of d out] parse_all.simps [of _ "pending d"])
  next
    case (Frame f rest)
    with ref have ok: "ok" "out' = f" "\<not> error d'" "pending d' = rest" "frames d' = frames d + 1"
      by auto
    obtain gs where gs: "parse_all (max_frame_bytes d) rest = (gs, r, e)" "fs = f # gs"
      using "1.prems"(3) Frame by (auto simp: parse_all.simps [of _ "pending d"] split: prod.splits)
    have "\<exists>d''. drain d' f = (gs, d'') \<and> decoder_inv d'' \<and>
        max_frame_bytes d'' = max_frame_bytes d' \<and> error d'' = e \<and> pending d'' = r \<and>
        frames d'' = frames d' + of_nat (length gs)"
      using "1.IH" [of True "(f, d')" f d' gs] nf ok ref(1,2) gs by simp
    then show ?thesis using nf ok ref(2) gs by (auto simp: drain.simps [of d out])
  qed
qed

lemma drain_error: "error d \<Longrightarrow> drain d out = ([], d)"
  by (simp add: drain.simps [of d out] next_frame_error)

section \<open>Independence of the chunking\<close>

lemma parse_frame_append:
  "parse_frame m bs = Desync \<Longrightarrow> parse_frame m (bs @ cs) = Desync"
  "parse_frame m bs = Frame f rest \<Longrightarrow> parse_frame m (bs @ cs) = Frame f (rest @ cs)"
  by (auto simp: parse_frame_def Let_def split: if_splits)

lemma parse_all_append:
  assumes "parse_all m bs = (fs, r, e)"
  shows "parse_all m (bs @ cs) =
     (if e then (fs, r @ cs, True)
      else let (gs, r', e') = parse_all m (r @ cs) in (fs @ gs, r', e'))"
  using assms
proof (induction m bs arbitrary: fs rule: parse_all.induct)
  case (1 m bs)
  show ?case
  proof (cases "parse_frame m bs")
    case NeedMore
    then have "fs = []" "r = bs" "\<not> e" using "1.prems" by (auto simp: parse_all.simps [of m bs])
    then show ?thesis by (simp split: prod.splits)
  next
    case Desync
    then have "fs = []" "r = bs" "e" using "1.prems" by (auto simp: parse_all.simps [of m bs])
    then show ?thesis using Desync
      by (simp add: parse_all.simps [of m "bs @ cs"] parse_frame_append)
  next
    case (Frame f rest)
    then obtain gs where gs: "parse_all m rest = (gs, r, e)" "fs = f # gs"
      using "1.prems" by (auto simp: parse_all.simps [of m bs] split: prod.splits)
    from "1.IH" [OF Frame gs(1)] show ?thesis
      using Frame gs(2)
      by (auto simp: parse_all.simps [of m "bs @ cs"] parse_frame_append split: prod.splits)
  qed
qed

text \<open>A reader's result, read off the parser: the frames, then either an error or the rest.\<close>

definition agrees :: "FrameDecoder \<Rightarrow> bytes list \<times> bytes \<times> bool \<Rightarrow> bytes list \<times> FrameDecoder \<Rightarrow> bool" where
  "agrees d spec res = (case (spec, res) of ((fs, r, e), (gs, d')) \<Rightarrow>
     gs = fs \<and> error d' = e \<and> (\<not> e \<longrightarrow> pending d' = r) \<and>
     frames d' = frames d + of_nat (length fs))"

lemma read_chunks_error: "error d \<Longrightarrow> read_chunks d cs = ([], d)"
  by (induction cs) (simp_all add: feed_def drain_error)

lemma read_chunks_refines:
  assumes "decoder_inv d" and "\<not> error d" and "cs \<noteq> [] \<or> parse_all (max_frame_bytes d) (pending d) = ([], pending d, False)"
  shows "agrees d (parse_all (max_frame_bytes d) (pending d @ concat cs)) (read_chunks d cs)"
  using assms
proof (induction cs arbitrary: d)
  case Nil
  then show ?case by (simp add: agrees_def)
next
  case (Cons c cs)
  let ?m = "max_frame_bytes d"
  obtain fs r e where p: "parse_all ?m (pending d @ c) = (fs, r, e)" by (metis prod_cases3)
  have "pending (feed d c) = pending d @ c" using Cons.prems by (simp add: pending_feed)
  then obtain d1 where d1: "drain (feed d c) [] = (fs, d1)" "decoder_inv d1" "max_frame_bytes d1 = ?m"
    "error d1 = e" "pending d1 = r" "frames d1 = frames d + of_nat (length fs)"
    using drain_refines [of "feed d c" fs r e "[]"] Cons.prems p
    by (auto simp: frame_simps feed_inv)
  show ?case
  proof (cases e)
    case True
    then show ?thesis
      using d1 parse_all_append [OF p, of "concat cs"]
      by (simp add: agrees_def read_chunks_error)
  next
    case False
    have idle: "parse_all ?m r = ([], r, False)"
      using parse_all_append [OF p, of "[]"] p False by (auto split: prod.splits)
    have "agrees d1 (parse_all ?m (r @ concat cs)) (read_chunks d1 cs)"
      using Cons.IH [of d1] d1 False idle by simp
    then show ?thesis
      using d1 False parse_all_append [OF p, of "concat cs"]
      by (auto simp: agrees_def split: prod.splits)
  qed
qed

text \<open>
  C14: What a reader gets does not depend on how the byte stream was cut into reads. For any bytes,
  well-formed or not, feeding the chunks one by one and draining after each gives the same
  frames, the same frame count and the same error flag as feeding everything at once, and,
  without an error, leaves the same unconsumed bytes.
\<close>

theorem read_chunks_independent:
  assumes "decoder_inv d" and "cs \<noteq> []"
  shows "fst (read_chunks d cs) = fst (drain (feed d (concat cs)) []) \<and>
         error (snd (read_chunks d cs)) = error (snd (drain (feed d (concat cs)) [])) \<and>
         frames (snd (read_chunks d cs)) = frames (snd (drain (feed d (concat cs)) [])) \<and>
         (\<not> error (snd (read_chunks d cs)) \<longrightarrow>
            pending (snd (read_chunks d cs)) = pending (snd (drain (feed d (concat cs)) [])))"
proof (cases "error d")
  case True
  then show ?thesis by (simp add: read_chunks_error feed_def drain_error)
next
  case False
  have "read_chunks d [concat cs] = drain (feed d (concat cs)) []"
    by (simp split: prod.splits)
  moreover have "agrees d (parse_all (max_frame_bytes d) (pending d @ concat cs)) (read_chunks d cs)"
    and "agrees d (parse_all (max_frame_bytes d) (pending d @ concat cs)) (read_chunks d [concat cs])"
    using read_chunks_refines [of d cs] read_chunks_refines [of d "[concat cs]"] assms False
    by simp_all
  ultimately show ?thesis by (auto simp: agrees_def split: prod.splits)
qed

theorem read_chunks_independent_witness:
  "fst (read_chunks (new_decoder 4) [[0x46], [0x52, 0x4D, 0x31, 0, 0, 0, 0]]) =
   fst (drain (feed (new_decoder 4) [0x46, 0x52, 0x4D, 0x31, 0, 0, 0, 0]) [])"
  using read_chunks_independent [of "new_decoder 4" "[[0x46], [0x52, 0x4D, 0x31, 0, 0, 0, 0]]"]
  by (simp add: decoder_inv_def new_decoder_def)

section \<open>Decoding inverts encoding\<close>

lemma encode_frame_into_image:
  "encode_frame_into payload out =
     out @ le_bytes 4 kFrameMagic @ le_bytes 4 (of_nat (length payload) :: u32) @ payload"
proof -
  let ?n = "length payload"
  have "out @ replicate (8 + ?n) 0 = out @ replicate 4 0 @ replicate 4 0 @ replicate ?n 0"
    by (metis add.assoc append_assoc numeral_Bit0 replicate_add)
  then have "put_loop 4 (put_loop 4 (out @ replicate (8 + ?n) 0) (length out) kFrameMagic)
               (length out + 4) (of_nat ?n :: u32) =
             (out @ le_bytes 4 kFrameMagic) @ le_bytes 4 (of_nat ?n :: u32) @ replicate ?n 0"
    using put_loop_slice [of "out @ le_bytes 4 kFrameMagic" "length out + 4" "replicate 4 0" 4]
    by (simp add: put_loop_slice)
  then show ?thesis
    by (auto simp: encode_frame_into_def Let_def kFramePrefixSize_def memcpy_def)
qed

lemma parse_encoded:
  assumes "length payload < 2 ^ 32" and "length payload \<le> m"
  shows "parse_frame m (encode_frame payload @ rest) = Frame payload rest"
proof -
  have "unat (of_nat (length payload) :: u32) = length payload"
    using assms(1) by (simp add: unat_of_nat)
  then show ?thesis
    using assms(2)
    by (simp add: parse_frame_def encode_frame_def encode_frame_into_image le32.dec_enc Let_def)
qed

definition encode_stream :: "bytes list \<Rightarrow> bytes" where
  "encode_stream ps = foldl (\<lambda>out p. encode_frame_into p out) [] ps"

lemma foldl_encode: "foldl (\<lambda>out p. encode_frame_into p out) acc ps = acc @ concat (map encode_frame ps)"
  by (induction ps arbitrary: acc) (simp_all add: encode_frame_def encode_frame_into_image)

lemma parse_all_encoded:
  "\<forall>p\<in>set ps. length p < 2 ^ 32 \<and> length p \<le> m \<Longrightarrow>
     parse_all m (concat (map encode_frame ps)) = (ps, [], False)"
proof (induction ps)
  case Nil
  then show ?case by (simp add: parse_all.simps [of m "[]"] parse_frame_def)
next
  case (Cons p ps)
  then show ?case
    by (simp add: parse_all.simps [of m "encode_frame p @ _"] parse_encoded)
qed

text \<open>
  C13: Any sequence of payloads that fit the decoder's limit and the 32-bit length field, encoded
  one after the other and delivered in any chunks, is decoded to exactly that sequence: no
  frame is lost, merged, split or reordered, no error is raised, nothing stays buffered, and
  the frame counter counts them.
\<close>

theorem framing_roundtrip:
  assumes "\<forall>p\<in>set ps. length p < 2 ^ 32 \<and> length p \<le> m"
    and "concat cs = encode_stream ps"
  shows "\<exists>d. read_chunks (new_decoder m) cs = (ps, d) \<and> \<not> error d \<and> pending d = [] \<and>
             frames_decoded d = of_nat (length ps)"
proof -
  have "parse_all m [] = ([], [], False)" by (simp add: parse_all.simps [of m "[]"] parse_frame_def)
  then have "agrees (new_decoder m) (parse_all m (concat cs)) (read_chunks (new_decoder m) cs)"
    using read_chunks_refines [of "new_decoder m" cs]
    by (simp add: new_decoder_def decoder_inv_def pending_def)
  then show ?thesis
    using assms parse_all_encoded [of ps m]
    by (auto simp: encode_stream_def foldl_encode agrees_def frames_decoded_def new_decoder_def
        split: prod.splits)
qed

theorem framing_roundtrip_witness:
  "\<exists>d. read_chunks (new_decoder 4) (map (\<lambda>b. [b]) (encode_stream [[1, 2, 3], [], [9]])) =
         ([[1, 2, 3], [], [9]], d) \<and> \<not> error d \<and> pending d = [] \<and>
       frames_decoded d = of_nat (length [[1, 2, 3], [], [9 :: u8]])"
  by (rule framing_roundtrip) simp_all

text \<open>
  C30: A length prefix never makes the decoder hand out more than its limit: every frame it returns
  has at most \<open>max_frame_bytes\<close> bytes, and a prefix that announces more, or a wrong magic, ends in
  the error state with the output untouched and no byte consumed; the error state is left
  only by \<open>reset\<close>.
\<close>

theorem next_frame_limit:
  assumes "decoder_inv d" and "next_frame d out = (ok, out', d')"
  shows "(ok \<longrightarrow> length out' \<le> max_frame_bytes d) \<and> (\<not> ok \<longrightarrow> out' = out \<and> pending d' = pending d) \<and>
         (error d' \<longleftrightarrow> error d \<or> parse_frame (max_frame_bytes d) (pending d) = Desync) \<and>
         (error d' \<longrightarrow> next_frame d' u = (False, u, d') \<and> feed d' bs = d' \<and> \<not> error (reset d'))"
proof (cases "error d")
  case True
  then show ?thesis using assms by (auto simp: next_frame_def feed_def reset_def)
next
  case False
  show ?thesis
    using next_frame_refines [OF assms(1) False assms(2)] False
    by (auto split: parse_result.splits dest: parse_frame_Frame simp: next_frame_error feed_def reset_def)
qed

theorem next_frame_limit_witness:
  "error (snd (snd (next_frame (feed (new_decoder 4) (encode_frame (replicate 10 0))) [])))"
proof -
  let ?d = "feed (new_decoder 4) (encode_frame (replicate 10 0))"
  have inv: "decoder_inv ?d" by (simp add: feed_def new_decoder_def decoder_inv_def)
  have p: "parse_frame (max_frame_bytes ?d) (pending ?d) = Desync"
    by (simp add: feed_def new_decoder_def pending_def encode_frame_def encode_frame_into_image
        parse_frame_def le32.dec_enc Let_def)
  obtain ok out' d' where n: "next_frame ?d [] = (ok, out', d')" by (metis prod_cases3)
  show ?thesis using next_frame_limit [OF inv n] p n by simp
qed

text \<open>
  C34: The lazily compacted buffer stays proportional to what is unread: after every call of
  \<open>next_frame\<close> that does not end in the error state, the buffer holds less than twice the unread bytes
  or has no consumed prefix, and compaction never changes the unread bytes.
\<close>

theorem next_frame_compacted:
  assumes "decoder_inv d" and "next_frame d out = (ok, out', d')" and "\<not> error d'"
  shows "decoder_inv d' \<and> (head d' = 0 \<or> length (buffer d') < 2 * buffered d') \<and>
         pending (compact d) = pending d"
proof -
  have ne: "\<not> error d" using assms by (auto simp: next_frame_def)
  have inv: "decoder_inv d'" using next_frame_refines [OF assms(1) ne assms(2)] by simp
  obtain c where c: "d' = compact c" "decoder_inv c"
  proof (cases "parse_frame (max_frame_bytes d) (pending d)")
    case NeedMore
    then show ?thesis using that [of d] assms next_frame_cases [OF assms(1) ne, of out] by simp
  next
    case Desync
    then show ?thesis using assms next_frame_cases [OF assms(1) ne, of out] by auto
  next
    case (Frame f rest)
    then show ?thesis
      using that assms next_frame_cases [OF assms(1) ne, of out] parse_frame_Frame [OF Frame]
      by (auto simp: decoder_inv_def pending_def)
  qed
  then show ?thesis
    using compact_halved [OF c(2)] inv by (auto simp: buffered_def compact_fields decoder_inv_def)
qed

theorem next_frame_compacted_witness:
  "decoder_inv (snd (snd (next_frame (new_decoder 4) [])))"
  using next_frame_compacted [of "new_decoder 4" "[]" False "[]" "new_decoder 4"]
  by (simp add: new_decoder_def decoder_inv_def next_frame_def kFramePrefixSize_def compact_def)

text \<open>
  The encoder stores the payload length modulo \<open>2^32\<close>. A payload of exactly \<open>2^32\<close> bytes is
  written with length 0, so the peer decodes an empty frame instead of the payload.
\<close>

theorem encode_frame_truncates:
  assumes "length payload = 2 ^ 32"
  shows "parse_frame m (encode_frame payload) = Frame [] payload"
proof -
  have "(of_nat (length payload) :: u32) = 0" using assms by simp
  then show ?thesis
    by (simp add: parse_frame_def encode_frame_def encode_frame_into_image le32.dec_enc Let_def)
qed

theorem encode_frame_truncates_witness:
  "parse_frame default_max_frame_bytes (encode_frame (replicate (2 ^ 32) 0)) =
     Frame [] (replicate (2 ^ 32) 0)"
  by (rule encode_frame_truncates) (rule length_replicate)

end
