(* ===== verification/Fifo_Spec.thy ===== *)
theory Fifo_Spec
  imports Prelude
begin

text \<open>
  The interface the two queues of \<^verbatim>\<open>code/include/rdb/concurrency\<close> share when they are used
  without blocking: an insertion that may refuse, a removal that may find nothing, and the list
  of elements in between. The client of the interface is a run of such operations; what it puts
  in, what it takes out and what is left fit together in first-in first-out order.

  \<open>bounded_fifo\<close> adds when an insertion is accepted, which determines every result of a run, so
  that two providers of it answer alike (\<open>fifo_pair\<close>).
\<close>

datatype 'a op = Push 'a | Pop

datatype 'a answer = Pushed bool | Popped "'a option"

fun run_ops ::
  "('a \<Rightarrow> 'q \<Rightarrow> 'q \<times> bool) \<Rightarrow> ('q \<Rightarrow> 'q \<times> 'a option) \<Rightarrow> 'q \<Rightarrow> 'a op list \<Rightarrow> 'q \<times> 'a answer list"
where
  "run_ops enq deq q [] = (q, [])"
| "run_ops enq deq q (Push x # os) =
     (let (q1, b) = enq x q; (q2, rs) = run_ops enq deq q1 os in (q2, Pushed b # rs))"
| "run_ops enq deq q (Pop # os) =
     (let (q1, y) = deq q; (q2, rs) = run_ops enq deq q1 os in (q2, Popped y # rs))"

text \<open>The elements a run got accepted, and those it got back, in order.\<close>

fun put_in :: "'a op list \<Rightarrow> 'a answer list \<Rightarrow> 'a list" where
  "put_in (Push x # os) (Pushed True # rs) = x # put_in os rs"
| "put_in (_ # os) (_ # rs) = put_in os rs"
| "put_in _ _ = []"

fun taken_out :: "'a answer list \<Rightarrow> 'a list" where
  "taken_out (Popped (Some x) # rs) = x # taken_out rs"
| "taken_out (_ # rs) = taken_out rs"
| "taken_out [] = []"

locale fifo =
  fixes enq :: "'a \<Rightarrow> 'q \<Rightarrow> 'q \<times> bool"
    and deq :: "'q \<Rightarrow> 'q \<times> 'a option"
    and contents :: "'q \<Rightarrow> 'a list"
    and ok :: "'q \<Rightarrow> bool"
  assumes enq_ok: "ok q \<Longrightarrow> ok (fst (enq x q))"
    and deq_ok: "ok q \<Longrightarrow> ok (fst (deq q))"
    and enq_contents:
      "ok q \<Longrightarrow> contents (fst (enq x q)) = contents q @ (if snd (enq x q) then [x] else [])"
    and deq_contents:
      "ok q \<Longrightarrow> contents q = (case snd (deq q) of None \<Rightarrow> [] | Some y \<Rightarrow> [y]) @ contents (fst (deq q))"
    and deq_empty: "ok q \<Longrightarrow> snd (deq q) = None \<longleftrightarrow> contents q = []"
begin

lemma run_ok: "ok q \<Longrightarrow> ok (fst (run_ops enq deq q os))"
proof (induction os arbitrary: q)
  case (Cons x os)
  then show ?case
    using enq_ok [of q] deq_ok [of q] by (cases x) (simp_all add: case_prod_unfold Let_def)
qed simp

lemma run_fifo:
  "ok q \<Longrightarrow> run_ops enq deq q os = (q', rs) \<Longrightarrow> contents q @ put_in os rs = taken_out rs @ contents q'"
proof (induction os arbitrary: q rs)
  case Nil
  then show ?case by simp
next
  case (Cons x os)
  show ?case
  proof (cases x)
    case (Push v)
    obtain q1 b where e: "enq v q = (q1, b)" by fastforce
    with Push Cons.prems obtain rs' where r: "run_ops enq deq q1 os = (q', rs')" "rs = Pushed b # rs'"
      by (auto split: prod.splits)
    have "contents q1 @ put_in os rs' = taken_out rs' @ contents q'"
      using Cons.IH [of q1 rs'] enq_ok [of q v] Cons.prems(1) e r by simp
    then show ?thesis using enq_contents [of q v] Cons.prems(1) e r Push by (cases b) auto
  next
    case Pop
    obtain q1 y where e: "deq q = (q1, y)" by fastforce
    with Pop Cons.prems obtain rs' where r: "run_ops enq deq q1 os = (q', rs')" "rs = Popped y # rs'"
      by (auto split: prod.splits)
    have "contents q1 @ put_in os rs' = taken_out rs' @ contents q'"
      using Cons.IH [of q1 rs'] deq_ok [of q] Cons.prems(1) e r by simp
    then show ?thesis using deq_contents [of q] Cons.prems(1) e r Pop by (cases y) auto
  qed
qed

end

locale bounded_fifo = fifo +
  fixes limit :: "'b \<Rightarrow> nat"
  assumes enq_accepts: "ok q \<Longrightarrow> snd (enq x q) \<longleftrightarrow> length (contents q) < limit q"
    and limit_enq: "ok q \<Longrightarrow> limit (fst (enq x q)) = limit q"
    and limit_deq: "ok q \<Longrightarrow> limit (fst (deq q)) = limit q"

locale fifo_pair =
  a: bounded_fifo enq1 deq1 contents1 ok1 limit1 +
  b: bounded_fifo enq2 deq2 contents2 ok2 limit2
  for enq1 :: "'a \<Rightarrow> 'p \<Rightarrow> 'p \<times> bool" and deq1 contents1 ok1 limit1
  and enq2 :: "'a \<Rightarrow> 'q \<Rightarrow> 'q \<times> bool" and deq2 contents2 ok2 limit2
begin

definition alike :: "'p \<Rightarrow> 'q \<Rightarrow> bool" where
  "alike p q \<longleftrightarrow> ok1 p \<and> ok2 q \<and> contents1 p = contents2 q \<and> limit1 p = limit2 q"

lemma alike_enq:
  assumes "alike p q"
  shows "snd (enq1 x p) = snd (enq2 x q)" and "alike (fst (enq1 x p)) (fst (enq2 x q))"
  using assms
  by (auto simp: alike_def a.enq_accepts b.enq_accepts a.enq_ok b.enq_ok a.enq_contents
      b.enq_contents a.limit_enq b.limit_enq)

lemma alike_deq:
  assumes "alike p q"
  shows "snd (deq1 p) = snd (deq2 q)" and "alike (fst (deq1 p)) (fst (deq2 q))"
proof -
  note al = assms [unfolded alike_def]
  have "(case snd (deq1 p) of None \<Rightarrow> [] | Some y \<Rightarrow> [y]) @ contents1 (fst (deq1 p)) =
        (case snd (deq2 q) of None \<Rightarrow> [] | Some y \<Rightarrow> [y]) @ contents2 (fst (deq2 q))"
    using a.deq_contents [of p] b.deq_contents [of q] al by simp
  moreover have "snd (deq1 p) = None \<longleftrightarrow> snd (deq2 q) = None"
    using a.deq_empty b.deq_empty al by simp
  ultimately have "snd (deq1 p) = snd (deq2 q)" "contents1 (fst (deq1 p)) = contents2 (fst (deq2 q))"
    by (auto split: option.splits)
  then show "snd (deq1 p) = snd (deq2 q)" and "alike (fst (deq1 p)) (fst (deq2 q))"
    using al by (auto simp: alike_def a.deq_ok b.deq_ok a.limit_deq b.limit_deq)
qed

lemma alike_run:
  "alike p q \<Longrightarrow> snd (run_ops enq1 deq1 p os) = snd (run_ops enq2 deq2 q os)"
proof (induction os arbitrary: p q)
  case (Cons x os)
  then show ?case
  proof (cases x)
    case (Push v)
    then show ?thesis using Cons.IH [OF alike_enq(2) [OF Cons.prems]] alike_enq(1) [OF Cons.prems]
      by (simp add: case_prod_unfold Let_def)
  next
    case Pop
    then show ?thesis using Cons.IH [OF alike_deq(2) [OF Cons.prems]] alike_deq(1) [OF Cons.prems]
      by (simp add: case_prod_unfold Let_def)
  qed
qed simp

end

end
