(* ===== verification/Bounded_Queue.thy ===== *)
theory Bounded_Queue
  imports Fifo_Spec
begin

text \<open>
  \<^verbatim>\<open>code/include/rdb/concurrency/bounded_queue.h\<close>. A call runs under the mutex except while it
  waits on a condition variable, so each operation is given as its atomic sections: from the
  call to the return or to the wait (\<open>push_until\<close>, \<open>pop_until\<close>), and from a wake-up to the
  return or back to the wait (\<open>push_wake\<close>, \<open>pop_wake\<close>). A section returns the new queue, what the
  caller sees (\<open>Return\<close> or \<open>Waiting\<close>), and the notifications it sends while it holds the lock.
  How the sections of several threads interleave is the subject of \<open>Queue_Machine\<close>.

  A time point is a signed 64-bit count of nanoseconds; its largest value means wait for ever
  and its smallest means do not wait.
\<close>

section \<open>Data\<close>

datatype OverflowPolicy = Block | DropNewest | DropOldest

datatype PushStatus = Ok | Full | DroppedNewest | DroppedOldest | Closed

record 'a BoundedQueue =
  items :: "'a list"
  capacity :: nat
  policy :: OverflowPolicy
  closed :: bool
  dropped :: u64
  high_water :: nat

datatype condvar = NotEmpty | NotFull

datatype signal = NotifyOne condvar | NotifyAll condvar

datatype 'r outcome = Return 'r | Waiting

definition tp_max :: nanos where "tp_max = 2 ^ 63 - 1"
definition tp_min :: nanos where "tp_min = - (2 ^ 63)"

definition new_queue :: "nat \<Rightarrow> OverflowPolicy \<Rightarrow> 'a BoundedQueue" where
  "new_queue cap pol =
     \<lparr>items = [], capacity = (if cap = 0 then 1 else cap), policy = pol,
      closed = False, dropped = 0, high_water = 0\<rparr>"

section \<open>Pushing\<close>

text \<open>The predicate \<^verbatim>\<open>ready\<close> of \<^verbatim>\<open>wait_for_space\<close>, and the tail of \<^verbatim>\<open>push_until\<close>.\<close>

definition space_ready :: "'a BoundedQueue \<Rightarrow> bool" where
  "space_ready q \<longleftrightarrow> closed q \<or> length (items q) < capacity q"

definition push_back :: "'a BoundedQueue \<Rightarrow> 'a \<Rightarrow> 'a BoundedQueue" where
  "push_back q v =
     (let q = q\<lparr>items := items q @ [v]\<rparr> in
      if length (items q) > high_water q then q\<lparr>high_water := length (items q)\<rparr> else q)"

text \<open>
  \<^verbatim>\<open>wait_for_space\<close> up to its first wait: \<open>Return b\<close> if it returns \<open>b\<close> at once, \<open>Waiting\<close> if the
  thread blocks. \<^verbatim>\<open>wait\<close> and \<^verbatim>\<open>wait_until\<close> test their predicate before they block.
\<close>

definition wait_for_space :: "'a BoundedQueue \<Rightarrow> nanos \<Rightarrow> bool outcome" where
  "wait_for_space q deadline =
     (if deadline = tp_max then (if space_ready q then Return True else Waiting)
      else if deadline = tp_min then Return False
      else (if space_ready q then Return True else Waiting))"

definition push_after_wait :: "'a BoundedQueue \<Rightarrow> 'a \<Rightarrow>
    'a BoundedQueue \<times> PushStatus outcome \<times> signal list" where
  "push_after_wait q v =
     (if closed q then (q, Return Closed, [])
      else (push_back q v, Return Ok, [NotifyOne NotEmpty]))"

text \<open>The first component \<open>evicted\<close> is the element the queue gave up, destroyed after unlocking.\<close>

definition push_until :: "'a BoundedQueue \<Rightarrow> 'a \<Rightarrow> nanos \<Rightarrow>
    'a option \<times> 'a BoundedQueue \<times> PushStatus outcome \<times> signal list" where
  "push_until q v deadline =
     (if closed q then (None, q, Return Closed, [])
      else if length (items q) \<ge> capacity q then
        (case policy q of
           DropNewest \<Rightarrow> (None, q\<lparr>dropped := dropped q + 1\<rparr>, Return DroppedNewest, [])
         | DropOldest \<Rightarrow>
             (Some (hd (items q)),
              q\<lparr>items := tl (items q) @ [v], dropped := dropped q + 1\<rparr>,
              Return DroppedOldest, [NotifyOne NotEmpty])
         | Block \<Rightarrow>
             (case wait_for_space q deadline of
                Waiting \<Rightarrow> (None, q, Waiting, [])
              | Return False \<Rightarrow> (None, q, Return Full, [])
              | Return True \<Rightarrow> (None, push_after_wait q v)))
      else (None, push_back q v, Return Ok, [NotifyOne NotEmpty]))"

text \<open>
  After a wake-up the wait tests the predicate again: true ends the wait, false blocks again
  unless the deadline has passed (\<open>timed_out\<close>), in which case \<^verbatim>\<open>wait_until\<close> returns false.
\<close>

definition push_wake :: "'a BoundedQueue \<Rightarrow> 'a \<Rightarrow> bool \<Rightarrow>
    'a BoundedQueue \<times> PushStatus outcome \<times> signal list" where
  "push_wake q v timed_out =
     (if space_ready q then push_after_wait q v
      else if timed_out then (q, Return Full, [])
      else (q, Waiting, []))"

definition push :: "'a BoundedQueue \<Rightarrow> 'a \<Rightarrow>
    'a option \<times> 'a BoundedQueue \<times> PushStatus outcome \<times> signal list" where
  "push q v = push_until q v tp_max"

definition push_for :: "'a BoundedQueue \<Rightarrow> 'a \<Rightarrow> nanos \<Rightarrow> nanos \<Rightarrow>
    'a option \<times> 'a BoundedQueue \<times> PushStatus outcome \<times> signal list" where
  "push_for q v now timeout = push_until q v (now + timeout)"

definition try_push :: "'a BoundedQueue \<Rightarrow> 'a \<Rightarrow>
    'a option \<times> 'a BoundedQueue \<times> PushStatus outcome \<times> signal list" where
  "try_push q v = push_until q v tp_min"

section \<open>Popping\<close>

definition item_ready :: "'a BoundedQueue \<Rightarrow> bool" where
  "item_ready q \<longleftrightarrow> closed q \<or> items q \<noteq> []"

definition pop_front :: "'a BoundedQueue \<Rightarrow> 'a BoundedQueue \<times> 'a option outcome \<times> signal list" where
  "pop_front q =
     (case items q of
        [] \<Rightarrow> (q, Return None, [])
      | v # vs \<Rightarrow> (q\<lparr>items := vs\<rparr>, Return (Some v), [NotifyOne NotFull]))"

definition pop_until :: "'a BoundedQueue \<Rightarrow> nanos \<Rightarrow>
    'a BoundedQueue \<times> 'a option outcome \<times> signal list" where
  "pop_until q deadline =
     (if items q = [] \<and> \<not> closed q then
        (if deadline = tp_max then (q, Waiting, [])
         else if deadline = tp_min then (q, Return None, [])
         else (q, Waiting, []))
      else pop_front q)"

definition pop_wake :: "'a BoundedQueue \<Rightarrow> bool \<Rightarrow>
    'a BoundedQueue \<times> 'a option outcome \<times> signal list" where
  "pop_wake q timed_out =
     (if item_ready q then pop_front q
      else if timed_out then (q, Return None, [])
      else (q, Waiting, []))"

definition pop :: "'a BoundedQueue \<Rightarrow> 'a BoundedQueue \<times> 'a option outcome \<times> signal list" where
  "pop q = pop_until q tp_max"

definition pop_for :: "'a BoundedQueue \<Rightarrow> nanos \<Rightarrow> nanos \<Rightarrow>
    'a BoundedQueue \<times> 'a option outcome \<times> signal list" where
  "pop_for q now timeout = pop_until q (now + timeout)"

definition try_pop :: "'a BoundedQueue \<Rightarrow> 'a BoundedQueue \<times> 'a option outcome \<times> signal list" where
  "try_pop q = pop_until q tp_min"

section \<open>Closing, clearing, observing\<close>

text \<open>
  \<^verbatim>\<open>close\<close> sets the flag under the lock and notifies after releasing it, first the consumers and
  then the producers; \<^verbatim>\<open>clear\<close> swaps the items out and notifies under the lock.
\<close>

definition close_locked :: "'a BoundedQueue \<Rightarrow> 'a BoundedQueue" where
  "close_locked q = q\<lparr>closed := True\<rparr>"

definition close_signals :: "signal list" where
  "close_signals = [NotifyAll NotEmpty, NotifyAll NotFull]"

definition clear :: "'a BoundedQueue \<Rightarrow> 'a list \<times> 'a BoundedQueue \<times> signal list" where
  "clear q = (items q, q\<lparr>items := []\<rparr>, [NotifyAll NotFull])"

definition queue_size :: "'a BoundedQueue \<Rightarrow> nat" where
  "queue_size q = length (items q)"

definition queue_empty :: "'a BoundedQueue \<Rightarrow> bool" where
  "queue_empty q \<longleftrightarrow> queue_size q = 0"

section \<open>Invariant\<close>

definition queue_inv :: "'a BoundedQueue \<Rightarrow> bool" where
  "queue_inv q \<longleftrightarrow>
     0 < capacity q \<and> length (items q) \<le> capacity q \<and>
     length (items q) \<le> high_water q \<and> high_water q \<le> capacity q"

lemma new_queue_inv [inv_intros]: "queue_inv (new_queue cap pol)"
  by (simp add: new_queue_def queue_inv_def)

lemma new_queue_fields [simp]:
  "items (new_queue cap pol) = []" "policy (new_queue cap pol) = pol" "closed (new_queue cap pol) = False"
  "capacity (new_queue cap pol) = (if cap = 0 then 1 else cap)" "dropped (new_queue cap pol) = 0"
  by (simp_all add: new_queue_def)

lemma push_back_fields [simp]:
  "items (push_back q v) = items q @ [v]" "capacity (push_back q v) = capacity q"
  "policy (push_back q v) = policy q" "closed (push_back q v) = closed q"
  "dropped (push_back q v) = dropped q"
  by (simp_all add: push_back_def Let_def)

lemma push_back_inv [inv_intros]:
  "queue_inv q \<Longrightarrow> length (items q) < capacity q \<Longrightarrow> queue_inv (push_back q v)"
  by (auto simp: push_back_def queue_inv_def Let_def)

text \<open>
  What a section that ends a push or a pop does to the queue, branch by branch. The next lemma
  is the case rule the state machine and the clients use.
\<close>

lemma push_until_cases [consumes 1, case_names Closed Newest Oldest Full Wait Ok]:
  assumes "push_until q v dl = (ev, q', oc, sg)"
  obtains
    (Closed) "closed q" "ev = None" "q' = q" "oc = Return Closed" "sg = []"
  | (Newest) "\<not> closed q" "capacity q \<le> length (items q)" "policy q = DropNewest" "ev = None"
      "q' = q\<lparr>dropped := dropped q + 1\<rparr>" "oc = Return DroppedNewest" "sg = []"
  | (Oldest) "\<not> closed q" "capacity q \<le> length (items q)" "policy q = DropOldest"
      "ev = Some (hd (items q))"
      "q' = q\<lparr>items := tl (items q) @ [v], dropped := dropped q + 1\<rparr>"
      "oc = Return DroppedOldest" "sg = [NotifyOne NotEmpty]"
  | (Full) "\<not> closed q" "capacity q \<le> length (items q)" "policy q = Block" "dl = tp_min"
      "ev = None" "q' = q" "oc = Return Full" "sg = []"
  | (Wait) "\<not> closed q" "capacity q \<le> length (items q)" "policy q = Block" "dl \<noteq> tp_min"
      "ev = None" "q' = q" "oc = Waiting" "sg = []"
  | (Ok) "\<not> closed q" "length (items q) < capacity q" "ev = None" "q' = push_back q v"
      "oc = Return Ok" "sg = [NotifyOne NotEmpty]"
  using assms
  by (auto simp: push_until_def wait_for_space_def space_ready_def tp_max_def tp_min_def
      split: if_splits OverflowPolicy.splits)

lemma push_wake_cases [consumes 1, case_names Closed Full Wait Ok]:
  assumes "push_wake q v to = (q', oc, sg)"
  obtains
    (Closed) "closed q" "q' = q" "oc = Return Closed" "sg = []"
  | (Full) "\<not> closed q" "capacity q \<le> length (items q)" "to" "q' = q" "oc = Return Full" "sg = []"
  | (Wait) "\<not> closed q" "capacity q \<le> length (items q)" "\<not> to" "q' = q" "oc = Waiting" "sg = []"
  | (Ok) "\<not> closed q" "length (items q) < capacity q" "q' = push_back q v"
      "oc = Return Ok" "sg = [NotifyOne NotEmpty]"
  using assms
  by (auto simp: push_wake_def push_after_wait_def space_ready_def split: if_splits)

lemma pop_front_cases [consumes 1, case_names None Some]:
  assumes "pop_front q = (q', oc, sg)"
  obtains
    (None) "items q = []" "q' = q" "oc = Return None" "sg = []"
  | (Some) v vs where "items q = v # vs" "q' = q\<lparr>items := vs\<rparr>" "oc = Return (Some v)"
      "sg = [NotifyOne NotFull]"
  using assms by (auto simp: pop_front_def split: list.splits)

lemma pop_until_cases [consumes 1, case_names Wait None Some]:
  assumes "pop_until q dl = (q', oc, sg)"
  obtains
    (Wait) "items q = []" "\<not> closed q" "dl \<noteq> tp_min" "q' = q" "oc = Waiting" "sg = []"
  | (None) "items q = []" "closed q \<or> dl = tp_min" "q' = q" "oc = Return None" "sg = []"
  | (Some) v vs where "items q = v # vs" "q' = q\<lparr>items := vs\<rparr>" "oc = Return (Some v)"
      "sg = [NotifyOne NotFull]"
  using assms
  by (auto simp: pop_until_def tp_max_def tp_min_def split: if_splits elim: pop_front_cases)

lemma pop_wake_cases [consumes 1, case_names Wait None Some]:
  assumes "pop_wake q to = (q', oc, sg)"
  obtains
    (Wait) "items q = []" "\<not> closed q" "\<not> to" "q' = q" "oc = Waiting" "sg = []"
  | (None) "items q = []" "closed q \<or> to" "q' = q" "oc = Return None" "sg = []"
  | (Some) v vs where "items q = v # vs" "q' = q\<lparr>items := vs\<rparr>" "oc = Return (Some v)"
      "sg = [NotifyOne NotFull]"
  using assms
  by (auto simp: pop_wake_def item_ready_def split: if_splits elim: pop_front_cases)

lemma push_until_inv [inv_intros]:
  "queue_inv q \<Longrightarrow> push_until q v dl = (ev, q', oc, sg) \<Longrightarrow> queue_inv q'"
  by (erule push_until_cases) (auto simp: queue_inv_def intro: push_back_inv [unfolded queue_inv_def],
      (auto simp: push_back_def Let_def)?)

lemma push_wake_inv [inv_intros]:
  "queue_inv q \<Longrightarrow> push_wake q v to = (q', oc, sg) \<Longrightarrow> queue_inv q'"
  by (erule push_wake_cases) (auto intro: push_back_inv)

lemma pop_until_inv [inv_intros]:
  "queue_inv q \<Longrightarrow> pop_until q dl = (q', oc, sg) \<Longrightarrow> queue_inv q'"
  by (erule pop_until_cases) (auto simp: queue_inv_def)

lemma pop_wake_inv [inv_intros]:
  "queue_inv q \<Longrightarrow> pop_wake q to = (q', oc, sg) \<Longrightarrow> queue_inv q'"
  by (erule pop_wake_cases) (auto simp: queue_inv_def)

lemma close_locked_inv [inv_intros]: "queue_inv q \<Longrightarrow> queue_inv (close_locked q)"
  by (simp add: close_locked_def queue_inv_def)

lemma clear_inv [inv_intros]: "queue_inv q \<Longrightarrow> clear q = (xs, q', sg) \<Longrightarrow> queue_inv q'"
  by (auto simp: clear_def queue_inv_def)

section \<open>The queue as a first-in first-out channel\<close>

definition bq_enq :: "'a \<Rightarrow> 'a BoundedQueue \<Rightarrow> 'a BoundedQueue \<times> bool" where
  "bq_enq v q = (case try_push q v of (_, q', oc, _) \<Rightarrow> (q', oc = Return Ok))"

definition bq_deq :: "'a BoundedQueue \<Rightarrow> 'a BoundedQueue \<times> 'a option" where
  "bq_deq q = (case try_pop q of
     (q', Return y, _) \<Rightarrow> (q', y) | (q', Waiting, _) \<Rightarrow> (q', None))"

definition keeps_order :: "'a BoundedQueue \<Rightarrow> bool" where
  "keeps_order q \<longleftrightarrow> queue_inv q \<and> policy q \<noteq> DropOldest"

definition keeps_order_open :: "'a BoundedQueue \<Rightarrow> bool" where
  "keeps_order_open q \<longleftrightarrow> keeps_order q \<and> \<not> closed q"

lemma bq_enq_eq:
  assumes "keeps_order q"
  shows "bq_enq v q =
    (if \<not> closed q \<and> length (items q) < capacity q then (push_back q v, True)
     else if closed q \<or> policy q = Block then (q, False)
     else (q\<lparr>dropped := dropped q + 1\<rparr>, False))"
proof -
  obtain ev q' oc sg where p: "push_until q v tp_min = (ev, q', oc, sg)" by (metis prod_cases4)
  then show ?thesis
    using assms p by (cases rule: push_until_cases) (auto simp: bq_enq_def try_push_def keeps_order_def)
qed

lemma bq_deq_eq:
  "bq_deq q = (case items q of [] \<Rightarrow> (q, None) | v # vs \<Rightarrow> (q\<lparr>items := vs\<rparr>, Some v))"
proof -
  obtain q' oc sg where p: "pop_until q tp_min = (q', oc, sg)" by (metis prod_cases3)
  then show ?thesis using p by (cases rule: pop_until_cases) (auto simp: bq_deq_def try_pop_def)
qed

interpretation bq: fifo bq_enq bq_deq items keeps_order
proof
  fix q :: "'a BoundedQueue" and x
  assume k: "keeps_order q"
  show "keeps_order (fst (bq_enq x q))"
    using k by (auto simp: bq_enq_eq push_back_inv keeps_order_def) (auto simp: queue_inv_def)
  show "keeps_order (fst (bq_deq q))"
    using k by (auto simp: bq_deq_eq keeps_order_def queue_inv_def split: list.splits)
  show "items (fst (bq_enq x q)) = items q @ (if snd (bq_enq x q) then [x] else [])"
    using k by (simp add: bq_enq_eq)
  show "items q = (case snd (bq_deq q) of None \<Rightarrow> [] | Some y \<Rightarrow> [y]) @ items (fst (bq_deq q))"
    and "snd (bq_deq q) = None \<longleftrightarrow> items q = []"
    by (auto simp: bq_deq_eq split: list.splits)
qed

interpretation bqo: bounded_fifo bq_enq bq_deq items keeps_order_open capacity
proof
  fix q :: "'a BoundedQueue" and x
  assume k: "keeps_order_open q"
  then have k': "keeps_order q" by (simp add: keeps_order_open_def)
  show "keeps_order_open (fst (bq_enq x q))"
    using k bq.enq_ok [OF k'] by (auto simp: keeps_order_open_def bq_enq_eq)
  show "keeps_order_open (fst (bq_deq q))"
    using k bq.deq_ok [OF k'] by (auto simp: keeps_order_open_def bq_deq_eq split: list.splits)
  show "items (fst (bq_enq x q)) = items q @ (if snd (bq_enq x q) then [x] else [])"
    using k' by (rule bq.enq_contents)
  show "items q = (case snd (bq_deq q) of None \<Rightarrow> [] | Some y \<Rightarrow> [y]) @ items (fst (bq_deq q))"
    using k' by (rule bq.deq_contents)
  show "snd (bq_deq q) = None \<longleftrightarrow> items q = []" using k' by (rule bq.deq_empty)
  show "snd (bq_enq x q) \<longleftrightarrow> length (items q) < capacity q"
    and "capacity (fst (bq_enq x q)) = capacity q"
    using k k' by (auto simp: bq_enq_eq keeps_order_open_def)
  show "capacity (fst (bq_deq q)) = capacity q"
    by (simp add: bq_deq_eq split: list.splits)
qed

section \<open>Overflow policies\<close>

definition push_all :: "'a BoundedQueue \<Rightarrow> 'a list \<Rightarrow> 'a BoundedQueue" where
  "push_all q vs = foldl (\<lambda>q v. fst (snd (try_push q v))) q vs"

lemma try_push_queue:
  assumes "queue_inv q" and "\<not> closed q"
  shows "fst (snd (try_push q v)) =
    (if length (items q) < capacity q then push_back q v
     else case policy q of
        Block \<Rightarrow> q
      | DropNewest \<Rightarrow> q\<lparr>dropped := dropped q + 1\<rparr>
      | DropOldest \<Rightarrow> q\<lparr>items := tl (items q) @ [v], dropped := dropped q + 1\<rparr>)"
proof -
  obtain ev q' oc sg where p: "push_until q v tp_min = (ev, q', oc, sg)" by (metis prod_cases4)
  then show ?thesis using assms p by (cases rule: push_until_cases) (auto simp: try_push_def)
qed

lemma try_push_keeps:
  assumes "queue_inv q" and "\<not> closed q"
  shows "queue_inv (fst (snd (try_push q v)))" "\<not> closed (fst (snd (try_push q v)))"
    "policy (fst (snd (try_push q v))) = policy q" "capacity (fst (snd (try_push q v))) = capacity q"
proof -
  obtain ev q' oc sg where p: "push_until q v tp_min = (ev, q', oc, sg)" by (metis prod_cases4)
  show "queue_inv (fst (snd (try_push q v)))"
    using push_until_inv [OF assms(1) p] p by (simp add: try_push_def)
  show "\<not> closed (fst (snd (try_push q v)))"
    "policy (fst (snd (try_push q v))) = policy q" "capacity (fst (snd (try_push q v))) = capacity q"
    using assms by (auto simp: try_push_queue split: OverflowPolicy.splits)
qed

lemma drop_excess_snoc:
  assumes "length xs = c" and "0 < c"
  shows "drop (length (tl xs @ [v] @ vs) - c) (tl xs @ [v] @ vs) =
         drop (length (xs @ v # vs) - c) (xs @ v # vs)"
  using assms by (cases xs) (auto simp: Suc_diff_le)

lemma push_all_keeps:
  assumes "queue_inv q" and "\<not> closed q"
  shows "items (push_all q vs) =
      (if policy q = DropOldest
       then drop (length (items q @ vs) - capacity q) (items q @ vs)
       else take (capacity q) (items q @ vs)) \<and>
    dropped (push_all q vs) =
      (if policy q = Block then dropped q
       else dropped q + of_nat (length (items q @ vs) - capacity q))"
  using assms
proof (induction vs arbitrary: q)
  case Nil
  then show ?case by (simp add: push_all_def queue_inv_def)
next
  case (Cons v vs)
  let ?q = "fst (snd (try_push q v))"
  have all: "push_all q (v # vs) = push_all ?q vs" by (simp add: push_all_def)
  note IH = Cons.IH [OF try_push_keeps(1,2) [OF Cons.prems], of v]
  show ?case
  proof (cases "length (items q) < capacity q")
    case True
    then show ?thesis using Cons.prems IH unfolding all try_push_keeps(3,4) [OF Cons.prems]
      by (simp add: try_push_queue)
  next
    case False
    then have len: "length (items q) = capacity q" "0 < capacity q"
      using Cons.prems by (auto simp: queue_inv_def)
    show ?thesis
    proof (cases "policy q")
      case DropOldest
      have "length (tl (items q) @ [v] @ vs) = length (items q @ vs)"
        using len by simp
      then show ?thesis
        using Cons.prems IH False DropOldest len drop_excess_snoc [OF len, of v vs]
        unfolding all try_push_keeps(3,4) [OF Cons.prems]
        by (simp add: try_push_queue)
    qed (use Cons.prems IH False len in \<open>simp_all add: all try_push_keeps(3,4) try_push_queue\<close>)
  qed
qed

text \<open>
  C29: The three overflow policies on a burst of non-blocking pushes. \<open>DropOldest\<close> keeps exactly
  the newest \<open>capacity\<close> elements, \<open>DropNewest\<close> and \<open>Block\<close> keep exactly the oldest, always in
  order; the drop counter grows by the number of elements given up under the two dropping
  policies and stays as it is under \<open>Block\<close>, whose caller is told \<open>Full\<close> instead.
\<close>

theorem overflow_keeps:
  assumes "queue_inv q" and "\<not> closed q"
  shows "items (push_all q vs) =
      (if policy q = DropOldest
       then drop (length (items q @ vs) - capacity q) (items q @ vs)
       else take (capacity q) (items q @ vs)) \<and>
    dropped (push_all q vs) =
      (if policy q = Block then dropped q
       else dropped q + of_nat (length (items q @ vs) - capacity q))"
  using assms by (rule push_all_keeps)

theorem overflow_keeps_witness:
  "items (push_all (new_queue 2 DropOldest) [1, 2, 3 :: nat]) = [2, 3]"
  using overflow_keeps [of "new_queue 2 DropOldest" "[1, 2, 3 :: nat]"]
  by (simp add: new_queue_inv)

section \<open>Closing\<close>

primrec pops :: "'a BoundedQueue \<Rightarrow> nat \<Rightarrow> 'a option outcome list" where
  "pops q 0 = []"
| "pops q (Suc n) = (case pop q of (q', oc, _) \<Rightarrow> oc # pops q' n)"

lemma pop_closed:
  "closed q \<Longrightarrow> pop q = (case items q of
      [] \<Rightarrow> (q, Return None, [])
    | v # vs \<Rightarrow> (q\<lparr>items := vs\<rparr>, Return (Some v), [NotifyOne NotFull]))"
  by (simp add: pop_def pop_until_def pop_front_def)

lemma pops_closed_empty: "closed q \<Longrightarrow> items q = [] \<Longrightarrow> pops q k = replicate k (Return None)"
  by (induction k) (simp_all add: pop_closed)

text \<open>
  Graceful stop. Once the queue is closed, every push is refused with \<open>Closed\<close> and changes
  nothing, and blocking pops never block: they hand out the remaining elements in order and
  then report the end, for ever.
\<close>

theorem close_drains:
  "push_until (close_locked q) v dl = (None, close_locked q, Return Closed, []) \<and>
   pops (close_locked q) (length (items q) + k) =
     map (\<lambda>v. Return (Some v)) (items q) @ replicate k (Return None)"
proof -
  have "pops q (length vs + k) = map (\<lambda>v. Return (Some v)) vs @ replicate k (Return None)"
    if "closed q" "items q = vs" for q :: "'a BoundedQueue" and vs
    using that
  proof (induction vs arbitrary: q)
    case Nil
    then show ?case by (simp add: pops_closed_empty)
  next
    case (Cons v vs)
    then show ?case by (simp add: pop_closed)
  qed
  then show ?thesis by (simp add: close_locked_def push_until_def)
qed

end
