(* ===== verification/Queue_Machine.thy ===== *)
theory Queue_Machine
  imports Bounded_Queue "HOL-Library.Sublist"
begin

text \<open>
  Any number of threads on one \<^verbatim>\<open>BoundedQueue\<close>: the atomic sections of \<open>Bounded_Queue\<close>
  interleaved, with the wait sets of the two condition variables made explicit. A waiting thread
  is asleep until a notification, a spurious wake-up or its deadline; only then does it take the
  lock again and test its predicate. \<^verbatim>\<open>notify_one\<close> picks any sleeper of its condition variable,
  \<^verbatim>\<open>notify_all\<close> all of them.

  The state also records what happened: \<open>log\<close> the calls that returned, in the order in which they
  took effect, and \<open>removed\<close> the elements that left the queue, with the reason. Neither is read by
  a step. Two invariants are shown of every reachable state: the bookkeeping of elements
  (\<open>ledger\<close>), which gives first-in first-out order and conservation, and \<open>no_lost_wakeup\<close>, which
  says that the single notifications suffice.
\<close>

section \<open>State\<close>

datatype 'a pc =
    Idle
  | PushWait 'a nanos bool    \<comment> \<open>value, deadline, notified\<close>
  | PopWait nanos bool        \<comment> \<open>deadline, notified\<close>
  | Closing "signal list"     \<comment> \<open>notifications \<^verbatim>\<open>close\<close> has still to send\<close>

datatype 'a ret = RPush 'a PushStatus | RPop "'a option" | RClose | RClear

datatype reason = Taken | Evicted | Cleared

record 'a qsys =
  que :: "'a BoundedQueue"
  threads :: "'a pc list"
  clock :: nanos
  log :: "(nat \<times> 'a ret) list"
  removed :: "(reason \<times> 'a) list"

fun asleep_on :: "condvar \<Rightarrow> 'a pc \<Rightarrow> bool" where
  "asleep_on NotFull (PushWait _ _ b) = (\<not> b)"
| "asleep_on NotEmpty (PopWait _ b) = (\<not> b)"
| "asleep_on _ _ = False"

fun notified_on :: "condvar \<Rightarrow> 'a pc \<Rightarrow> bool" where
  "notified_on NotFull (PushWait _ _ b) = b"
| "notified_on NotEmpty (PopWait _ b) = b"
| "notified_on _ _ = False"

fun will_notify :: "condvar \<Rightarrow> 'a pc \<Rightarrow> bool" where
  "will_notify cv (Closing sg) = (NotifyAll cv \<in> set sg)"
| "will_notify _ _ = False"

fun awaken :: "'a pc \<Rightarrow> 'a pc" where
  "awaken (PushWait v dl _) = PushWait v dl True"
| "awaken (PopWait dl _) = PopWait dl True"
| "awaken p = p"

section \<open>Notifications\<close>

inductive notify :: "signal \<Rightarrow> 'a pc list \<Rightarrow> 'a pc list \<Rightarrow> bool" where
  notify_one: "i < length ts \<Longrightarrow> asleep_on cv (ts ! i) \<Longrightarrow>
     notify (NotifyOne cv) ts (ts[i := awaken (ts ! i)])"
| notify_nobody: "(\<forall>p\<in>set ts. \<not> asleep_on cv p) \<Longrightarrow> notify (NotifyOne cv) ts ts"
| notify_all: "notify (NotifyAll cv) ts (map (\<lambda>p. if asleep_on cv p then awaken p else p) ts)"

inductive notifies :: "signal list \<Rightarrow> 'a pc list \<Rightarrow> 'a pc list \<Rightarrow> bool" where
  notifies_nil: "notifies [] ts ts"
| notifies_cons: "notify s ts us \<Longrightarrow> notifies ss us vs \<Longrightarrow> notifies (s # ss) ts vs"

inductive_simps notifies_Nil [simp]: "notifies [] ts us"
inductive_simps notifies_Cons [simp]: "notifies (s # ss) ts us"
inductive_cases notify_OneE: "notify (NotifyOne cv) ts us"
inductive_cases notify_AllE: "notify (NotifyAll cv) ts us"

section \<open>Steps\<close>

definition after_push :: "nat \<Rightarrow> 'a \<Rightarrow> nanos \<Rightarrow> 'a option \<Rightarrow> 'a BoundedQueue \<Rightarrow> PushStatus outcome \<Rightarrow>
    'a qsys \<Rightarrow> 'a qsys" where
  "after_push t v dl ev q' oc s =
     s\<lparr>que := q',
       threads := (threads s)[t := (case oc of Return _ \<Rightarrow> Idle | Waiting \<Rightarrow> PushWait v dl False)],
       log := log s @ (case oc of Return r \<Rightarrow> [(t, RPush v r)] | Waiting \<Rightarrow> []),
       removed := removed s @ (case ev of None \<Rightarrow> [] | Some x \<Rightarrow> [(Evicted, x)])\<rparr>"

definition after_pop :: "nat \<Rightarrow> nanos \<Rightarrow> 'a BoundedQueue \<Rightarrow> 'a option outcome \<Rightarrow> 'a qsys \<Rightarrow> 'a qsys" where
  "after_pop t dl q' oc s =
     s\<lparr>que := q',
       threads := (threads s)[t := (case oc of Return _ \<Rightarrow> Idle | Waiting \<Rightarrow> PopWait dl False)],
       log := log s @ (case oc of Return r \<Rightarrow> [(t, RPop r)] | Waiting \<Rightarrow> []),
       removed := removed s @ (case oc of Return (Some x) \<Rightarrow> [(Taken, x)] | _ \<Rightarrow> [])\<rparr>"

text \<open>The deadline test of a timed wait: it never fires for a wait without one.\<close>

definition expired_at :: "nanos \<Rightarrow> nanos \<Rightarrow> bool" where
  "expired_at dl now \<longleftrightarrow> dl \<noteq> tp_max \<and> dl \<le> now"

inductive qstep :: "'a qsys \<Rightarrow> 'a qsys \<Rightarrow> bool" where
  push_call:
    "t < length (threads s) \<Longrightarrow> threads s ! t = Idle \<Longrightarrow>
     push_until (que s) v dl = (ev, q', oc, sg) \<Longrightarrow>
     s1 = after_push t v dl ev q' oc s \<Longrightarrow> notifies sg (threads s1) ts \<Longrightarrow>
     qstep s (s1\<lparr>threads := ts\<rparr>)"
| push_resume:
    "t < length (threads s) \<Longrightarrow> threads s ! t = PushWait v dl b \<Longrightarrow>
     (b \<and> \<not> to) \<or> (expired_at dl (clock s) \<and> to) \<Longrightarrow>
     push_wake (que s) v to = (q', oc, sg) \<Longrightarrow>
     s1 = after_push t v dl None q' oc s \<Longrightarrow> notifies sg (threads s1) ts \<Longrightarrow>
     qstep s (s1\<lparr>threads := ts\<rparr>)"
| pop_call:
    "t < length (threads s) \<Longrightarrow> threads s ! t = Idle \<Longrightarrow>
     pop_until (que s) dl = (q', oc, sg) \<Longrightarrow>
     s1 = after_pop t dl q' oc s \<Longrightarrow> notifies sg (threads s1) ts \<Longrightarrow>
     qstep s (s1\<lparr>threads := ts\<rparr>)"
| pop_resume:
    "t < length (threads s) \<Longrightarrow> threads s ! t = PopWait dl b \<Longrightarrow>
     (b \<and> \<not> to) \<or> (expired_at dl (clock s) \<and> to) \<Longrightarrow>
     pop_wake (que s) to = (q', oc, sg) \<Longrightarrow>
     s1 = after_pop t dl q' oc s \<Longrightarrow> notifies sg (threads s1) ts \<Longrightarrow>
     qstep s (s1\<lparr>threads := ts\<rparr>)"
| close_call:
    "t < length (threads s) \<Longrightarrow> threads s ! t = Idle \<Longrightarrow>
     qstep s (s\<lparr>que := close_locked (que s), threads := (threads s)[t := Closing close_signals]\<rparr>)"
| close_notify:
    "t < length (threads s) \<Longrightarrow> threads s ! t = Closing (g # gs) \<Longrightarrow>
     notify g ((threads s)[t := Closing gs]) ts \<Longrightarrow>
     qstep s (s\<lparr>threads := ts\<rparr>)"
| close_return:
    "t < length (threads s) \<Longrightarrow> threads s ! t = Closing [] \<Longrightarrow>
     qstep s (s\<lparr>threads := (threads s)[t := Idle], log := log s @ [(t, RClose)]\<rparr>)"
| clear_call:
    "t < length (threads s) \<Longrightarrow> threads s ! t = Idle \<Longrightarrow>
     clear (que s) = (xs, q', sg) \<Longrightarrow> notifies sg (threads s) ts \<Longrightarrow>
     qstep s (s\<lparr>que := q', threads := ts, log := log s @ [(t, RClear)],
                removed := removed s @ map (\<lambda>x. (Cleared, x)) xs\<rparr>)"
| spurious:
    "t < length (threads s) \<Longrightarrow>
     qstep s (s\<lparr>threads := (threads s)[t := awaken (threads s ! t)]\<rparr>)"
| tick:
    "clock s \<le> now \<Longrightarrow> qstep s (s\<lparr>clock := now\<rparr>)"

inductive qinit :: "'a qsys \<Rightarrow> bool" where
  "que s = new_queue cap pol \<Longrightarrow> set (threads s) \<subseteq> {Idle} \<Longrightarrow> log s = [] \<Longrightarrow> removed s = [] \<Longrightarrow>
   qinit s"

abbreviation qreach :: "'a qsys \<Rightarrow> bool" where
  "qreach \<equiv> reachable qinit qstep"

section \<open>The ledger\<close>

definition accepted :: "(nat \<times> 'a ret) list \<Rightarrow> 'a list" where
  "accepted l = concat (map (\<lambda>e. case snd e of
      RPush v Ok \<Rightarrow> [v] | RPush v DroppedOldest \<Rightarrow> [v] | _ \<Rightarrow> []) l)"

definition delivered :: "(nat \<times> 'a ret) list \<Rightarrow> 'a list" where
  "delivered l = concat (map (\<lambda>e. case snd e of RPop (Some v) \<Rightarrow> [v] | _ \<Rightarrow> []) l)"

definition refused_newest :: "(nat \<times> 'a ret) list \<Rightarrow> nat" where
  "refused_newest l = length (filter (\<lambda>e. case snd e of RPush _ DroppedNewest \<Rightarrow> True | _ \<Rightarrow> False) l)"

definition gone :: "reason \<Rightarrow> (reason \<times> 'a) list \<Rightarrow> 'a list" where
  "gone r rs = map snd (filter (\<lambda>p. fst p = r) rs)"

definition ledger :: "'a qsys \<Rightarrow> bool" where
  "ledger s \<longleftrightarrow>
     queue_inv (que s) \<and>
     accepted (log s) = map snd (removed s) @ items (que s) \<and>
     delivered (log s) = gone Taken (removed s) \<and>
     dropped (que s) = of_nat (length (gone Evicted (removed s)) + refused_newest (log s)) \<and>
     (gone Evicted (removed s) \<noteq> [] \<longrightarrow> policy (que s) = DropOldest) \<and>
     (refused_newest (log s) > 0 \<longrightarrow> policy (que s) = DropNewest)"

lemma log_simps [simp]:
  "accepted [] = []" "accepted (l @ l') = accepted l @ accepted l'"
  "delivered [] = []" "delivered (l @ l') = delivered l @ delivered l'"
  "refused_newest [] = 0" "refused_newest (l @ l') = refused_newest l + refused_newest l'"
  "gone r [] = []" "gone r (rs @ rs') = gone r rs @ gone r rs'"
  by (simp_all add: accepted_def delivered_def refused_newest_def gone_def)

lemma log_single [simp]:
  "accepted [(t, RPush v st)] = (if st = Ok \<or> st = DroppedOldest then [v] else [])"
  "accepted [(t, RPop y)] = []" "accepted [(t, RClose)] = []" "accepted [(t, RClear)] = []"
  "delivered [(t, RPush v st)] = []" "delivered [(t, RPop y)] = (case y of None \<Rightarrow> [] | Some x \<Rightarrow> [x])"
  "delivered [(t, RClose)] = []" "delivered [(t, RClear)] = []"
  "refused_newest [(t, RPush v st)] = (if st = DroppedNewest then 1 else 0)"
  "refused_newest [(t, RPop y)] = 0" "refused_newest [(t, RClose)] = 0" "refused_newest [(t, RClear)] = 0"
  by (auto simp: accepted_def delivered_def refused_newest_def split: PushStatus.splits option.splits)

lemma gone_single [simp]:
  "gone r [(r', x)] = (if r' = r then [x] else [])"
  "gone r (map (\<lambda>x. (r', x)) xs) = (if r' = r then xs else [])"
  by (auto simp: gone_def comp_def filter_map)

lemma qinit_ledger: "qinit s \<Longrightarrow> ledger s"
  by (erule qinit.cases) (auto simp: ledger_def new_queue_inv)

lemma ledger_push:
  assumes "ledger s" and "push_until (que s) v dl = (ev, q', oc, sg)"
  shows "ledger (after_push t v dl ev q' oc s)"
proof -
  have inv: "queue_inv (que s)" "queue_inv q'"
    using assms(1) push_until_inv [OF _ assms(2)] by (simp_all add: ledger_def)
  from assms(2) show ?thesis
  proof (cases rule: push_until_cases)
    case Oldest
    then have "items (que s) \<noteq> []" using inv by (auto simp: queue_inv_def)
    then show ?thesis using assms(1) Oldest inv by (auto simp: ledger_def after_push_def)
  qed (use assms(1) inv in \<open>auto simp: ledger_def after_push_def\<close>)
qed

lemma ledger_push_wake:
  assumes "ledger s" and "push_wake (que s) v to = (q', oc, sg)"
  shows "ledger (after_push t v dl None q' oc s)"
proof -
  have "queue_inv q'" using assms(1) push_wake_inv [OF _ assms(2)] by (simp add: ledger_def)
  with assms(2) show ?thesis
    by (cases rule: push_wake_cases) (use assms(1) in \<open>auto simp: ledger_def after_push_def\<close>)
qed

lemma ledger_pop:
  assumes "ledger s" and "pop_until (que s) dl = (q', oc, sg)"
  shows "ledger (after_pop t dl q' oc s)"
proof -
  have "queue_inv q'" using assms(1) pop_until_inv [OF _ assms(2)] by (simp add: ledger_def)
  with assms(2) show ?thesis
    by (cases rule: pop_until_cases) (use assms(1) in \<open>auto simp: ledger_def after_pop_def\<close>)
qed

lemma ledger_pop_wake:
  assumes "ledger s" and "pop_wake (que s) to = (q', oc, sg)"
  shows "ledger (after_pop t dl q' oc s)"
proof -
  have "queue_inv q'" using assms(1) pop_wake_inv [OF _ assms(2)] by (simp add: ledger_def)
  with assms(2) show ?thesis
    by (cases rule: pop_wake_cases) (use assms(1) in \<open>auto simp: ledger_def after_pop_def\<close>)
qed

lemma ledger_threads [simp]: "ledger (s\<lparr>threads := ts\<rparr>) = ledger s"
  by (simp add: ledger_def)

lemma qstep_ledger: "qstep s t \<Longrightarrow> ledger s \<Longrightarrow> ledger t"
proof (induction rule: qstep.induct)
  case (close_call t s)
  then show ?case by (auto simp: ledger_def close_locked_inv) (simp_all add: close_locked_def)
next
  case (clear_call t s xs q' sg ts)
  then show ?case by (auto simp: ledger_def clear_inv) (auto simp: clear_def comp_def)
next
  case (tick s now)
  then show ?case by (simp add: ledger_def)
next
  case (close_return t s)
  then show ?case by (simp add: ledger_def)
qed (auto intro: ledger_push ledger_push_wake ledger_pop ledger_pop_wake)

interpretation qm_ledger: inductive_invariant qinit qstep ledger
  by unfold_locales (auto intro: qinit_ledger qstep_ledger)

text \<open>
  C1: First in, first out, and nothing lost or invented, under every interleaving of any number of
  producers, consumers, closers and clearers, with every policy: the accepted elements are
  those that left, in the order they left, followed by those still queued; what consumers
  received is, in order, exactly the part that left by a pop; and the drop counter counts,
  modulo \<open>2^64\<close>, the evicted and the refused elements, which exist only under their policy.
\<close>

theorem queue_fifo_conservation:
  assumes "qreach s"
  shows "accepted (log s) = map snd (removed s) @ items (que s) \<and>
         delivered (log s) = gone Taken (removed s) \<and>
         subseq (delivered (log s)) (accepted (log s)) \<and>
         dropped (que s) = of_nat (length (gone Evicted (removed s)) + refused_newest (log s)) \<and>
         (policy (que s) = Block \<longrightarrow> dropped (que s) = 0)"
proof -
  have l: "ledger s" using assms by (rule qm_ledger.reachable_inv)
  have "subseq (gone Taken (removed s)) (map snd (removed s))"
    unfolding gone_def by (intro subseq_map subseq_filter_left)
  then have "subseq (delivered (log s)) (accepted (log s))"
    using l by (auto simp: ledger_def intro: subseq_append' list_emb_append2)
  then show ?thesis using l by (auto simp: ledger_def)
qed

text \<open>
  The queue never holds more than its capacity, and the high-water mark is always between the
  current size and the capacity, in every reachable state.
\<close>

theorem queue_bounds:
  assumes "qreach s"
  shows "0 < capacity (que s) \<and> queue_size (que s) \<le> high_water (que s) \<and>
         high_water (que s) \<le> capacity (que s)"
  using qm_ledger.reachable_inv [OF assms] by (simp add: ledger_def queue_inv_def queue_size_def)

section \<open>No wake-up is lost\<close>

definition sleepers :: "condvar \<Rightarrow> 'a pc list \<Rightarrow> nat" where
  "sleepers cv ts = length (filter (asleep_on cv) ts)"

definition woken :: "condvar \<Rightarrow> 'a pc list \<Rightarrow> nat" where
  "woken cv ts = length (filter (notified_on cv) ts)"

definition closers :: "condvar \<Rightarrow> 'a pc list \<Rightarrow> nat" where
  "closers cv ts = length (filter (will_notify cv) ts)"

text \<open>The units of work there are for the waiters of a condition variable.\<close>

fun work :: "condvar \<Rightarrow> 'a BoundedQueue \<Rightarrow> nat" where
  "work NotEmpty q = length (items q)"
| "work NotFull q = capacity q - length (items q)"

definition wake_ok :: "condvar \<Rightarrow> 'a BoundedQueue \<Rightarrow> 'a pc list \<Rightarrow> bool" where
  "wake_ok cv q ts \<longleftrightarrow> (0 < sleepers cv ts \<longrightarrow>
     (if closed q then 0 < closers cv ts else work cv q \<le> woken cv ts))"

definition no_lost_wakeup :: "'a qsys \<Rightarrow> bool" where
  "no_lost_wakeup s \<longleftrightarrow> (\<forall>cv. wake_ok cv (que s) (threads s))"

lemma count_update:
  "i < length ts \<Longrightarrow>
   length (filter P (ts[i := p])) + of_bool (P (ts ! i)) = length (filter P ts) + of_bool (P p)"
proof (induction ts arbitrary: i)
  case (Cons t ts)
  then show ?case by (cases i) auto
qed simp

lemma counts_update:
  assumes "i < length ts" and "ts ! i = p"
  shows "sleepers cv (ts[i := p']) + of_bool (asleep_on cv p) = sleepers cv ts + of_bool (asleep_on cv p')"
    and "woken cv (ts[i := p']) + of_bool (notified_on cv p) = woken cv ts + of_bool (notified_on cv p')"
    and "closers cv (ts[i := p']) + of_bool (will_notify cv p) = closers cv ts + of_bool (will_notify cv p')"
  using assms count_update [of i ts _ p'] by (simp_all add: sleepers_def woken_def closers_def)

lemma awaken_on:
  "asleep_on cv p \<Longrightarrow> notified_on cv (awaken p)" "asleep_on cv p \<Longrightarrow> \<not> notified_on cv p"
  "\<not> asleep_on cv (awaken p)" "will_notify cv (awaken p) = will_notify cv p"
  by (cases "(cv, p)" rule: asleep_on.cases; simp)+

lemma awaken_other:
  "asleep_on cv p \<Longrightarrow> cv' \<noteq> cv \<Longrightarrow> \<not> asleep_on cv' p"
  "asleep_on cv p \<Longrightarrow> cv' \<noteq> cv \<Longrightarrow> notified_on cv' (awaken p) = notified_on cv' p"
  by (cases "(cv, p)" rule: asleep_on.cases; cases cv'; simp)+

lemma notify_one_counts:
  assumes "notify (NotifyOne cv) ts us"
  shows "(sleepers cv ts = 0 \<and> us = ts) \<or>
         (sleepers cv us + 1 = sleepers cv ts \<and> woken cv us = woken cv ts + 1 \<and>
          closers c us = closers c ts)"
    and "c \<noteq> cv \<Longrightarrow> sleepers c us = sleepers c ts \<and> woken c us = woken c ts"
    and "closers c us = closers c ts"
proof -
  consider "us = ts" "sleepers cv ts = 0"
    | i where "i < length ts" "asleep_on cv (ts ! i)" "us = ts[i := awaken (ts ! i)]"
    using assms by (auto elim!: notify_OneE simp: sleepers_def filter_empty_conv)
  then have "((sleepers cv ts = 0 \<and> us = ts) \<or>
         (sleepers cv us + 1 = sleepers cv ts \<and> woken cv us = woken cv ts + 1 \<and>
          closers c us = closers c ts)) \<and>
     (c \<noteq> cv \<longrightarrow> sleepers c us = sleepers c ts \<and> woken c us = woken c ts) \<and>
     closers c us = closers c ts"
  proof cases
    case (2 i)
    then show ?thesis
      using counts_update [OF 2(1) refl, of cv "awaken (ts ! i)"]
        counts_update [OF 2(1) refl, of c "awaken (ts ! i)"]
      by (auto simp: awaken_on awaken_other)
  qed simp
  then show "(sleepers cv ts = 0 \<and> us = ts) \<or>
         (sleepers cv us + 1 = sleepers cv ts \<and> woken cv us = woken cv ts + 1 \<and>
          closers c us = closers c ts)"
    and "c \<noteq> cv \<Longrightarrow> sleepers c us = sleepers c ts \<and> woken c us = woken c ts"
    and "closers c us = closers c ts"
    by blast+
qed

lemma notify_all_counts:
  assumes "notify (NotifyAll cv) ts us"
  shows "sleepers cv us = 0" and "closers c us = closers c ts"
    and "c \<noteq> cv \<Longrightarrow> sleepers c us = sleepers c ts \<and> woken c us = woken c ts"
proof -
  have us: "us = map (\<lambda>p. if asleep_on cv p then awaken p else p) ts"
    using assms by (rule notify_AllE)
  show "sleepers cv us = 0"
    unfolding us by (auto simp: sleepers_def filter_empty_conv awaken_on)
  show "closers c us = closers c ts"
    unfolding us by (induction ts) (auto simp: closers_def awaken_on)
  show "sleepers c us = sleepers c ts \<and> woken c us = woken c ts" if "c \<noteq> cv"
  proof -
    have "asleep_on c (if asleep_on cv p then awaken p else p) = asleep_on c p"
      and "notified_on c (if asleep_on cv p then awaken p else p) = notified_on c p" for p :: "'a pc"
      using awaken_other [of cv p c] awaken_on(3) [of c p] that by auto
    then show ?thesis unfolding us sleepers_def woken_def by (induction ts) simp_all
  qed
qed

text \<open>
  One section of a thread, seen from the wait sets: thread \<open>i\<close> moves from \<open>p\<close> to \<open>p'\<close>, the queue
  from \<open>q\<close> to \<open>q'\<close>, and at most one notification is sent.
\<close>

lemmas wake_counts = notify_one_counts notify_all_counts

lemma wake_ok_push_back:
  assumes "\<And>cv. wake_ok cv q ts" and "i < length ts" and "ts ! i = p"
    and "p = Idle \<or> (\<exists>v dl b. p = PushWait v dl b)"
    and "\<not> closed q" "length (items q) < capacity q"
    and "notify (NotifyOne NotEmpty) (ts[i := Idle]) us"
  shows "wake_ok cv (push_back q v) us"
proof -
  note u = counts_update [OF assms(2,3), of _ Idle]
  note n = notify_one_counts [OF assms(7)]
  show ?thesis
    using assms(1) [of cv] assms(4-6) u [of cv] n(1) [of cv] n(2) [of cv]
    by (cases cv) (auto simp: wake_ok_def of_bool_def split: if_splits)
qed

lemma wake_ok_take:
  assumes "\<And>cv. wake_ok cv q ts" and "i < length ts" and "ts ! i = p"
    and "p = Idle \<or> (\<exists>dl b. p = PopWait dl b)"
    and "items q = v # vs" and "length (items q) \<le> capacity q"
    and "notify (NotifyOne NotFull) (ts[i := Idle]) us"
  shows "wake_ok cv (q\<lparr>items := vs\<rparr>) us"
proof -
  note u = counts_update [OF assms(2,3), of _ Idle]
  note n = notify_one_counts [OF assms(7)]
  show ?thesis
    using assms(1) [of cv] assms(4-6) u [of cv] n(1) [of cv] n(2) [of cv] n(3) [of cv]
    by (cases cv) (auto simp: wake_ok_def of_bool_def split: if_splits)
qed

lemma wake_ok_evict:
  assumes "\<And>cv. wake_ok cv q ts" and "i < length ts" and "ts ! i = Idle"
    and "length (items q') = length (items q)" "capacity q' = capacity q" "closed q' = closed q"
    and "notify (NotifyOne NotEmpty) (ts[i := Idle]) us"
  shows "wake_ok cv q' us"
proof -
  note u = counts_update [OF assms(2,3), of _ Idle]
  note n = notify_one_counts [OF assms(7)]
  show ?thesis
    using assms(1) [of cv] assms(4-6) u [of cv] n(1) [of cv] n(2) [of cv] n(3) [of cv]
    by (cases cv) (auto simp: wake_ok_def of_bool_def split: if_splits)
qed

text \<open>A thread that goes to sleep does so because there is no work for it and nothing is closed.\<close>

lemma wake_ok_sleep:
  assumes "\<And>cv. wake_ok cv q ts" and "i < length ts" and "ts ! i = p"
    and "(\<exists>v dl. p' = PushWait v dl False) \<and> (p = Idle \<or> (\<exists>v dl b. p = PushWait v dl b)) \<and>
           capacity q \<le> length (items q) \<or>
         (\<exists>dl. p' = PopWait dl False) \<and> (p = Idle \<or> (\<exists>dl b. p = PopWait dl b)) \<and> items q = []"
    and "\<not> closed q"
  shows "wake_ok cv q (ts[i := p'])"
  using assms(1) [of cv] assms(4,5) counts_update [OF assms(2,3), of cv p']
  by (cases cv) (auto simp: wake_ok_def of_bool_def split: if_splits)

text \<open>A thread that leaves without changing the queue had no work, or the queue is closed.\<close>

lemma wake_ok_leave:
  assumes "\<And>cv. wake_ok cv q ts" and "i < length ts" and "ts ! i = p"
    and "p = Idle \<or> (\<exists>v dl b. p = PushWait v dl b) \<and> (closed q \<or> capacity q \<le> length (items q)) \<or>
         (\<exists>dl b. p = PopWait dl b) \<and> items q = [] \<or> p = Closing []"
    and "items q' = items q" "capacity q' = capacity q" "closed q' = closed q"
  shows "wake_ok cv q' (ts[i := Idle])"
  using assms(1) [of cv] assms(4-7) counts_update [OF assms(2,3), of cv Idle]
  by (cases cv) (auto simp: wake_ok_def of_bool_def split: if_splits)

lemma wake_ok_awaken:
  assumes "wake_ok cv q ts" and "i < length ts"
  shows "wake_ok cv q (ts[i := awaken (ts ! i)])"
proof -
  have "asleep_on cv (ts ! i) \<or> notified_on cv (awaken (ts ! i)) = notified_on cv (ts ! i)"
    by (cases "(cv, ts ! i)" rule: asleep_on.cases) auto
  then show ?thesis
    using assms counts_update [OF assms(2) refl, of cv "awaken (ts ! i)"]
    by (auto simp: wake_ok_def awaken_on)
qed

lemma qinit_wakeup: "qinit s \<Longrightarrow> no_lost_wakeup s"
proof (erule qinit.cases)
  fix sa :: "'a qsys" assume "s = sa" "set (threads sa) \<subseteq> {Idle}"
  then have "sleepers cv (threads s) = 0" for cv
    by (cases cv) (auto simp: sleepers_def filter_empty_conv)
  then show ?thesis by (simp add: no_lost_wakeup_def wake_ok_def)
qed

lemma push_until_wakeup:
  assumes ok: "\<And>cv. wake_ok cv (que s) (threads s)"
    and i: "i < length (threads s)" "threads s ! i = Idle"
    and inv: "queue_inv (que s)"
    and p: "push_until (que s) v dl = (ev, q', oc, sg)"
    and n: "notifies sg (threads (after_push i v dl ev q' oc s)) us"
  shows "wake_ok cv q' us"
  using p
proof (cases rule: push_until_cases)
  case Oldest
  then have "length (items q') = length (items (que s))"
    using inv by (cases "items (que s)") (auto simp: queue_inv_def)
  then show ?thesis
    using Oldest n by (intro wake_ok_evict [OF ok i]) (auto simp: after_push_def)
next
  case Ok
  then show ?thesis
    using n by (auto simp: after_push_def intro!: wake_ok_push_back [OF ok i])
next
  case Wait
  then show ?thesis using n by (auto simp: after_push_def intro!: wake_ok_sleep [OF ok i])
qed (use n in \<open>auto simp: after_push_def intro!: wake_ok_leave [OF ok i]\<close>)

lemma push_wake_wakeup:
  assumes ok: "\<And>cv. wake_ok cv (que s) (threads s)"
    and i: "i < length (threads s)" "threads s ! i = PushWait v dl b"
    and p: "push_wake (que s) v to = (q', oc, sg)"
    and n: "notifies sg (threads (after_push i v dl None q' oc s)) us"
  shows "wake_ok cv q' us"
  using p
proof (cases rule: push_wake_cases)
  case Ok
  then show ?thesis
    using n by (auto simp: after_push_def intro!: wake_ok_push_back [OF ok i])
next
  case Wait
  then show ?thesis using n by (auto simp: after_push_def intro!: wake_ok_sleep [OF ok i])
qed (use n in \<open>auto simp: after_push_def intro!: wake_ok_leave [OF ok i]\<close>)

lemma pop_until_wakeup:
  assumes ok: "\<And>cv. wake_ok cv (que s) (threads s)"
    and i: "i < length (threads s)" "threads s ! i = Idle"
    and inv: "queue_inv (que s)"
    and p: "pop_until (que s) dl = (q', oc, sg)"
    and n: "notifies sg (threads (after_pop i dl q' oc s)) us"
  shows "wake_ok cv q' us"
  using p
proof (cases rule: pop_until_cases)
  case (Some v vs)
  then show ?thesis
    using n inv by (auto simp: after_pop_def queue_inv_def intro!: wake_ok_take [OF ok i])
next
  case Wait
  then show ?thesis using n by (auto simp: after_pop_def intro!: wake_ok_sleep [OF ok i])
qed (use n in \<open>auto simp: after_pop_def intro!: wake_ok_leave [OF ok i]\<close>)

lemma pop_wake_wakeup:
  assumes ok: "\<And>cv. wake_ok cv (que s) (threads s)"
    and i: "i < length (threads s)" "threads s ! i = PopWait dl b"
    and inv: "queue_inv (que s)"
    and p: "pop_wake (que s) to = (q', oc, sg)"
    and n: "notifies sg (threads (after_pop i dl q' oc s)) us"
  shows "wake_ok cv q' us"
  using p
proof (cases rule: pop_wake_cases)
  case (Some v vs)
  then show ?thesis
    using n inv by (auto simp: after_pop_def queue_inv_def intro!: wake_ok_take [OF ok i])
next
  case Wait
  then show ?thesis using n by (auto simp: after_pop_def intro!: wake_ok_sleep [OF ok i])
qed (use n in \<open>auto simp: after_pop_def intro!: wake_ok_leave [OF ok i]\<close>)

text \<open>Closing: the flag goes up with both broadcasts still to come, then they are sent.\<close>

lemma close_call_wakeup:
  assumes "i < length ts" and "ts ! i = Idle"
  shows "wake_ok cv (close_locked q) (ts[i := Closing close_signals])"
  using counts_update(3) [OF assms, of cv "Closing close_signals"]
  by (cases cv) (auto simp: wake_ok_def close_locked_def close_signals_def)

lemma close_notify_wakeup:
  assumes "\<And>cv. wake_ok cv q ts" and "i < length ts" and "ts ! i = Closing (g # gs)"
    and "closed q" and "g = NotifyAll c" and "notify g (ts[i := Closing gs]) us"
  shows "wake_ok cv q us"
proof -
  have n: "notify (NotifyAll c) (ts[i := Closing gs]) us" using assms(5,6) by simp
  show ?thesis
    using assms(1) [of cv] assms(4,5) counts_update [OF assms(2,3), of cv "Closing gs"]
      notify_all_counts(1) [OF n] notify_all_counts(2,3) [OF n, of cv]
    by (cases "cv = c") (auto simp: wake_ok_def)
qed

lemma clear_wakeup:
  assumes "\<And>cv. wake_ok cv q ts" and "clear q = (xs, q', sg)" and "notifies sg ts us"
  shows "wake_ok cv q' us"
proof -
  have n: "notify (NotifyAll NotFull) ts us" and q': "q' = q\<lparr>items := []\<rparr>"
    using assms(2,3) by (auto simp: clear_def)
  show ?thesis
    using assms(1) [of cv] q' notify_all_counts(1) [OF n] notify_all_counts(2,3) [OF n, of cv]
    by (cases cv) (auto simp: wake_ok_def)
qed

definition closing_ok :: "'a qsys \<Rightarrow> bool" where
  "closing_ok s \<longleftrightarrow> (\<forall>gs. Closing gs \<in> set (threads s) \<longrightarrow>
     closed (que s) \<and> set gs \<subseteq> {NotifyAll NotEmpty, NotifyAll NotFull})"

lemma awaken_Closing [simp]:
  "awaken p = Closing gs \<longleftrightarrow> p = Closing gs" "Closing gs = awaken p \<longleftrightarrow> p = Closing gs"
  by (cases p; auto)+

lemma notify_Closing: "notify g ts us \<Longrightarrow> Closing gs \<in> set us \<Longrightarrow> Closing gs \<in> set ts"
  by (induction rule: notify.induct)
     (auto dest!: set_update_subset_insert [THEN subsetD] split: if_splits)

lemma notifies_Closing: "notifies sg ts us \<Longrightarrow> Closing gs \<in> set us \<Longrightarrow> Closing gs \<in> set ts"
  by (induction rule: notifies.induct) (auto dest: notify_Closing)

lemma set_update_Closing:
  "Closing gs \<in> set (ts[i := p]) \<Longrightarrow> p \<noteq> Closing gs \<Longrightarrow> Closing gs \<in> set ts"
  by (auto dest!: set_update_subset_insert [THEN subsetD])

lemma section_closed:
  "push_until q v dl = (ev, q', oc, sg) \<Longrightarrow> closed q' = closed q"
  "push_wake q v to = (q', oc, sg) \<Longrightarrow> closed q' = closed q"
  "pop_until q dl = (q', od, sg) \<Longrightarrow> closed q' = closed q"
  "pop_wake q to = (q', od, sg) \<Longrightarrow> closed q' = closed q"
  by (erule push_until_cases push_wake_cases pop_until_cases pop_wake_cases; simp)+

lemma closing_ok_section:
  assumes "closing_ok s" and "closed q' = closed (que s)" and "\<forall>gs. p \<noteq> Closing gs"
    and "notifies sg ((threads s)[t := p]) us" and "que s' = q'" and "threads s' = us"
  shows "closing_ok s'"
proof -
  have "Closing gs \<in> set (threads s)" if "Closing gs \<in> set us" for gs
    using set_update_Closing [OF notifies_Closing [OF assms(4) that]] assms(3) by blast
  then show ?thesis using assms(1,2,5,6) by (auto simp: closing_ok_def)
qed

lemma qstep_closing: "qstep s t \<Longrightarrow> closing_ok s \<Longrightarrow> closing_ok t"
proof (induction rule: qstep.induct)
  case (push_call t s v dl ev q' oc sg s1 ts)
  note q' = section_closed(1) [OF push_call.hyps(3)]
  show ?case
    by (rule closing_ok_section [OF push_call.prems q', where t = t and p = "case oc of Return _ \<Rightarrow> Idle | Waiting \<Rightarrow> PushWait v dl False"])
       (use push_call.hyps in \<open>auto simp: after_push_def split: outcome.splits\<close>)
next
  case (push_resume t s v dl b to q' oc sg s1 ts)
  note q' = section_closed(2) [OF push_resume.hyps(4)]
  show ?case
    by (rule closing_ok_section [OF push_resume.prems q', where t = t and p = "case oc of Return _ \<Rightarrow> Idle | Waiting \<Rightarrow> PushWait v dl False"])
       (use push_resume.hyps in \<open>auto simp: after_push_def split: outcome.splits\<close>)
next
  case (pop_call t s dl q' oc sg s1 ts)
  note q' = section_closed(3) [OF pop_call.hyps(3)]
  show ?case
    by (rule closing_ok_section [OF pop_call.prems q', where t = t and p = "case oc of Return _ \<Rightarrow> Idle | Waiting \<Rightarrow> PopWait dl False"])
       (use pop_call.hyps in \<open>auto simp: after_pop_def split: outcome.splits\<close>)
next
  case (pop_resume t s dl b to q' oc sg s1 ts)
  note q' = section_closed(4) [OF pop_resume.hyps(4)]
  show ?case
    by (rule closing_ok_section [OF pop_resume.prems q', where t = t and p = "case oc of Return _ \<Rightarrow> Idle | Waiting \<Rightarrow> PopWait dl False"])
       (use pop_resume.hyps in \<open>auto simp: after_pop_def split: outcome.splits\<close>)
next
  case (close_call t s)
  then show ?case
    by (auto simp: closing_ok_def close_locked_def close_signals_def dest!: set_update_Closing
        dest: set_update_subset_insert [THEN subsetD])
next
  case (close_notify t s g gs ts)
  then have "Closing (g # gs) \<in> set (threads s)" by (metis nth_mem)
  then show ?case
    using close_notify
    by (fastforce simp: closing_ok_def dest: notify_Closing set_update_subset_insert [THEN subsetD])
next
  case (close_return t s)
  then show ?case by (auto simp: closing_ok_def dest: set_update_Closing)
next
  case (clear_call t s xs q' sg ts)
  then show ?case by (auto simp: closing_ok_def clear_def dest!: notifies_Closing notify_Closing)
next
  case (spurious t s)
  have "Closing gs \<in> set (threads s)" if "Closing gs \<in> set ((threads s)[t := awaken (threads s ! t)])" for gs
    using set_update_subset_insert [THEN subsetD, OF that] spurious(1) nth_mem by force
  then show ?case using spurious by (auto simp: closing_ok_def)
next
  case (tick s now)
  then show ?case by (simp add: closing_ok_def)
qed

definition wakeup_inv :: "'a qsys \<Rightarrow> bool" where
  "wakeup_inv s \<longleftrightarrow> ledger s \<and> closing_ok s \<and> no_lost_wakeup s"

lemma wakeup_inv_parts:
  "wakeup_inv s \<Longrightarrow> wake_ok cv (que s) (threads s)" "wakeup_inv s \<Longrightarrow> queue_inv (que s)"
  by (simp_all add: wakeup_inv_def no_lost_wakeup_def ledger_def)

lemma qstep_wakeup: "qstep s t \<Longrightarrow> wakeup_inv s \<Longrightarrow> no_lost_wakeup t"
proof (induction rule: qstep.induct)
  case (push_call t s v dl ev q' oc sg s1 ts)
  note inv = wakeup_inv_parts [OF push_call.prems]
  have "wake_ok cv q' ts" for cv
    using push_until_wakeup [OF inv(1) push_call.hyps(1,2) inv(2) push_call.hyps(3)] push_call.hyps(4,5)
    by simp
  then show ?case using push_call.hyps(4) by (simp add: no_lost_wakeup_def after_push_def)
next
  case (push_resume t s v dl b to q' oc sg s1 ts)
  note inv = wakeup_inv_parts [OF push_resume.prems]
  have "wake_ok cv q' ts" for cv
    using push_wake_wakeup [OF inv(1) push_resume.hyps(1,2) push_resume.hyps(4)] push_resume.hyps(5,6)
    by simp
  then show ?case using push_resume.hyps(5) by (simp add: no_lost_wakeup_def after_push_def)
next
  case (pop_call t s dl q' oc sg s1 ts)
  note inv = wakeup_inv_parts [OF pop_call.prems]
  have "wake_ok cv q' ts" for cv
    using pop_until_wakeup [OF inv(1) pop_call.hyps(1,2) inv(2) pop_call.hyps(3)] pop_call.hyps(4,5)
    by simp
  then show ?case using pop_call.hyps(4) by (simp add: no_lost_wakeup_def after_pop_def)
next
  case (pop_resume t s dl b to q' oc sg s1 ts)
  note inv = wakeup_inv_parts [OF pop_resume.prems]
  have "wake_ok cv q' ts" for cv
    using pop_wake_wakeup [OF inv(1) pop_resume.hyps(1,2) inv(2) pop_resume.hyps(4)] pop_resume.hyps(5,6)
    by simp
  then show ?case using pop_resume.hyps(5) by (simp add: no_lost_wakeup_def after_pop_def)
next
  case (close_call t s)
  then show ?case by (simp add: no_lost_wakeup_def close_call_wakeup)
next
  case (close_notify t s g gs ts)
  then have "closed (que s)" and "g \<in> {NotifyAll NotEmpty, NotifyAll NotFull}"
    using nth_mem [OF close_notify(1)] by (fastforce simp: wakeup_inv_def closing_ok_def)+
  then show ?case
    using close_notify
    by (auto simp: wakeup_inv_def no_lost_wakeup_def intro: close_notify_wakeup)
next
  case (close_return t s)
  then show ?case
    by (auto simp: wakeup_inv_def no_lost_wakeup_def intro!: wake_ok_leave [of "que s" "threads s"])
next
  case (clear_call t s xs q' sg ts)
  then show ?case
    by (auto simp: wakeup_inv_def no_lost_wakeup_def intro: clear_wakeup)
next
  case (spurious t s)
  then show ?case by (auto simp: wakeup_inv_def no_lost_wakeup_def intro: wake_ok_awaken)
next
  case (tick s now)
  then show ?case by (simp add: wakeup_inv_def no_lost_wakeup_def)
qed

interpretation qm_wakeup: inductive_invariant qinit qstep wakeup_inv
proof
  fix s :: "'a qsys" assume "qinit s"
  then show "wakeup_inv s"
    by (auto simp: wakeup_inv_def closing_ok_def qinit_ledger qinit_wakeup elim!: qinit.cases)
next
  fix s t :: "'a qsys" assume "wakeup_inv s" "qstep s t"
  then show "wakeup_inv t"
    using qstep_ledger [of s t] qstep_closing [of s t] qstep_wakeup [of s t]
    by (simp add: wakeup_inv_def)
qed

text \<open>
  C2: No wake-up is lost. In every reachable state, if some consumer sleeps on an open queue, then
  there are at least as many notified consumers on their way to the lock as there are queued
  elements; if some producer sleeps, at least as many notified producers as free places; and
  on a closed queue a sleeping thread implies that a closer has yet to broadcast to it. So
  one notification per push and per pop suffices, whatever is interleaved, including timeouts,
  spurious wake-ups, \<open>clear\<close>, and the broadcasts of \<open>close\<close> being sent after the lock is released.
\<close>

theorem queue_no_lost_wakeup:
  assumes "qreach s"
  shows "(0 < sleepers NotEmpty (threads s) \<and> \<not> closed (que s) \<longrightarrow>
            length (items (que s)) \<le> woken NotEmpty (threads s)) \<and>
         (0 < sleepers NotFull (threads s) \<and> \<not> closed (que s) \<longrightarrow>
            capacity (que s) - length (items (que s)) \<le> woken NotFull (threads s)) \<and>
         (closed (que s) \<longrightarrow> (\<forall>cv. 0 < sleepers cv (threads s) \<longrightarrow> 0 < closers cv (threads s)))"
proof -
  have "wake_ok cv (que s) (threads s)" for cv
    using wakeup_inv_parts(1) [OF qm_wakeup.reachable_inv [OF assms]] .
  from this [of NotEmpty] this [of NotFull] this show ?thesis by (auto simp: wake_ok_def)
qed

section \<open>Runs\<close>

definition start_sys :: "nat \<Rightarrow> nat \<Rightarrow> OverflowPolicy \<Rightarrow> 'a qsys" where
  "start_sys n cap pol = \<lparr>que = new_queue cap pol, threads = replicate n Idle, clock = 0,
                          log = [], removed = []\<rparr>"

lemma start_reach: "qreach (start_sys n cap pol)"
  by (rule reachable.start) (auto simp: qinit.simps start_sys_def)

text \<open>A consumer that finds an empty queue sleeps; the same with a producer that has pushed.\<close>

lemma pop_sleeps:
  "qreach ((start_sys 2 1 Block)\<lparr>threads := [PopWait tp_max False, Idle]\<rparr>)"
proof (rule reachable.move [OF start_reach [of 2 1 Block]])
  let ?s = "start_sys 2 1 Block :: 'a qsys"
  have "qstep ?s ((after_pop 0 tp_max (que ?s) Waiting ?s)\<lparr>threads := [PopWait tp_max False, Idle]\<rparr>)"
    by (rule qstep.pop_call [where t = 0 and dl = tp_max and sg = "[]"])
       (auto simp: start_sys_def new_queue_def pop_until_def after_pop_def numeral_2_eq_2)
  then show "qstep ?s (?s\<lparr>threads := [PopWait tp_max False, Idle]\<rparr>)"
    by (simp add: after_pop_def start_sys_def)
qed

lemma push_runs:
  "\<exists>s :: 'a qsys. qreach s \<and> log s = [(0, RPush v Ok)] \<and> items (que s) = [v]"
proof -
  let ?s = "start_sys 1 1 Block :: 'a qsys"
  let ?t = "(after_push 0 v tp_max None (push_back (que ?s) v) (Return Ok) ?s)\<lparr>threads := [Idle]\<rparr>"
  have "qstep ?s ?t"
    by (rule qstep.push_call [where t = 0 and dl = tp_max and sg = "[NotifyOne NotEmpty]"])
       (auto simp: start_sys_def new_queue_def push_until_def after_push_def intro: notify_nobody)
  then have "qreach ?t" by (rule reachable.move [OF start_reach])
  then show ?thesis by (intro exI [of _ ?t]) (simp add: after_push_def start_sys_def new_queue_def)
qed

theorem queue_fifo_conservation_witness:
  "\<exists>s :: nat qsys. qreach s \<and> accepted (log s) = [7] \<and> map snd (removed s) @ items (que s) = [7]"
proof -
  obtain s :: "nat qsys" where s: "qreach s" "log s = [(0, RPush 7 Ok)]" using push_runs [of "7 :: nat"] by auto
  then have a: "accepted (log s) = [7]" by simp
  moreover have "accepted (log s) = map snd (removed s) @ items (que s)"
    using queue_fifo_conservation [OF s(1)] by (rule conjunct1)
  ultimately show ?thesis using s(1) by metis
qed

theorem queue_bounds_witness:
  "\<exists>s :: nat qsys. qreach s \<and> queue_size (que s) = 1 \<and> 1 \<le> high_water (que s)"
proof -
  obtain s :: "nat qsys" where s: "qreach s" "items (que s) = [7]" using push_runs [of "7 :: nat"] by auto
  then have "queue_size (que s) = 1" by (simp add: queue_size_def)
  then show ?thesis using queue_bounds [OF s(1)] s(1) by metis
qed

theorem queue_no_lost_wakeup_witness:
  "\<exists>s :: nat qsys. qreach s \<and> 0 < sleepers NotEmpty (threads s) \<and> \<not> closed (que s) \<and>
     length (items (que s)) \<le> woken NotEmpty (threads s)"
proof -
  let ?s = "(start_sys 2 1 Block :: nat qsys)\<lparr>threads := [PopWait tp_max False, Idle]\<rparr>"
  have "0 < sleepers NotEmpty (threads ?s)" "\<not> closed (que ?s)"
    by (simp_all add: sleepers_def start_sys_def new_queue_def)
  then show ?thesis using queue_no_lost_wakeup [OF pop_sleeps] pop_sleeps by blast
qed

text \<open>
  \<open>close\<close> is not covered by the care \<open>push_until\<close> takes to notify while it holds the lock: there is a run
  in which a blocking pop has already returned the end of the queue because of the close, so
  that its caller may destroy the queue, while the closing thread has both of its
  notifications still to send on the queue's condition variables.
\<close>

theorem close_notifies_after_consumer_left:
  "\<exists>s :: 'a qsys. qreach s \<and> (0, RPop None) \<in> set (log s) \<and> threads s ! 0 = Idle \<and>
     threads s ! 1 = Closing [NotifyAll NotEmpty, NotifyAll NotFull]"
proof -
  let ?s = "start_sys 2 1 Block :: 'a qsys"
  let ?c = "?s\<lparr>que := close_locked (que ?s), threads := [Idle, Closing close_signals]\<rparr>"
  let ?t = "(after_pop 0 tp_max (que ?c) (Return None) ?c)\<lparr>threads := [Idle, Closing close_signals]\<rparr>"
  have "qstep ?s ?c"
    using qstep.close_call [of 1 ?s] by (simp add: start_sys_def numeral_2_eq_2)
  then have c: "qreach ?c" by (rule reachable.move [OF start_reach])
  have "qstep ?c ?t"
    by (rule qstep.pop_call [where t = 0 and dl = tp_max and sg = "[]"])
       (auto simp: start_sys_def new_queue_def close_locked_def pop_until_def pop_front_def after_pop_def)
  then have "qreach ?t" by (rule reachable.move [OF c])
  then show ?thesis
    by (intro exI [of _ ?t]) (simp add: after_pop_def start_sys_def close_signals_def)
qed

end
