(* ===== verification/Spsc_Ring.thy ===== *)
theory Spsc_Ring
  imports Fifo_Spec
begin

text \<open>
  \<^verbatim>\<open>code/include/rdb/concurrency/spsc_ring.h\<close>: the single-producer single-consumer ring. Indices
  are free-running 64-bit counters that wrap; a slot is selected by masking. Each side keeps a
  cached copy of the other side's counter and reloads it only when the cache says full or empty.

  Two models: the operations run to completion, as a \<open>bounded_fifo\<close>; and the interleaving of one
  producer and one consumer at the level of single loads, stores and slot accesses
  (\<open>ring_step\<close>), in which every load sees the latest store. The release/acquire pairs of the
  source order the slot access with the counter, which the interleaving model takes as given.

  \<open>moved\<close> stands for the value \<^verbatim>\<open>std::move\<close> leaves behind in a slot, which C++ does not specify.
\<close>

unbundle bit_operations_syntax

section \<open>Rounding the capacity\<close>

text \<open>The loop variable \<^verbatim>\<open>shift\<close> takes the values 1, 2, 4, 8, 16, 32.\<close>

definition round_up_pow2 :: "u64 \<Rightarrow> u64" where
  "round_up_pow2 v =
     (if v < 2 then 2
      else let v = v - 1;
               v = foldl (\<lambda>v k. v OR drop_bit (2 ^ k) v) v [0..<6]
           in v + 1)"

lemma smear_bit:
  "bit (foldl (\<lambda>v k. v OR drop_bit (2 ^ k) v) (v :: u64) [0..<m]) n \<longleftrightarrow> (\<exists>j<2 ^ m. bit v (n + j))"
proof (induction m arbitrary: n)
  case 0
  then show ?case by simp
next
  case (Suc m)
  have "(\<exists>j<2 ^ m. bit v (n + j)) \<or> (\<exists>j<2 ^ m. bit v (2 ^ m + n + j)) \<longleftrightarrow> (\<exists>j<2 ^ Suc m. bit v (n + j))"
  proof
    assume "(\<exists>j<2 ^ m. bit v (n + j)) \<or> (\<exists>j<2 ^ m. bit v (2 ^ m + n + j))"
    then consider j where "j < 2 ^ m" "bit v (n + j)" | j where "j < 2 ^ m" "bit v (n + (2 ^ m + j))"
      by (auto simp: ac_simps)
    then show "\<exists>j<2 ^ Suc m. bit v (n + j)"
    proof cases
      case (1 j)
      then show ?thesis by (intro exI [of _ j]) simp
    next
      case (2 j)
      then show ?thesis by (intro exI [of _ "2 ^ m + j"]) simp
    qed
  next
    assume "\<exists>j<2 ^ Suc m. bit v (n + j)"
    then obtain j where j: "j < 2 ^ m + 2 ^ m" "bit v (n + j)" by (auto simp: mult_2)
    show "(\<exists>j<2 ^ m. bit v (n + j)) \<or> (\<exists>j<2 ^ m. bit v (2 ^ m + n + j))"
    proof (cases "j < 2 ^ m")
      case False
      then have "j - 2 ^ m < 2 ^ m" "2 ^ m + n + (j - 2 ^ m) = n + j" using j(1) by linarith+
      then show ?thesis using j(2) by metis
    qed (use j in blast)
  qed
  then show ?case using Suc.IH by (simp add: bit_or_iff bit_drop_bit_eq ac_simps)
qed

lemma highest_bit:
  assumes "(v :: u64) \<noteq> 0"
  obtains m where "m < 64" "bit v m" "\<forall>n. bit v n \<longrightarrow> n \<le> m" "2 ^ m \<le> unat v" "unat v < 2 ^ Suc m"
proof -
  define m where "m = Max {n. bit v n}"
  have fin: "finite {n. bit v n}"
    by (rule finite_subset [of _ "{..<64}"]) (auto dest: bit_imp_le_length)
  have ne: "{n. bit v n} \<noteq> {}" using assms by (auto simp: bit_eq_iff)
  have m: "bit v m" "\<And>n. bit v n \<Longrightarrow> n \<le> m"
    using Max_in [OF fin ne] Max_ge [OF fin] by (auto simp: m_def)
  have "v = take_bit (Suc m) v"
    by (rule bit_word_eqI) (auto simp: bit_take_bit_iff dest: m(2) intro: le_imp_less_Suc)
  then have "unat v = take_bit (Suc m) (unat v)" by (metis unsigned_take_bit_eq)
  then have lt: "unat v < 2 ^ Suc m" by (metis take_bit_nat_less_exp)
  have "odd (unat v div 2 ^ m)" using m(1) by (simp add: bit_iff_odd [symmetric] bit_unsigned_iff)
  then have "1 \<le> unat v div 2 ^ m" by (cases "unat v div 2 ^ m") auto
  then have "2 ^ m \<le> unat v" by (simp add: less_eq_div_iff_mult_less_eq)
  then show ?thesis using that m lt bit_imp_le_length [OF m(1)] by simp
qed

lemma smear_mask:
  assumes "bit (v :: u64) m" and "\<forall>n. bit v n \<longrightarrow> n \<le> m"
  shows "foldl (\<lambda>v k. v OR drop_bit (2 ^ k) v) v [0..<6] = mask (Suc m)"
proof (rule bit_word_eqI)
  fix n assume n: "n < LENGTH(64)"
  have m: "m < 64" using bit_imp_le_length [OF assms(1)] by simp
  have "(\<exists>j<2 ^ 6. bit v (n + j)) \<longleftrightarrow> n \<le> m"
  proof
    assume "\<exists>j<2 ^ 6. bit v (n + j)"
    then show "n \<le> m" using assms(2) by (meson add_leD1)
  next
    assume "n \<le> m"
    then show "\<exists>j<2 ^ 6. bit v (n + j)" using assms(1) m by (intro exI [of _ "m - n"]) auto
  qed
  then show "bit (foldl (\<lambda>v k. v OR drop_bit (2 ^ k) v) v [0..<6]) n \<longleftrightarrow> bit (mask (Suc m) :: u64) n"
    using n smear_bit [of v 6 n] by (simp add: bit_mask_iff less_Suc_eq_le)
qed

lemma round_up_pow2_eq:
  assumes "2 \<le> v"
  obtains m where "m < 64" "2 ^ m < unat v" "unat v \<le> 2 ^ Suc m" "round_up_pow2 v = 2 ^ Suc m"
proof -
  have v2: "2 \<le> unat v" using assms by (simp add: word_le_nat_alt)
  have u: "unat (v - 1) = unat v - 1" using v2 by (intro unat_minus_one) auto
  then have "v - 1 \<noteq> 0" using v2 by (auto simp: unat_eq_0)
  then obtain m where m: "m < 64" "bit (v - 1) m" "\<forall>n. bit (v - 1) n \<longrightarrow> n \<le> m"
    "2 ^ m \<le> unat (v - 1)" "unat (v - 1) < 2 ^ Suc m"
    by (rule highest_bit)
  have "round_up_pow2 v = mask (Suc m) + 1"
    using assms [folded linorder_not_less] smear_mask [OF m(2,3)]
    by (simp add: round_up_pow2_def Let_def)
  also have "\<dots> = 2 ^ Suc m" by (simp add: mask_eq_exp_minus_1)
  finally have r: "round_up_pow2 v = 2 ^ Suc m" .
  have "2 ^ m < unat v" "unat v \<le> 2 ^ Suc m" using m(4,5) u v2 by linarith+
  then show ?thesis using that m(1) r by blast
qed

lemma round_up_pow2_pow:
  assumes "unat v \<le> 2 ^ 63"
  obtains k where "1 \<le> k" "k \<le> 63" "round_up_pow2 v = 2 ^ k" "unat v \<le> 2 ^ k"
    "k = 1 \<or> 2 ^ (k - 1) < unat v"
proof (cases "v < 2")
  case True
  then have "unat v < 2" by (simp add: word_less_nat_alt)
  then show ?thesis using True that [of 1] by (simp add: round_up_pow2_def)
next
  case False
  then have "2 \<le> v" by simp
  then obtain m where m: "m < 64" "2 ^ m < unat v" "unat v \<le> 2 ^ Suc m" "round_up_pow2 v = 2 ^ Suc m"
    by (rule round_up_pow2_eq)
  have "(2 :: nat) ^ m < 2 ^ 63" using m(2) assms by linarith
  then have "m < 63" by (rule power_less_imp_less_exp [rotated]) simp
  then show ?thesis using m that [of "Suc m"] by simp
qed

text \<open>
  \<open>round_up_pow2\<close> returns the least power of two that is at least its argument (and at least 2),
  for every argument up to \<open>2^63\<close>.
\<close>

theorem round_up_pow2_least:
  assumes "unat v \<le> 2 ^ 63"
  shows "\<exists>k. 1 \<le> k \<and> k \<le> 63 \<and> round_up_pow2 v = 2 ^ k \<and> unat (round_up_pow2 v) = 2 ^ k \<and>
             unat v \<le> 2 ^ k \<and> (k = 1 \<or> 2 ^ (k - 1) < unat v)"
proof -
  obtain k where "1 \<le> k" "k \<le> 63" "round_up_pow2 v = 2 ^ k" "unat v \<le> 2 ^ k"
    "k = 1 \<or> 2 ^ (k - 1) < unat v"
    using assms by (rule round_up_pow2_pow)
  then show ?thesis by (intro exI [of _ k]) (simp add: unat_pow2)
qed

theorem round_up_pow2_least_witness:
  "\<exists>k. 1 \<le> k \<and> k \<le> 63 \<and> round_up_pow2 5 = 2 ^ k \<and> unat (round_up_pow2 5) = 2 ^ k \<and>
       unat (5 :: u64) \<le> 2 ^ k \<and> (k = 1 \<or> 2 ^ (k - 1) < unat (5 :: u64))"
  by (rule round_up_pow2_least) simp

section \<open>The ring\<close>

record 'a SpscRing =
  mask_bits :: u64
  slots :: "'a list"
  write_pos :: u64
  read_cache :: u64
  read_pos :: u64
  write_cache :: u64

definition new_ring :: "'a \<Rightarrow> u64 \<Rightarrow> 'a SpscRing" where
  "new_ring d cap =
     (let m = round_up_pow2 cap - 1 in
      \<lparr>mask_bits = m, slots = replicate (unat (m + 1)) d, write_pos = 0, read_cache = 0,
       read_pos = 0, write_cache = 0\<rparr>)"

definition ring_capacity :: "'a SpscRing \<Rightarrow> u64" where
  "ring_capacity r = mask_bits r + 1"

definition ring_push :: "'a \<Rightarrow> 'a SpscRing \<Rightarrow> 'a SpscRing \<times> bool" where
  "ring_push v r =
     (let w = write_pos r;
          r = (if w - read_cache r = ring_capacity r then r\<lparr>read_cache := read_pos r\<rparr> else r)
      in if w - read_cache r = ring_capacity r then (r, False)
         else (r\<lparr>slots := (slots r)[unat (w AND mask_bits r) := v], write_pos := w + 1\<rparr>, True))"

definition ring_pop :: "('a \<Rightarrow> 'a) \<Rightarrow> 'a SpscRing \<Rightarrow> 'a SpscRing \<times> 'a option" where
  "ring_pop moved r =
     (let rd = read_pos r;
          r = (if rd = write_cache r then r\<lparr>write_cache := write_pos r\<rparr> else r)
      in if rd = write_cache r then (r, None)
         else let i = unat (rd AND mask_bits r); out = slots r ! i
              in (r\<lparr>slots := (slots r)[i := moved out], read_pos := rd + 1\<rparr>, Some out))"

definition ring_size :: "'a SpscRing \<Rightarrow> u64" where
  "ring_size r = write_pos r - read_pos r"

definition ring_empty :: "'a SpscRing \<Rightarrow> bool" where
  "ring_empty r \<longleftrightarrow> ring_size r = 0"

section \<open>Counters\<close>

text \<open>
  The wrapping counters stand for unbounded ones: \<open>W\<close> elements written, \<open>R\<close> read, with cached
  copies \<open>RC\<close> and \<open>WC\<close> that lag behind. All differences are at most the capacity, a power of two
  below \<open>2^64\<close>, so neither the comparison of differences nor the masking notices the wrap.
\<close>

definition ring_at :: "'a SpscRing \<Rightarrow> nat \<Rightarrow> nat \<Rightarrow> nat \<Rightarrow> nat \<Rightarrow> nat \<Rightarrow> bool" where
  "ring_at r k W R RC WC \<longleftrightarrow>
     1 \<le> k \<and> k \<le> 63 \<and> mask_bits r = mask k \<and> length (slots r) = 2 ^ k \<and>
     write_pos r = of_nat W \<and> read_pos r = of_nat R \<and> read_cache r = of_nat RC \<and> write_cache r = of_nat WC \<and>
     RC \<le> R \<and> R \<le> WC \<and> WC \<le> W \<and> W \<le> RC + 2 ^ k"

lemma masked_index:
  assumes "k \<le> 63"
  shows "unat ((of_nat n :: u64) AND mask k) = n mod 2 ^ k"
proof -
  have "unat ((of_nat n :: u64) AND mask k) = take_bit k (take_bit 64 n)"
    by (simp add: take_bit_eq_mask [symmetric] unsigned_take_bit_eq unsigned_of_nat)
  also have "\<dots> = n mod 2 ^ k" using assms by (simp add: take_bit_eq_mod [symmetric])
  finally show ?thesis .
qed

lemma counter_diff:
  "m \<le> n \<Longrightarrow> n - m < 2 ^ 64 \<Longrightarrow> unat (of_nat n - of_nat m :: u64) = n - m"
  by (simp add: of_nat_diff [symmetric] unat_of_nat del: of_nat_diff)

lemma small_power: "k \<le> 63 \<Longrightarrow> (2 :: nat) ^ k < 2 ^ 64"
  by (intro power_strict_increasing) auto

lemma ring_capacity_eq: "ring_at r k W R RC WC \<Longrightarrow> ring_capacity r = 2 ^ k"
  by (simp add: ring_at_def ring_capacity_def mask_eq_exp_minus_1)

lemma ring_at_diffs:
  assumes "ring_at r k W R RC WC"
  shows "write_pos r - read_cache r = ring_capacity r \<longleftrightarrow> W = RC + 2 ^ k"
    and "write_pos r - read_pos r = ring_capacity r \<longleftrightarrow> W = R + 2 ^ k"
    and "read_pos r = write_cache r \<longleftrightarrow> WC = R" and "read_pos r = write_pos r \<longleftrightarrow> W = R"
    and "unat (write_pos r - read_pos r) = W - R"
proof -
  note at = assms [unfolded ring_at_def]
  have lt: "(2 :: nat) ^ k < 2 ^ 64" using at small_power by simp
  have cap: "unat (2 ^ k :: u64) = 2 ^ k" using at by (intro unat_pow2) simp
  have full: "(of_nat n - of_nat m = (2 ^ k :: u64)) \<longleftrightarrow> n = m + 2 ^ k"
    if "m \<le> n" "n \<le> m + 2 ^ k" for n m
  proof -
    have "(of_nat n - of_nat m = (2 ^ k :: u64)) \<longleftrightarrow> n - m = 2 ^ k"
      unfolding word_unat_eq_iff cap using that lt counter_diff [of m n] by simp
    then show ?thesis using that by linarith
  qed
  have same: "(of_nat m = (of_nat n :: u64)) \<longleftrightarrow> n = m" if "m \<le> n" "n \<le> m + 2 ^ k" for n m
  proof -
    have "n - m < 2 ^ 64" using that lt by linarith
    then have "unat (of_nat n - of_nat m :: u64) = n - m" using that by (intro counter_diff)
    then have "of_nat n - of_nat m = (0 :: u64) \<longleftrightarrow> n - m = 0" by (metis unat_0 unat_eq_0)
    then show ?thesis using that by auto
  qed
  show "write_pos r - read_cache r = ring_capacity r \<longleftrightarrow> W = RC + 2 ^ k"
    "write_pos r - read_pos r = ring_capacity r \<longleftrightarrow> W = R + 2 ^ k"
    using at full [of RC W] full [of R W] by (simp_all add: ring_capacity_eq [OF assms])
  show "read_pos r = write_cache r \<longleftrightarrow> WC = R" "read_pos r = write_pos r \<longleftrightarrow> W = R"
    using at same [of R WC] same [of R W] by simp_all
  have "W - R < 2 ^ 64" using at lt by linarith
  then show "unat (write_pos r - read_pos r) = W - R" using at counter_diff [of R W] by simp
qed

section \<open>The ring as a bounded first-in first-out channel\<close>

definition ring_contents :: "'a SpscRing \<Rightarrow> 'a list" where
  "ring_contents r =
     map (\<lambda>i. slots r ! unat ((read_pos r + of_nat i) AND mask_bits r))
       [0..<unat (write_pos r - read_pos r)]"

definition ring_ok :: "'a SpscRing \<Rightarrow> bool" where
  "ring_ok r \<longleftrightarrow> (\<exists>k W R RC WC. ring_at r k W R RC WC)"

lemma mod_distinct:
  assumes "(m :: nat) < n" and "n < m + c"
  shows "m mod c \<noteq> n mod c"
proof
  assume "m mod c = n mod c"
  then have "c dvd n - m" using assms(1) by (metis less_imp_le mod_eq_dvd_iff_nat)
  then show False using assms by (auto dest: dvd_imp_le)
qed

lemma ring_contents_at:
  assumes "ring_at r k W R RC WC"
  shows "ring_contents r = map (\<lambda>i. slots r ! (i mod 2 ^ k)) [R..<W]"
proof -
  note at = assms [unfolded ring_at_def]
  have "(read_pos r + of_nat i :: u64) = of_nat (R + i)" for i using at by simp
  then have "unat ((read_pos r + of_nat i) AND mask_bits r) = (R + i) mod 2 ^ k" for i
    using at masked_index [of k "R + i"] by simp
  then have "ring_contents r = map (\<lambda>i. slots r ! ((R + i) mod 2 ^ k)) [0..<W - R]"
    by (simp add: ring_contents_def ring_at_diffs(5) [OF assms])
  also have "\<dots> = map (\<lambda>i. slots r ! (i mod 2 ^ k)) [R..<W]"
    by (rule nth_equalityI) auto
  finally show ?thesis .
qed

lemma ring_at_publish:
  assumes "ring_at r k W R RC WC" and "W < RC + 2 ^ k"
  shows "ring_at (r\<lparr>slots := (slots r)[i := v], write_pos := write_pos r + 1\<rparr>) k (Suc W) R RC WC"
  using assms by (auto simp: ring_at_def)

lemma ring_at_consume:
  assumes "ring_at r k W R RC WC" and "R < WC"
  shows "ring_at (r\<lparr>slots := (slots r)[i := v], read_pos := read_pos r + 1\<rparr>) k W (Suc R) RC WC"
  using assms by (auto simp: ring_at_def)

lemma ring_at_reload:
  assumes "ring_at r k W R RC WC"
  shows "ring_at (r\<lparr>read_cache := read_pos r\<rparr>) k W R R WC"
    and "ring_at (r\<lparr>write_cache := write_pos r\<rparr>) k W R RC W"
  using assms by (auto simp: ring_at_def)

lemma ring_slot_index:
  assumes "ring_at r k W R RC WC"
  shows "unat (write_pos r AND mask_bits r) = W mod 2 ^ k" "unat (read_pos r AND mask_bits r) = R mod 2 ^ k"
  using assms masked_index by (auto simp: ring_at_def)

text \<open>What one push and one pop do, in terms of the unbounded counters.\<close>

lemma ring_push_at:
  assumes "ring_at r k W R RC WC"
  shows "if W = R + 2 ^ k then snd (ring_push v r) = False \<and> ring_at (fst (ring_push v r)) k W R R WC \<and>
             slots (fst (ring_push v r)) = slots r
         else snd (ring_push v r) = True \<and> (\<exists>RC'. ring_at (fst (ring_push v r)) k (Suc W) R RC' WC) \<and>
             slots (fst (ring_push v r)) = (slots r)[W mod 2 ^ k := v]"
proof -
  let ?r = "if W = RC + 2 ^ k then r\<lparr>read_cache := read_pos r\<rparr> else r"
  let ?RC = "if W = RC + 2 ^ k then R else RC"
  have at: "ring_at ?r k W R ?RC WC" using assms ring_at_reload(1) by auto
  note d = ring_at_diffs(1) [OF assms]
  have d': "write_pos r - read_cache ?r = ring_capacity ?r \<longleftrightarrow> W = R + 2 ^ k"
    using ring_at_diffs(1) [OF at] assms by (auto simp: ring_at_def split: if_splits)
  have p: "ring_push v r =
      (if W = R + 2 ^ k then (?r, False)
       else (?r\<lparr>slots := (slots r)[W mod 2 ^ k := v], write_pos := write_pos r + 1\<rparr>, True))"
    using d' ring_slot_index(1) [OF assms] by (simp add: ring_push_def Let_def d)
  show ?thesis
  proof (cases "W = R + 2 ^ k")
    case True
    then have "W = RC + 2 ^ k" using assms by (auto simp: ring_at_def)
    then show ?thesis using True p at by simp
  next
    case False
    then have "W < ?RC + 2 ^ k" using at by (auto simp: ring_at_def)
    then show ?thesis using False p ring_at_publish [OF at, of "W mod 2 ^ k" v] by (auto split: if_splits)
  qed
qed

lemma ring_pop_at:
  assumes "ring_at r k W R RC WC"
  shows "if W = R then snd (ring_pop mv r) = None \<and> (\<exists>WC'. ring_at (fst (ring_pop mv r)) k W R RC WC') \<and>
             slots (fst (ring_pop mv r)) = slots r
         else snd (ring_pop mv r) = Some (slots r ! (R mod 2 ^ k)) \<and>
             (\<exists>WC'. ring_at (fst (ring_pop mv r)) k W (Suc R) RC WC') \<and>
             slots (fst (ring_pop mv r)) = (slots r)[R mod 2 ^ k := mv (slots r ! (R mod 2 ^ k))]"
proof -
  let ?r = "if WC = R then r\<lparr>write_cache := write_pos r\<rparr> else r"
  let ?WC = "if WC = R then W else WC"
  have at: "ring_at ?r k W R RC ?WC" using assms ring_at_reload(2) by auto
  note d = ring_at_diffs(3) [OF assms]
  have d': "read_pos r = write_cache ?r \<longleftrightarrow> W = R"
    using ring_at_diffs(3) [OF at] assms by (auto simp: ring_at_def split: if_splits)
  have p: "ring_pop mv r =
      (if W = R then (?r, None)
       else (?r\<lparr>slots := (slots r)[R mod 2 ^ k := mv (slots r ! (R mod 2 ^ k))],
                read_pos := read_pos r + 1\<rparr>, Some (slots r ! (R mod 2 ^ k))))"
    using d' ring_slot_index(2) [OF assms] by (simp add: ring_pop_def Let_def d)
  show ?thesis
  proof (cases "W = R")
    case True
    then show ?thesis using p at by auto
  next
    case False
    then have "R < ?WC" using at by (auto simp: ring_at_def)
    then show ?thesis
      using False p ring_at_consume [OF at, of "R mod 2 ^ k" "mv (slots r ! (R mod 2 ^ k))"]
      by (auto split: if_splits)
  qed
qed

lemma ring_push_contents:
  assumes "ring_ok r"
  shows "ring_ok (fst (ring_push v r))"
    and "snd (ring_push v r) \<longleftrightarrow> length (ring_contents r) < unat (ring_capacity r)"
    and "ring_contents (fst (ring_push v r)) = ring_contents r @ (if snd (ring_push v r) then [v] else [])"
    and "ring_capacity (fst (ring_push v r)) = ring_capacity r"
proof -
  obtain k W R RC WC where at: "ring_at r k W R RC WC" using assms by (auto simp: ring_ok_def)
  note p = ring_push_at [OF at, of v]
  note bounds = at [unfolded ring_at_def]
  have cap: "unat (ring_capacity r) = 2 ^ k" using bounds by (simp add: ring_capacity_eq [OF at] unat_pow2)
  show "ring_ok (fst (ring_push v r))"
    using p unfolding ring_ok_def by (cases "W = R + 2 ^ k") (simp_all, blast+)
  show "ring_capacity (fst (ring_push v r)) = ring_capacity r"
    by (simp add: ring_push_def Let_def ring_capacity_def)
  show "snd (ring_push v r) \<longleftrightarrow> length (ring_contents r) < unat (ring_capacity r)"
    using p bounds by (auto simp: ring_contents_at [OF at] cap split: if_splits)
  show "ring_contents (fst (ring_push v r)) = ring_contents r @ (if snd (ring_push v r) then [v] else [])"
  proof (cases "W = R + 2 ^ k")
    case True
    then show ?thesis using p ring_contents_at [OF at]
      by (auto simp: ring_contents_at [of _ k W R R WC])
  next
    case False
    then obtain RC' where p': "snd (ring_push v r)" "ring_at (fst (ring_push v r)) k (Suc W) R RC' WC"
      "slots (fst (ring_push v r)) = (slots r)[W mod 2 ^ k := v]" using p by auto
    have "W mod 2 ^ k \<noteq> i mod 2 ^ k" if "i \<in> {R..<W}" for i
      using mod_distinct [of i W "2 ^ k"] that False bounds by auto
    then show ?thesis
      using p' bounds by (simp add: ring_contents_at [OF at] ring_contents_at [OF p'(2)])
  qed
qed

lemma ring_pop_contents:
  assumes "ring_ok r"
  shows "ring_ok (fst (ring_pop mv r))"
    and "ring_contents r = (case snd (ring_pop mv r) of None \<Rightarrow> [] | Some y \<Rightarrow> [y]) @ ring_contents (fst (ring_pop mv r))"
    and "snd (ring_pop mv r) = None \<longleftrightarrow> ring_contents r = []"
    and "ring_capacity (fst (ring_pop mv r)) = ring_capacity r"
proof -
  obtain k W R RC WC where at: "ring_at r k W R RC WC" using assms by (auto simp: ring_ok_def)
  note p = ring_pop_at [OF at, of mv]
  note bounds = at [unfolded ring_at_def]
  show "ring_ok (fst (ring_pop mv r))"
    using p unfolding ring_ok_def by (cases "W = R") (simp_all, blast+)
  show "ring_capacity (fst (ring_pop mv r)) = ring_capacity r"
    by (simp add: ring_pop_def Let_def ring_capacity_def)
  show "snd (ring_pop mv r) = None \<longleftrightarrow> ring_contents r = []"
    using p bounds by (auto simp: ring_contents_at [OF at] split: if_splits)
  show "ring_contents r = (case snd (ring_pop mv r) of None \<Rightarrow> [] | Some y \<Rightarrow> [y]) @ ring_contents (fst (ring_pop mv r))"
  proof (cases "W = R")
    case True
    then obtain WC' where "ring_at (fst (ring_pop mv r)) k W R RC WC'" "snd (ring_pop mv r) = None"
      using p by auto
    then show ?thesis using True by (simp add: ring_contents_at [OF at] ring_contents_at)
  next
    case False
    then obtain WC' where p': "snd (ring_pop mv r) = Some (slots r ! (R mod 2 ^ k))"
      "ring_at (fst (ring_pop mv r)) k W (Suc R) RC WC'"
      "slots (fst (ring_pop mv r)) = (slots r)[R mod 2 ^ k := mv (slots r ! (R mod 2 ^ k))]"
      using p by auto
    have "R mod 2 ^ k \<noteq> i mod 2 ^ k" if "Suc R \<le> i" "i < W" for i
      using mod_distinct [of R i "2 ^ k"] that bounds by linarith
    then show ?thesis
      using p' bounds False
      by (simp add: ring_contents_at [OF at] ring_contents_at [OF p'(2)] upt_conv_Cons)
  qed
qed

interpretation ring: bounded_fifo ring_push "ring_pop mv" ring_contents ring_ok
    "\<lambda>r. unat (ring_capacity r)" for mv
  by unfold_locales (simp_all add: ring_push_contents ring_pop_contents)

lemma new_ring_at:
  assumes "1 \<le> k" and "k \<le> 63" and "round_up_pow2 cap = 2 ^ k"
  shows "ring_at (new_ring d cap) k 0 0 0 0"
  using assms by (simp add: ring_at_def new_ring_def Let_def mask_eq_exp_minus_1 unat_pow2)

lemma new_ring_ok:
  assumes "unat cap \<le> 2 ^ 63"
  shows "ring_ok (new_ring d cap)" and "ring_contents (new_ring d cap) = []"
    and "ring_capacity (new_ring d cap) = round_up_pow2 cap"
proof -
  obtain k where k: "1 \<le> k" "k \<le> 63" "round_up_pow2 cap = 2 ^ k"
    using assms by (rule round_up_pow2_pow)
  show "ring_ok (new_ring d cap)" using new_ring_at [OF k, of d] unfolding ring_ok_def by blast
  show "ring_contents (new_ring d cap) = []" by (simp add: ring_contents_def new_ring_def Let_def)
  show "ring_capacity (new_ring d cap) = round_up_pow2 cap"
    by (simp add: ring_capacity_def new_ring_def Let_def)
qed

section \<open>Runs of complete operations\<close>

text \<open>
  A ring of a capacity up to \<open>2^63\<close> answers every run of pushes and pops in first-in first-out order:
  the values taken out followed by those still inside are the accepted ones, in order.
\<close>

theorem ring_fifo:
  assumes "unat cap \<le> 2 ^ 63" and "run_ops ring_push (ring_pop moved) (new_ring d cap) os = (r, rs)"
  shows "put_in os rs = taken_out rs @ ring_contents r"
  using ring.run_fifo [OF new_ring_ok(1) [OF assms(1)] assms(2)] by (simp add: new_ring_ok(2) [OF assms(1)])

theorem ring_fifo_witness:
  "put_in [Push 1, Push 2, Push (3 :: nat), Pop] [Pushed True, Pushed True, Pushed False, Popped (Some 1)] =
   taken_out [Pushed True, Pushed True, Pushed False, Popped (Some (1 :: nat))] @
   ring_contents (fst (run_ops ring_push (ring_pop id) (new_ring 0 1) [Push 1, Push 2, Push 3, Pop]))"
proof -
  have "snd (run_ops ring_push (ring_pop id) (new_ring 0 1) [Push 1, Push 2, Push (3 :: nat), Pop]) =
        [Pushed True, Pushed True, Pushed False, Popped (Some 1)]"
    by code_simp
  then show ?thesis
    using ring_fifo [of 1 id "0 :: nat" "[Push 1, Push 2, Push 3, Pop]", OF _ surjective_pairing] by simp
qed

text \<open>
  Above \<open>2^63\<close> the rounding wraps to 0: the ring then has no slot at all, reports capacity 0,
  and refuses every element.
\<close>

theorem round_up_pow2_overflow:
  assumes "2 ^ 63 < unat cap"
  shows "round_up_pow2 cap = 0 \<and> slots (new_ring d cap) = [] \<and>
         ring_capacity (new_ring d cap) = 0 \<and> snd (ring_push v (new_ring d cap)) = False"
proof -
  have "2 \<le> cap" using assms by (simp add: word_le_nat_alt)
  then obtain m where m: "m < 64" "unat cap \<le> 2 ^ Suc m" "round_up_pow2 cap = 2 ^ Suc m"
    by (rule round_up_pow2_eq)
  have "(2 :: nat) ^ 63 < 2 ^ Suc m" using m(2) assms by linarith
  then have "63 < Suc m" by (rule power_less_imp_less_exp [rotated]) simp
  then have "Suc m = 64" using m(1) by simp
  then have "round_up_pow2 cap = 0" using m(3) by simp
  then show ?thesis by (simp add: new_ring_def ring_capacity_def ring_push_def Let_def)
qed

theorem round_up_pow2_overflow_witness:
  "round_up_pow2 (2 ^ 63 + 1) = 0 \<and> snd (ring_push (7 :: nat) (new_ring 0 (2 ^ 63 + 1))) = False"
  using round_up_pow2_overflow [of "2 ^ 63 + 1" "0 :: nat" 7] by simp

end
