(* ===== verification/Ring_Machine.thy ===== *)
theory Ring_Machine
  imports Spsc_Ring
begin

text \<open>
  The producer, the consumer and an observer of one \<^verbatim>\<open>SpscRing\<close>, interleaved at the level of the
  single loads and stores that \<^verbatim>\<open>push\<close>, \<^verbatim>\<open>pop\<close> and \<^verbatim>\<open>size\<close> make. A program counter holds the local
  variables of a call in progress. Loads see the latest store; the acquire/release pairs of the
  source are what makes that a sound reading of the slot accesses. What a move leaves in a slot is
  arbitrary.

  The ghost lists \<open>pushed\<close> and \<open>popped\<close> grow when a counter is published. The invariant ties the
  wrapping counters to their lengths, and every published and unread slot to its element.
\<close>

unbundle bit_operations_syntax

section \<open>Steps\<close>

datatype 'a prod_pc =
    P_idle
  | P_loaded 'a u64
  | P_reload 'a u64
  | P_store 'a u64
  | P_publish 'a u64

datatype 'a cons_pc =
    C_idle
  | C_loaded u64
  | C_reload u64
  | C_read u64
  | C_publish u64 'a

datatype obs_pc =
    O_idle
  | O_loaded u64
  | O_done u64

record 'a ring_machine =
  ring_of :: "'a SpscRing"
  prod :: "'a prod_pc"
  cons :: "'a cons_pc"
  obs :: obs_pc
  pushed :: "'a list"
  popped :: "'a list"

definition ring_machine_init :: "u64 \<Rightarrow> 'a ring_machine \<Rightarrow> bool" where
  "ring_machine_init cap m \<longleftrightarrow>
     (\<exists>d. ring_of m = new_ring d cap) \<and> prod m = P_idle \<and> cons m = C_idle \<and> obs m = O_idle \<and>
     pushed m = [] \<and> popped m = []"

inductive ring_step :: "'a ring_machine \<Rightarrow> 'a ring_machine \<Rightarrow> bool" where
  push_load:
    "prod m = P_idle \<Longrightarrow> ring_step m (m\<lparr>prod := P_loaded v (write_pos (ring_of m))\<rparr>)"
| push_check:
    "prod m = P_loaded v w \<Longrightarrow>
     ring_step m (m\<lparr>prod := (if w - read_cache (ring_of m) = ring_capacity (ring_of m)
                             then P_reload v w else P_store v w)\<rparr>)"
| push_reload:
    "prod m = P_reload v w \<Longrightarrow>
     ring_step m (m\<lparr>ring_of := (ring_of m)\<lparr>read_cache := read_pos (ring_of m)\<rparr>,
                    prod := (if w - read_pos (ring_of m) = ring_capacity (ring_of m)
                             then P_idle else P_store v w)\<rparr>)"
| push_store:
    "prod m = P_store v w \<Longrightarrow>
     ring_step m (m\<lparr>ring_of := (ring_of m)\<lparr>slots := (slots (ring_of m))[unat (w AND mask_bits (ring_of m)) := v]\<rparr>,
                    prod := P_publish v w\<rparr>)"
| push_publish:
    "prod m = P_publish v w \<Longrightarrow>
     ring_step m (m\<lparr>ring_of := (ring_of m)\<lparr>write_pos := w + 1\<rparr>, prod := P_idle, pushed := pushed m @ [v]\<rparr>)"
| pop_load:
    "cons m = C_idle \<Longrightarrow> ring_step m (m\<lparr>cons := C_loaded (read_pos (ring_of m))\<rparr>)"
| pop_check:
    "cons m = C_loaded rd \<Longrightarrow>
     ring_step m (m\<lparr>cons := (if rd = write_cache (ring_of m) then C_reload rd else C_read rd)\<rparr>)"
| pop_reload:
    "cons m = C_reload rd \<Longrightarrow>
     ring_step m (m\<lparr>ring_of := (ring_of m)\<lparr>write_cache := write_pos (ring_of m)\<rparr>,
                    cons := (if rd = write_pos (ring_of m) then C_idle else C_read rd)\<rparr>)"
| pop_read:
    "cons m = C_read rd \<Longrightarrow> i = unat (rd AND mask_bits (ring_of m)) \<Longrightarrow>
     ring_step m (m\<lparr>ring_of := (ring_of m)\<lparr>slots := (slots (ring_of m))[i := left]\<rparr>,
                    cons := C_publish rd (slots (ring_of m) ! i)\<rparr>)"
| pop_publish:
    "cons m = C_publish rd out \<Longrightarrow>
     ring_step m (m\<lparr>ring_of := (ring_of m)\<lparr>read_pos := rd + 1\<rparr>, cons := C_idle, popped := popped m @ [out]\<rparr>)"
| size_load_write:
    "\<forall>w. obs m \<noteq> O_loaded w \<Longrightarrow> ring_step m (m\<lparr>obs := O_loaded (write_pos (ring_of m))\<rparr>)"
| size_load_read:
    "obs m = O_loaded w \<Longrightarrow> ring_step m (m\<lparr>obs := O_done (w - read_pos (ring_of m))\<rparr>)"

section \<open>Invariant\<close>

text \<open>
  What a program counter says of the slots, the published counters (\<open>pos\<close> the wrapped, the lengths
  of the ghost lists the unbounded ones) and the cached counters.
\<close>

fun prod_inv :: "nat \<Rightarrow> nat \<Rightarrow> 'a list \<Rightarrow> u64 \<Rightarrow> nat \<Rightarrow> 'a prod_pc \<Rightarrow> bool" where
  "prod_inv k RC sl pos W P_idle \<longleftrightarrow> True"
| "prod_inv k RC sl pos W (P_loaded v w) \<longleftrightarrow> w = pos"
| "prod_inv k RC sl pos W (P_reload v w) \<longleftrightarrow> w = pos"
| "prod_inv k RC sl pos W (P_store v w) \<longleftrightarrow> w = pos \<and> W < RC + 2 ^ k"
| "prod_inv k RC sl pos W (P_publish v w) \<longleftrightarrow> w = pos \<and> W < RC + 2 ^ k \<and> sl ! (W mod 2 ^ k) = v"

fun cons_inv :: "nat \<Rightarrow> 'a list \<Rightarrow> u64 \<Rightarrow> nat \<Rightarrow> 'a cons_pc \<Rightarrow> bool" where
  "cons_inv WC xs pos R C_idle \<longleftrightarrow> True"
| "cons_inv WC xs pos R (C_loaded rd) \<longleftrightarrow> rd = pos"
| "cons_inv WC xs pos R (C_reload rd) \<longleftrightarrow> rd = pos"
| "cons_inv WC xs pos R (C_read rd) \<longleftrightarrow> rd = pos \<and> R < WC"
| "cons_inv WC xs pos R (C_publish rd out) \<longleftrightarrow> rd = pos \<and> R < WC \<and> out = xs ! R"

text \<open>The first element whose slot still holds it.\<close>

fun first_live :: "nat \<Rightarrow> 'a cons_pc \<Rightarrow> nat" where
  "first_live R (C_publish rd out) = Suc R"
| "first_live R _ = R"

definition live_slots :: "nat \<Rightarrow> 'a list \<Rightarrow> 'a list \<Rightarrow> nat \<Rightarrow> bool" where
  "live_slots k sl xs n \<longleftrightarrow> (\<forall>i. n \<le> i \<and> i < length xs \<longrightarrow> sl ! (i mod 2 ^ k) = xs ! i)"

definition machine_at :: "'a ring_machine \<Rightarrow> nat \<Rightarrow> nat \<Rightarrow> nat \<Rightarrow> bool" where
  "machine_at m k RC WC \<longleftrightarrow>
     ring_at (ring_of m) k (length (pushed m)) (length (popped m)) RC WC \<and>
     prod_inv k RC (slots (ring_of m)) (write_pos (ring_of m)) (length (pushed m)) (prod m) \<and>
     cons_inv WC (pushed m) (read_pos (ring_of m)) (length (popped m)) (cons m) \<and>
     popped m = take (length (popped m)) (pushed m) \<and>
     live_slots k (slots (ring_of m)) (pushed m) (first_live (length (popped m)) (cons m))"

definition ring_machine_inv :: "u64 \<Rightarrow> 'a ring_machine \<Rightarrow> bool" where
  "ring_machine_inv cap m \<longleftrightarrow> (\<exists>k RC WC. round_up_pow2 cap = 2 ^ k \<and> machine_at m k RC WC)"

lemma machine_init:
  assumes "unat cap \<le> 2 ^ 63" and "ring_machine_init cap m"
  shows "ring_machine_inv cap m"
proof -
  obtain d where m: "ring_of m = new_ring d cap" "prod m = P_idle" "cons m = C_idle" "pushed m = []" "popped m = []"
    using assms(2) by (auto simp: ring_machine_init_def)
  obtain k where k: "1 \<le> k" "k \<le> 63" "round_up_pow2 cap = 2 ^ k"
    using assms(1) by (rule round_up_pow2_pow)
  then have "machine_at m k 0 0"
    using m new_ring_at [OF k] by (simp add: machine_at_def live_slots_def)
  then show ?thesis using k(3) unfolding ring_machine_inv_def by blast
qed

text \<open>Every step keeps the invariant; the two reloads move a cached counter.\<close>

lemma first_live_bounds: "R \<le> first_live R pc" "first_live R pc \<le> Suc R"
  by (cases pc; simp)+

lemma prod_inv_cache: "prod_inv k RC sl pos W pc \<Longrightarrow> RC \<le> RC' \<Longrightarrow> prod_inv k RC' sl pos W pc"
  by (cases pc) auto

lemma cons_inv_cache: "cons_inv WC xs pos R pc \<Longrightarrow> WC \<le> WC' \<Longrightarrow> cons_inv WC' xs pos R pc"
  by (cases pc) auto

lemma cons_inv_append: "cons_inv WC xs pos R pc \<Longrightarrow> R < length xs \<or> WC \<le> R \<Longrightarrow> cons_inv WC (xs @ ys) pos R pc"
  by (cases pc) (auto simp: nth_append)

lemma producer_check:
  assumes inv: "machine_at m k RC WC" and pc: "prod m = P_loaded v w"
  shows "machine_at (m\<lparr>prod := (if w - read_cache (ring_of m) = ring_capacity (ring_of m)
                               then P_reload v w else P_store v w)\<rparr>) k RC WC"
proof -
  have at: "ring_at (ring_of m) k (length (pushed m)) (length (popped m)) RC WC"
    using inv by (simp add: machine_at_def)
  then have "length (pushed m) \<le> RC + 2 ^ k" by (simp add: ring_at_def)
  then show ?thesis using inv pc ring_at_diffs(1) [OF at] by (auto simp: machine_at_def)
qed

lemma producer_reload:
  assumes inv: "machine_at m k RC WC" and pc: "prod m = P_reload v w"
  shows "machine_at (m\<lparr>ring_of := (ring_of m)\<lparr>read_cache := read_pos (ring_of m)\<rparr>,
                      prod := (if w - read_pos (ring_of m) = ring_capacity (ring_of m)
                               then P_idle else P_store v w)\<rparr>) k (length (popped m)) WC"
proof -
  have at: "ring_at (ring_of m) k (length (pushed m)) (length (popped m)) RC WC"
    using inv by (simp add: machine_at_def)
  then have "length (pushed m) \<le> length (popped m) + 2 ^ k" by (simp add: ring_at_def)
  then show ?thesis
    using inv pc ring_at_diffs(2) [OF at] ring_at_reload(1) [OF at] by (auto simp: machine_at_def)
qed

text \<open>The producer writes to a slot that no live element occupies.\<close>

lemma producer_store:
  assumes inv: "machine_at m k RC WC" and pc: "prod m = P_store v w"
  shows "machine_at (m\<lparr>ring_of := (ring_of m)\<lparr>slots := (slots (ring_of m))[unat (w AND mask_bits (ring_of m)) := v]\<rparr>,
                      prod := P_publish v w\<rparr>) k RC WC"
proof -
  let ?W = "length (pushed m)"
  have at: "ring_at (ring_of m) k ?W (length (popped m)) RC WC" and w: "w = write_pos (ring_of m)" "?W < RC + 2 ^ k"
    using inv pc by (auto simp: machine_at_def)
  have i: "unat (w AND mask_bits (ring_of m)) = ?W mod 2 ^ k" using ring_slot_index(1) [OF at] w by simp
  have "RC \<le> first_live (length (popped m)) (cons m)"
    using at first_live_bounds(1) [of "length (popped m)" "cons m"] by (auto simp: ring_at_def)
  then have "?W mod 2 ^ k \<noteq> j mod 2 ^ k" if "first_live (length (popped m)) (cons m) \<le> j" "j < ?W" for j
    using mod_distinct [of j ?W "2 ^ k"] that w(2) by simp
  then have "live_slots k ((slots (ring_of m))[?W mod 2 ^ k := v]) (pushed m) (first_live (length (popped m)) (cons m))"
    using inv by (simp add: machine_at_def live_slots_def)
  then show ?thesis using inv w at unfolding i by (auto simp: machine_at_def ring_at_def)
qed

lemma producer_publish:
  assumes inv: "machine_at m k RC WC" and pc: "prod m = P_publish v w"
  shows "machine_at (m\<lparr>ring_of := (ring_of m)\<lparr>write_pos := w + 1\<rparr>, prod := P_idle, pushed := pushed m @ [v]\<rparr>) k RC WC"
proof -
  have "cons_inv WC (pushed m @ [v]) (read_pos (ring_of m)) (length (popped m)) (cons m)"
    using inv by (intro cons_inv_append) (auto simp: machine_at_def ring_at_def)
  moreover have "live_slots k (slots (ring_of m)) (pushed m @ [v]) (first_live (length (popped m)) (cons m))"
    using inv pc by (auto simp: machine_at_def live_slots_def nth_append less_Suc_eq)
  ultimately show ?thesis using inv pc by (auto simp: machine_at_def ring_at_def)
qed

lemma consumer_check:
  assumes inv: "machine_at m k RC WC" and pc: "cons m = C_loaded rd"
  shows "machine_at (m\<lparr>cons := (if rd = write_cache (ring_of m) then C_reload rd else C_read rd)\<rparr>) k RC WC"
proof -
  have at: "ring_at (ring_of m) k (length (pushed m)) (length (popped m)) RC WC"
    using inv by (simp add: machine_at_def)
  then have "length (popped m) \<le> WC" by (simp add: ring_at_def)
  then show ?thesis using inv pc ring_at_diffs(3) [OF at] by (auto simp: machine_at_def)
qed

lemma consumer_reload:
  assumes inv: "machine_at m k RC WC" and pc: "cons m = C_reload rd"
  shows "machine_at (m\<lparr>ring_of := (ring_of m)\<lparr>write_cache := write_pos (ring_of m)\<rparr>,
                      cons := (if rd = write_pos (ring_of m) then C_idle else C_read rd)\<rparr>) k RC (length (pushed m))"
proof -
  have at: "ring_at (ring_of m) k (length (pushed m)) (length (popped m)) RC WC"
    using inv by (simp add: machine_at_def)
  then have "length (popped m) \<le> length (pushed m)" by (simp add: ring_at_def)
  then show ?thesis
    using inv pc ring_at_diffs(4) [OF at] ring_at_reload(2) [OF at] by (auto simp: machine_at_def)
qed

lemma consumer_read:
  assumes inv: "machine_at m k RC WC" and pc: "cons m = C_read rd"
    and i: "i = unat (rd AND mask_bits (ring_of m))"
  shows "machine_at (m\<lparr>ring_of := (ring_of m)\<lparr>slots := (slots (ring_of m))[i := left]\<rparr>,
                      cons := C_publish rd (slots (ring_of m) ! i)\<rparr>) k RC WC"
proof -
  let ?W = "length (pushed m)" and ?R = "length (popped m)" and ?sl = "slots (ring_of m)"
  have at: "ring_at (ring_of m) k ?W ?R RC WC" and r: "rd = read_pos (ring_of m)" "?R < WC"
    and live: "live_slots k ?sl (pushed m) ?R"
    using inv pc by (auto simp: machine_at_def)
  have i': "i = ?R mod 2 ^ k" using ring_slot_index(2) [OF at] i r by simp
  note b = at [unfolded ring_at_def]
  have "live_slots k (?sl[i := left]) (pushed m) (Suc ?R)"
    unfolding live_slots_def
  proof (intro allI impI)
    fix j assume j: "Suc ?R \<le> j \<and> j < ?W"
    then have "i \<noteq> j mod 2 ^ k" using mod_distinct [of ?R j "2 ^ k"] b i' by simp
    then show "?sl[i := left] ! (j mod 2 ^ k) = pushed m ! j" using live j by (simp add: live_slots_def)
  qed
  moreover have "?sl ! i = pushed m ! ?R" using live r b i' by (simp add: live_slots_def)
  moreover have "prod_inv k RC (?sl[i := left]) (write_pos (ring_of m)) ?W (prod m)"
  proof (cases "prod m")
    case (P_publish v w)
    then have "?W < RC + 2 ^ k" "?sl ! (?W mod 2 ^ k) = v" using inv by (auto simp: machine_at_def)
    moreover have "i \<noteq> ?W mod 2 ^ k" using mod_distinct [of ?R ?W "2 ^ k"] b i' r calculation(1) by simp
    ultimately show ?thesis using P_publish inv by (simp add: machine_at_def)
  qed (use inv in \<open>auto simp: machine_at_def\<close>)
  ultimately show ?thesis using inv pc r at by (auto simp: machine_at_def ring_at_def)
qed

lemma consumer_publish:
  assumes inv: "machine_at m k RC WC" and pc: "cons m = C_publish rd out"
  shows "machine_at (m\<lparr>ring_of := (ring_of m)\<lparr>read_pos := rd + 1\<rparr>, cons := C_idle, popped := popped m @ [out]\<rparr>) k RC WC"
  using inv pc by (auto simp: machine_at_def ring_at_def take_Suc_conv_app_nth)

lemma machine_step:
  assumes inv: "machine_at m k RC WC" and step: "ring_step m m'"
  shows "\<exists>RC WC. machine_at m' k RC WC"
  using step
proof cases
  case (push_load v)
  then show ?thesis using inv by (intro exI [of _ RC] exI [of _ WC]) (simp add: machine_at_def)
next
  case pop_load
  then show ?thesis using inv by (intro exI [of _ RC] exI [of _ WC]) (simp add: machine_at_def)
next
  case size_load_write
  then show ?thesis using inv by (intro exI [of _ RC] exI [of _ WC]) (simp add: machine_at_def)
next
  case (size_load_read w)
  then show ?thesis using inv by (intro exI [of _ RC] exI [of _ WC]) (simp add: machine_at_def)
next
  case (push_check v w)
  then show ?thesis using producer_check [OF inv push_check(2)] unfolding push_check(1) by blast
next
  case (push_reload v w)
  then show ?thesis using producer_reload [OF inv push_reload(2)] unfolding push_reload(1) by blast
next
  case (push_store v w)
  then show ?thesis using producer_store [OF inv push_store(2)] unfolding push_store(1) by blast
next
  case (push_publish v w)
  then show ?thesis using producer_publish [OF inv push_publish(2)] unfolding push_publish(1) by blast
next
  case (pop_check rd)
  then show ?thesis using consumer_check [OF inv pop_check(2)] unfolding pop_check(1) by blast
next
  case (pop_reload rd)
  then show ?thesis using consumer_reload [OF inv pop_reload(2)] unfolding pop_reload(1) by blast
next
  case (pop_publish rd out)
  then show ?thesis using consumer_publish [OF inv pop_publish(2)] unfolding pop_publish(1) by blast
next
  case (pop_read rd i left)
  then show ?thesis using consumer_read [OF inv pop_read(2,3), of left] unfolding pop_read(1) by blast
qed

interpretation rm: inductive_invariant "\<lambda>m. unat cap \<le> 2 ^ 63 \<and> ring_machine_init cap m" ring_step
    "ring_machine_inv cap" for cap
proof
  show "ring_machine_inv cap m" if "unat cap \<le> 2 ^ 63 \<and> ring_machine_init cap m" for m :: "'a ring_machine"
    using that machine_init by blast
  show "ring_machine_inv cap m'" if "ring_machine_inv cap m" "ring_step m m'" for m m' :: "'a ring_machine"
    using that machine_step unfolding ring_machine_inv_def by blast
qed

lemma reachable_machine:
  assumes "unat cap \<le> 2 ^ 63" and "reachable (ring_machine_init cap) ring_step m"
  obtains k RC WC where "k \<le> 63" "unat (round_up_pow2 cap) = 2 ^ k" "machine_at m k RC WC"
proof -
  have "reachable (\<lambda>m. unat cap \<le> 2 ^ 63 \<and> ring_machine_init cap m) ring_step m"
    using assms(2) by induction (use assms(1) in \<open>blast intro: reachable.intros\<close>)+
  from rm.reachable_inv [OF this] obtain k RC WC
    where k: "round_up_pow2 cap = 2 ^ k" "machine_at m k RC WC"
    by (auto simp: ring_machine_inv_def)
  then have "k \<le> 63" by (simp add: machine_at_def ring_at_def)
  then show ?thesis using that [OF _ _ k(2)] k(1) by (simp add: unat_pow2)
qed

section \<open>Uninterrupted calls\<close>

text \<open>A call that no other thread interrupts is the operation of \<open>Spsc_Ring\<close>.\<close>

lemmas ring_move = reachable.move [where step = ring_step]
lemmas ring_run = converse_rtranclp_into_rtranclp [where r = ring_step]

lemma push_store_publish:
  assumes "prod m = P_store v w"
  shows "ring_step\<^sup>*\<^sup>* m (m\<lparr>ring_of := (ring_of m)\<lparr>slots := (slots (ring_of m))[unat (w AND mask_bits (ring_of m)) := v],
                                   write_pos := w + 1\<rparr>, prod := P_idle, pushed := pushed m @ [v]\<rparr>)"
proof (rule ring_run [OF push_store [OF assms]])
  let ?m = "m\<lparr>ring_of := (ring_of m)\<lparr>slots := (slots (ring_of m))[unat (w AND mask_bits (ring_of m)) := v]\<rparr>,
              prod := P_publish v w\<rparr>"
  have "ring_step\<^sup>*\<^sup>* ?m (?m\<lparr>ring_of := (ring_of ?m)\<lparr>write_pos := w + 1\<rparr>, prod := P_idle, pushed := pushed ?m @ [v]\<rparr>)"
    by (rule ring_run [OF push_publish rtranclp.rtrancl_refl]) simp
  then show "ring_step\<^sup>*\<^sup>* ?m (m\<lparr>ring_of := (ring_of m)\<lparr>slots := (slots (ring_of m))[unat (w AND mask_bits (ring_of m)) := v],
                                   write_pos := w + 1\<rparr>, prod := P_idle, pushed := pushed m @ [v]\<rparr>)"
    by simp
qed

lemma push_checked:
  assumes "prod m = P_idle"
  shows "ring_step\<^sup>*\<^sup>* m (m\<lparr>prod := (if write_pos (ring_of m) - read_cache (ring_of m) = ring_capacity (ring_of m)
             then P_reload v (write_pos (ring_of m)) else P_store v (write_pos (ring_of m)))\<rparr>)"
  using push_check [of "m\<lparr>prod := P_loaded v (write_pos (ring_of m))\<rparr>"]
  by (intro ring_run [OF push_load [OF assms, of v]] ring_run [OF _ rtranclp.rtrancl_refl]) simp

lemma push_run:
  assumes "prod m = P_idle"
  shows "ring_step\<^sup>*\<^sup>* m (m\<lparr>ring_of := fst (ring_push v (ring_of m)), prod := P_idle,
                         pushed := pushed m @ (if snd (ring_push v (ring_of m)) then [v] else [])\<rparr>)"
proof (cases "write_pos (ring_of m) - read_cache (ring_of m) = ring_capacity (ring_of m)")
  case False
  have "ring_step\<^sup>*\<^sup>* m (m\<lparr>prod := P_store v (write_pos (ring_of m))\<rparr>)"
    using push_checked [OF assms, of v] False by simp
  from rtranclp_trans [OF this push_store_publish [of _ v]] False assms show ?thesis
    by (simp add: ring_push_def Let_def)
next
  case True
  let ?m = "m\<lparr>prod := P_reload v (write_pos (ring_of m))\<rparr>" and ?r = "(ring_of m)\<lparr>read_cache := read_pos (ring_of m)\<rparr>"
  have "ring_step\<^sup>*\<^sup>* m ?m" using push_checked [OF assms, of v] True by simp
  moreover have "ring_step ?m (m\<lparr>ring_of := ?r, prod := (if write_pos ?r - read_pos ?r = ring_capacity ?r
          then P_idle else P_store v (write_pos ?r))\<rparr>)"
    using push_reload [of ?m v "write_pos (ring_of m)"] by (simp add: ring_capacity_def cong: if_cong split del: if_split)
  ultimately have reload: "ring_step\<^sup>*\<^sup>* m (m\<lparr>ring_of := ?r, prod := (if write_pos ?r - read_pos ?r = ring_capacity ?r
          then P_idle else P_store v (write_pos ?r))\<rparr>)"
    by (rule rtranclp.rtrancl_into_rtrancl)
  show ?thesis
  proof (cases "write_pos ?r - read_pos ?r = ring_capacity ?r")
    case full: True
    then show ?thesis using reload True assms by (simp add: ring_push_def Let_def ring_capacity_def)
  next
    case False
    from reload False have "ring_step\<^sup>*\<^sup>* m (m\<lparr>ring_of := ?r, prod := P_store v (write_pos ?r)\<rparr>)" by simp
    from rtranclp_trans [OF this push_store_publish [of _ v]] True False assms show ?thesis
      by (simp add: ring_push_def Let_def ring_capacity_def)
  qed
qed

lemma pop_read_publish:
  assumes "cons m = C_read rd"
  shows "ring_step\<^sup>*\<^sup>* m (let i = unat (rd AND mask_bits (ring_of m)); out = slots (ring_of m) ! i in
           m\<lparr>ring_of := (ring_of m)\<lparr>slots := (slots (ring_of m))[i := mv out], read_pos := rd + 1\<rparr>,
             cons := C_idle, popped := popped m @ [out]\<rparr>)"
proof -
  let ?i = "unat (rd AND mask_bits (ring_of m))" and ?out = "slots (ring_of m) ! unat (rd AND mask_bits (ring_of m))"
  let ?m = "m\<lparr>ring_of := (ring_of m)\<lparr>slots := (slots (ring_of m))[?i := mv ?out]\<rparr>, cons := C_publish rd ?out\<rparr>"
  have "ring_step\<^sup>*\<^sup>* ?m (?m\<lparr>ring_of := (ring_of ?m)\<lparr>read_pos := rd + 1\<rparr>, cons := C_idle, popped := popped ?m @ [?out]\<rparr>)"
    by (rule ring_run [OF pop_publish rtranclp.rtrancl_refl]) simp
  with pop_read [OF assms refl, of "mv ?out"] show ?thesis
    unfolding Let_def by (rule ring_run [THEN back_subst [of "ring_step\<^sup>*\<^sup>* m"]]) simp
qed

lemma pop_checked:
  assumes "cons m = C_idle"
  shows "ring_step\<^sup>*\<^sup>* m (m\<lparr>cons := (if read_pos (ring_of m) = write_cache (ring_of m)
             then C_reload (read_pos (ring_of m)) else C_read (read_pos (ring_of m)))\<rparr>)"
  using pop_check [of "m\<lparr>cons := C_loaded (read_pos (ring_of m))\<rparr>"]
  by (intro ring_run [OF pop_load [OF assms]] ring_run [OF _ rtranclp.rtrancl_refl]) simp

lemma pop_run:
  assumes "cons m = C_idle"
  shows "ring_step\<^sup>*\<^sup>* m (m\<lparr>ring_of := fst (ring_pop mv (ring_of m)), cons := C_idle,
                         popped := popped m @ (case snd (ring_pop mv (ring_of m)) of None \<Rightarrow> [] | Some x \<Rightarrow> [x])\<rparr>)"
proof (cases "read_pos (ring_of m) = write_cache (ring_of m)")
  case False
  have "ring_step\<^sup>*\<^sup>* m (m\<lparr>cons := C_read (read_pos (ring_of m))\<rparr>)"
    using pop_checked [OF assms] False by simp
  from rtranclp_trans [OF this pop_read_publish [of _ _ mv]] False assms show ?thesis
    by (simp add: ring_pop_def Let_def)
next
  case True
  let ?m = "m\<lparr>cons := C_reload (read_pos (ring_of m))\<rparr>" and ?r = "(ring_of m)\<lparr>write_cache := write_pos (ring_of m)\<rparr>"
  have "ring_step\<^sup>*\<^sup>* m ?m" using pop_checked [OF assms] True by simp
  moreover have "ring_step ?m (m\<lparr>ring_of := ?r, cons := (if read_pos ?r = write_pos ?r then C_idle else C_read (read_pos ?r))\<rparr>)"
    using pop_reload [of ?m "read_pos (ring_of m)"] by (simp cong: if_cong split del: if_split)
  ultimately have reload: "ring_step\<^sup>*\<^sup>* m (m\<lparr>ring_of := ?r, cons := (if read_pos ?r = write_pos ?r then C_idle else C_read (read_pos ?r))\<rparr>)"
    by (rule rtranclp.rtrancl_into_rtrancl)
  show ?thesis
  proof (cases "read_pos ?r = write_pos ?r")
    case empty: True
    then show ?thesis using reload True assms by (simp add: ring_pop_def Let_def)
  next
    case False
    from reload False have "ring_step\<^sup>*\<^sup>* m (m\<lparr>ring_of := ?r, cons := C_read (read_pos ?r)\<rparr>)" by simp
    from rtranclp_trans [OF this pop_read_publish [of _ _ mv]] True False assms show ?thesis
      by (simp add: ring_pop_def Let_def)
  qed
qed

section \<open>What every interleaving guarantees\<close>

definition start_machine :: "nat ring_machine" where
  "start_machine = \<lparr>ring_of = new_ring 0 2, prod = P_idle, cons = C_idle, obs = O_idle, pushed = [], popped = []\<rparr>"

lemma start_reachable: "reachable (ring_machine_init 2) ring_step start_machine"
  by (rule reachable.start) (auto simp: ring_machine_init_def start_machine_def)

lemma one_pushed:
  "reachable (ring_machine_init 2) ring_step
     (start_machine\<lparr>ring_of := fst (ring_push 7 (new_ring 0 2)), pushed := [7]\<rparr>)"
proof -
  have "snd (ring_push (7 :: nat) (new_ring 0 2))" by code_simp
  then show ?thesis
    using reachable_trans [OF push_run [of start_machine 7] start_reachable] by (simp add: start_machine_def)
qed

text \<open>
  C27: with one producer and one consumer interleaved in any way, what the consumer got is at every
  moment a prefix of what the producer published, at most a capacity behind it, and the difference
  of the two wrapping counters is exactly the number of elements in between, also after the
  counters have wrapped.
\<close>

theorem ring_interleaved_fifo:
  assumes "unat cap \<le> 2 ^ 63" and "reachable (ring_machine_init cap) ring_step m"
  shows "\<exists>rest. pushed m = popped m @ rest \<and> length rest \<le> unat (round_up_pow2 cap) \<and>
                unat (ring_size (ring_of m)) = length rest"
proof -
  obtain k RC WC where k: "unat (round_up_pow2 cap) = 2 ^ k" "machine_at m k RC WC"
    using assms by (rule reachable_machine)
  then have at: "ring_at (ring_of m) k (length (pushed m)) (length (popped m)) RC WC"
    by (simp add: machine_at_def)
  let ?rest = "drop (length (popped m)) (pushed m)"
  have "pushed m = popped m @ ?rest" using k(2) by (metis append_take_drop_id machine_at_def)
  moreover have "length ?rest \<le> 2 ^ k" using at by (auto simp: ring_at_def)
  ultimately show ?thesis
    using ring_at_diffs(5) [OF at] k(1) by (intro exI [of _ ?rest]) (simp add: ring_size_def)
qed

theorem ring_interleaved_fifo_witness:
  "\<exists>rest. [7] = [] @ rest \<and> length rest \<le> unat (round_up_pow2 2) \<and>
          unat (ring_size (fst (ring_push (7 :: nat) (new_ring 0 2)))) = length rest"
  using ring_interleaved_fifo [OF _ one_pushed] by (simp add: start_machine_def)

text \<open>
  The producer never writes the slot the consumer is about to read or has not yet released:
  when one is at its slot access and the other between its check and its publication, the two
  slots differ. The accesses to the slots are free of races.
\<close>

theorem ring_no_slot_race:
  assumes "unat cap \<le> 2 ^ 63" and "reachable (ring_machine_init cap) ring_step m"
    and "prod m = P_store v w \<or> prod m = P_publish v w" and "cons m = C_read rd \<or> cons m = C_publish rd out"
  shows "w AND mask_bits (ring_of m) \<noteq> rd AND mask_bits (ring_of m)"
proof -
  obtain k RC WC where k: "machine_at m k RC WC"
    using assms(1,2) by (rule reachable_machine)
  let ?W = "length (pushed m)" and ?R = "length (popped m)"
  have at: "ring_at (ring_of m) k ?W ?R RC WC" and pos: "w = write_pos (ring_of m)" "rd = read_pos (ring_of m)"
    and lt: "?W < RC + 2 ^ k" "?R < WC"
    using k assms(3,4) by (auto simp: machine_at_def)
  have "?R mod 2 ^ k \<noteq> ?W mod 2 ^ k" using lt at by (intro mod_distinct) (auto simp: ring_at_def)
  then show ?thesis using ring_slot_index [OF at] pos by metis
qed

lemma both_at_slots:
  "\<exists>m. reachable (ring_machine_init 2) ring_step (m :: nat ring_machine) \<and>
       prod m = P_store 8 1 \<and> cons m = C_publish 0 7"
proof -
  let ?r = "fst (ring_push 7 (new_ring (0 :: nat) 2))" let ?m = "start_machine\<lparr>ring_of := ?r, pushed := [7]\<rparr>"
  have r: "write_pos ?r - read_cache ?r \<noteq> ring_capacity ?r" "write_pos ?r = 1" "read_pos ?r = 0"
    "read_pos ?r = write_cache ?r" "unat (0 AND mask_bits ?r) = 0" "slots ?r ! 0 = 7"
    by code_simp+
  let ?p = "?m\<lparr>prod := P_store 8 1\<rparr>"
  have p: "reachable (ring_machine_init 2) ring_step ?p"
    using reachable_trans [OF push_checked [of ?m 8] one_pushed] r by (simp add: start_machine_def)
  have c: "reachable (ring_machine_init 2) ring_step (?p\<lparr>cons := C_reload 0\<rparr>)"
    using reachable_trans [OF pop_checked [of ?p] p] r by (simp add: start_machine_def)
  have "ring_step (?p\<lparr>cons := C_reload 0\<rparr>) (?p\<lparr>ring_of := ?r\<lparr>write_cache := 1\<rparr>, cons := C_read 0\<rparr>)"
    using pop_reload [of "?p\<lparr>cons := C_reload 0\<rparr>" 0] r by simp
  note c = ring_move [OF c this]
  show ?thesis
    using ring_move [OF c pop_read [of _ 0 0 0]] r by (intro exI conjI) (auto simp: start_machine_def)
qed

theorem ring_no_slot_race_witness:
  "\<exists>m. reachable (ring_machine_init 2) ring_step (m :: nat ring_machine) \<and>
       (1 AND mask_bits (ring_of m) \<noteq> 0 AND mask_bits (ring_of m))"
proof -
  obtain m :: "nat ring_machine" where m: "reachable (ring_machine_init 2) ring_step m"
    "prod m = P_store 8 1" "cons m = C_publish 0 7"
    using both_at_slots by blast
  from ring_no_slot_race [OF _ m(1) disjI1 [OF m(2)] disjI2 [OF m(3)]] m(1) show ?thesis by auto
qed

text \<open>
  \<open>size\<close> called from a third thread reads the two counters at different moments; when elements
  pass through in between, the difference wraps and an empty ring reports \<open>2^64 - 1\<close> elements.
\<close>

theorem ring_size_torn:
  "\<exists>m. reachable (ring_machine_init 2) ring_step (m :: nat ring_machine) \<and>
       popped m = pushed m \<and> obs m = O_done (2 ^ 64 - 1)"
proof -
  let ?s = "start_machine\<lparr>obs := O_loaded 0\<rparr>"
  have "ring_step start_machine ?s"
    using size_load_write [of start_machine] by (simp add: start_machine_def new_ring_def Let_def)
  note s = ring_move [OF start_reachable this]
  let ?r = "fst (ring_push 7 (new_ring (0 :: nat) 2))"
  have r: "snd (ring_push (7 :: nat) (new_ring 0 2))" "snd (ring_pop id ?r) = Some 7" "read_pos (fst (ring_pop id ?r)) = 1"
    by code_simp+
  let ?p = "?s\<lparr>ring_of := ?r, pushed := [7]\<rparr>"
  have p: "reachable (ring_machine_init 2) ring_step ?p"
    using reachable_trans [OF push_run [of ?s 7] s] r by (simp add: start_machine_def)
  let ?q = "?p\<lparr>ring_of := fst (ring_pop id ?r), popped := [7]\<rparr>"
  have q: "reachable (ring_machine_init 2) ring_step ?q"
    using reachable_trans [OF pop_run [of ?p id] p] r by (simp add: start_machine_def)
  have "ring_step ?q (?q\<lparr>obs := O_done (0 - 1)\<rparr>)" using size_load_read [of ?q 0] r by simp
  from ring_move [OF q this] show ?thesis by (intro exI conjI) auto
qed

end
