(* ===== verification/Memory_Order.thy ===== *)
theory Memory_Order
  imports Prelude
begin

text \<open>
  Atomics below sequential consistency, as far as \<^verbatim>\<open>spsc_ring.h\<close> and its benchmark use them: relaxed and acquire loads,
  relaxed and release stores, every atomic variable written by one thread only. An atomic variable keeps all that was stored
  in it, in modification order. A load may see an old value, but none older than the thread is known to have
  seen. What happens before a thread is its \<open>view\<close>: of every thread the number of stores it had begun, and of
  every atomic variable the oldest value it may still see. A release store attaches the view of its thread to the value, an
  acquire load adds it to the view of the loading thread.

  Accesses to plain memory carry the epoch of their thread. Two accesses by different threads race, and the
  behaviour of the program is undefined, unless the epoch of the first is in the view of the second.
\<close>

datatype memory_order = Relaxed | Acquire | Release

datatype thread = Producer | Consumer

datatype atomic_var = Write_pos | Read_pos | Done

fun other :: "thread \<Rightarrow> thread" where
  "other Producer = Consumer"
| "other Consumer = Producer"

record view =
  epochs :: "thread \<Rightarrow> nat"
  oldest :: "atomic_var \<Rightarrow> nat"

definition join :: "view \<Rightarrow> view \<Rightarrow> view" where
  "join v w = \<lparr>epochs = (\<lambda>t. max (epochs v t) (epochs w t)), oldest = (\<lambda>l. max (oldest v l) (oldest w l))\<rparr>"

definition no_view :: view where
  "no_view = \<lparr>epochs = (\<lambda>_. 0), oldest = (\<lambda>_. 0)\<rparr>"

record message =
  stored :: u64
  attached :: view

record memory =
  history :: "atomic_var \<Rightarrow> message list"
  views :: "thread \<Rightarrow> view"

text \<open>Before the threads start every atomic variable holds 0, and both threads know it.\<close>

definition new_memory :: memory where
  "new_memory = \<lparr>history = (\<lambda>_. [\<lparr>stored = 0, attached = no_view\<rparr>]),
     views = (\<lambda>t. no_view\<lparr>epochs := (\<lambda>_. 0)(t := 1)\<rparr>)\<rparr>"

text \<open>A load of the value at position \<open>i\<close> of the modification order, if the thread may see it.\<close>

definition load :: "memory_order \<Rightarrow> thread \<Rightarrow> atomic_var \<Rightarrow> nat \<Rightarrow> memory \<Rightarrow> (u64 \<times> memory) option" where
  "load ord t l i m =
     (if oldest (views m t) l \<le> i \<and> i < length (history m l)
      then let v = (views m t)\<lparr>oldest := (oldest (views m t))(l := i)\<rparr>;
               msg = history m l ! i
           in Some (stored msg, m\<lparr>views := (views m)(t := if ord = Acquire then join v (attached msg) else v)\<rparr>)
      else None)"

text \<open>A store is the newest of its variable; what the thread does from now on is not in the view it attaches.\<close>

definition store :: "memory_order \<Rightarrow> thread \<Rightarrow> atomic_var \<Rightarrow> u64 \<Rightarrow> memory \<Rightarrow> memory" where
  "store ord t l x m =
     (let v = (views m t)\<lparr>oldest := (oldest (views m t))(l := length (history m l))\<rparr>
      in m\<lparr>history := (history m)(l := history m l @ [\<lparr>stored = x, attached = (if ord = Release then v else no_view)\<rparr>]),
           views := (views m)(t := v\<lparr>epochs := (epochs v)(t := Suc (epochs v t))\<rparr>)\<rparr>)"

text \<open>Plain memory: the epoch of each thread's last access to a cell, and whether an access by \<open>t\<close> races.\<close>

type_synonym cell = "thread \<Rightarrow> nat"

definition races :: "thread \<Rightarrow> memory \<Rightarrow> cell \<Rightarrow> bool" where
  "races t m c \<longleftrightarrow> epochs (views m t) (other t) < c (other t)"

definition touch :: "thread \<Rightarrow> memory \<Rightarrow> cell \<Rightarrow> cell" where
  "touch t m c = c(t := epochs (views m t) t)"

section \<open>Coherence\<close>

text \<open>No view is ahead of what was stored or begun.\<close>

definition view_ok :: "memory \<Rightarrow> view \<Rightarrow> bool" where
  "view_ok m v \<longleftrightarrow> (\<forall>l. oldest v l < length (history m l)) \<and> (\<forall>t. epochs v t \<le> epochs (views m t) t)"

definition coherent :: "memory \<Rightarrow> bool" where
  "coherent m \<longleftrightarrow> (\<forall>t. view_ok m (views m t)) \<and> (\<forall>l. \<forall>msg\<in>set (history m l). view_ok m (attached msg))"

lemma view_ok_join: "view_ok m v \<Longrightarrow> view_ok m w \<Longrightarrow> view_ok m (join v w)"
  by (simp add: view_ok_def join_def)

lemma view_ok_mono:
  assumes "view_ok m v" and "\<And>l. length (history m l) \<le> length (history m' l)"
    and "\<And>t. epochs (views m t) t \<le> epochs (views m' t) t"
  shows "view_ok m' v"
  using assms unfolding view_ok_def by (meson le_trans less_le_trans)

lemma new_memory_coherent: "coherent new_memory"
  by (simp add: coherent_def view_ok_def new_memory_def no_view_def)

lemma coherentD:
  assumes "coherent m"
  shows "view_ok m (views m t)" "i < length (history m l) \<Longrightarrow> view_ok m (attached (history m l ! i))" "history m l \<noteq> []"
proof -
  show v: "view_ok m (views m t)" for t using assms by (simp add: coherent_def)
  show "i < length (history m l) \<Longrightarrow> view_ok m (attached (history m l ! i))" using assms nth_mem by (fastforce simp: coherent_def)
  show "history m l \<noteq> []" using v [of Producer] unfolding view_ok_def by (metis list.size(3) not_less_zero)
qed

lemma load_SomeE:
  assumes "load ord t l i m = Some (x, m')"
  obtains "oldest (views m t) l \<le> i" "i < length (history m l)" "x = stored (history m l ! i)" "history m' = history m"
    "views m' = (views m)(t := (let v = (views m t)\<lparr>oldest := (oldest (views m t))(l := i)\<rparr> in
       if ord = Acquire then join v (attached (history m l ! i)) else v))"
  using assms by (auto simp: load_def Let_def split: if_splits)

lemma load_epochs:
  assumes "coherent m" and "load ord t l i m = Some (x, m')"
  shows "epochs (views m' u) u = epochs (views m u) u"
  using assms(2)
proof (rule load_SomeE)
  assume i: "i < length (history m l)"
    and v: "views m' = (views m)(t := (let v = (views m t)\<lparr>oldest := (oldest (views m t))(l := i)\<rparr> in
       if ord = Acquire then join v (attached (history m l ! i)) else v))"
  have "epochs (attached (history m l ! i)) t \<le> epochs (views m t) t"
    using coherentD(2) [OF assms(1) i] by (simp add: view_ok_def)
  then show ?thesis using v by (simp add: Let_def join_def)
qed

lemma load_coherent:
  assumes c: "coherent m" and ld: "load ord t l i m = Some (x, m')"
  shows "coherent m'"
  using ld
proof (rule load_SomeE)
  assume i: "i < length (history m l)" and h: "history m' = history m"
    and v: "views m' = (views m)(t := (let v = (views m t)\<lparr>oldest := (oldest (views m t))(l := i)\<rparr> in
       if ord = Acquire then join v (attached (history m l ! i)) else v))"
  have keep: "view_ok m' w" if "view_ok m w" for w
    using that by (rule view_ok_mono) (simp_all add: h load_epochs [OF c ld])
  have "view_ok m ((views m t)\<lparr>oldest := (oldest (views m t))(l := i)\<rparr>)" "view_ok m (attached (history m l ! i))"
    using coherentD(1) [OF c, of t] coherentD(2) [OF c i] i by (simp_all add: view_ok_def)
  then have "view_ok m (views m' u)" for u using c view_ok_join v by (simp add: coherent_def Let_def)
  then show ?thesis using c keep unfolding coherent_def h by blast
qed

lemma store_history [simp]:
  "history (store ord t l x m) l' = (if l' = l then history m l @ [\<lparr>stored = x, attached =
     (if ord = Release then (views m t)\<lparr>oldest := (oldest (views m t))(l := length (history m l))\<rparr> else no_view)\<rparr>] else history m l')"
  by (simp add: store_def Let_def)

lemma store_views [simp]:
  "epochs (views (store ord t l x m) u) = (if u = t then (epochs (views m t))(t := Suc (epochs (views m t) t)) else epochs (views m u))"
  "oldest (views (store ord t l x m) u) = (if u = t then (oldest (views m t))(l := length (history m l)) else oldest (views m u))"
  by (simp_all add: store_def Let_def)

lemma store_coherent:
  assumes c: "coherent m"
  shows "coherent (store ord t l x m)"
proof -
  let ?m = "store ord t l x m"
  have keep: "view_ok ?m w" if "view_ok m w" for w using that by (rule view_ok_mono) auto
  have own: "view_ok ?m ((views m t)\<lparr>oldest := (oldest (views m t))(l := length (history m l))\<rparr>)" "view_ok ?m no_view"
    "view_ok ?m (views ?m u)" for u
    using coherentD(1,3) [OF c] by (auto simp: view_ok_def no_view_def less_Suc_eq le_Suc_eq)
  show ?thesis unfolding coherent_def using own keep c by (auto simp: coherent_def)
qed

lemma load_mono:
  assumes "load ord t l i m = Some (x, m')"
  shows "epochs (views m u) t' \<le> epochs (views m' u) t'" "oldest (views m u) l' \<le> oldest (views m' u) l'"
  using assms by (auto elim!: load_SomeE simp: Let_def join_def le_max_iff_disj)

section \<open>Counters\<close>

text \<open>
  The counter of thread \<open>t\<close> at \<open>l\<close> after \<open>n\<close> publications: its values count up, the \<open>j\<close>-th carries the epochs
  before it, and \<open>t\<close> itself sees the newest. The other thread has acquired the first \<open>c\<close> of them.
\<close>

definition counter_at :: "memory \<Rightarrow> thread \<Rightarrow> atomic_var \<Rightarrow> nat \<Rightarrow> nat \<Rightarrow> bool" where
  "counter_at m t l n c \<longleftrightarrow>
     length (history m l) = Suc n \<and>
     (\<forall>j\<le>n. stored (history m l ! j) = of_nat j \<and> j \<le> epochs (attached (history m l ! j)) t) \<and>
     n < epochs (views m t) t \<and> oldest (views m t) l = n \<and>
     c \<le> epochs (views m (other t)) t \<and> c \<le> oldest (views m (other t)) l"

lemma other_other [simp]: "other (other t) = t" "other t \<noteq> t" "t \<noteq> other t"
  by (cases t; simp)+

lemma new_memory_counter: "counter_at new_memory t l 0 0"
  by (simp add: counter_at_def new_memory_def no_view_def)

text \<open>Loads keep what is known of a counter; the owner loads its newest value.\<close>

lemma load_counter:
  assumes c: "coherent m" and ld: "load ord u l' i m = Some (x, m')" and at: "counter_at m t l n c"
  shows "counter_at m' t l n c"
proof -
  have h: "history m' = history m" using ld by (rule load_SomeE)
  have "oldest (views m' t) l < Suc n" using coherentD(1) [OF load_coherent [OF c ld], of t] at by (metis view_ok_def counter_at_def h)
  moreover have "n \<le> oldest (views m' t) l" using load_mono(2) [OF ld, of t l] at by (simp add: counter_at_def)
  moreover have "c \<le> epochs (views m' (other t)) t" "c \<le> oldest (views m' (other t)) l"
    using load_mono [OF ld, of "other t"] at unfolding counter_at_def by (meson le_trans)+
  ultimately show ?thesis using at load_epochs [OF c ld] by (simp add: counter_at_def h)
qed

lemma load_own:
  assumes "load ord t l i m = Some (x, m')" and "counter_at m t l n c"
  shows "x = of_nat n"
  using assms by (auto elim!: load_SomeE simp: counter_at_def less_Suc_eq_le)

text \<open>The other thread loads some value it may still see, and has then acquired as many publications.\<close>

lemma load_acquire:
  assumes c: "coherent m" and ld: "load Acquire (other t) l i m = Some (x, m')" and at: "counter_at m t l n c"
  shows "c \<le> i" "i \<le> n" "x = of_nat i" "counter_at m' t l n i"
proof -
  have i: "oldest (views m (other t)) l \<le> i" "i < length (history m l)" "x = stored (history m l ! i)"
    and v: "views m' (other t) = join ((views m (other t))\<lparr>oldest := (oldest (views m (other t)))(l := i)\<rparr>) (attached (history m l ! i))"
    using ld by (auto elim!: load_SomeE)
  show b: "c \<le> i" "i \<le> n" "x = of_nat i" using i at by (auto simp: counter_at_def)
  have "i \<le> epochs (attached (history m l ! i)) t" using at b(2) by (simp add: counter_at_def)
  then have "i \<le> epochs (views m' (other t)) t" "i \<le> oldest (views m' (other t)) l" unfolding v join_def by simp_all
  then show "counter_at m' t l n i" using load_counter [OF c ld at] by (simp add: counter_at_def)
qed

text \<open>A release store of the next value; stores elsewhere leave the counter alone.\<close>

lemma store_own:
  assumes "counter_at m t l n c"
  shows "counter_at (store Release t l (of_nat n + 1) m) t l (Suc n) c"
  using assms by (auto simp: counter_at_def nth_append le_Suc_eq)

lemma store_elsewhere: "counter_at m u l' n c \<Longrightarrow> l' \<noteq> l \<Longrightarrow> counter_at (store ord t l x m) u l' n c"
  by (auto simp: counter_at_def)

end
