(* ===== verification/Ring_Weak.thy ===== *)
theory Ring_Weak
  imports Ring_Machine Memory_Order
begin

text \<open>
  \<^verbatim>\<open>spsc_ring.h\<close> under the memory orders it asks for. The machine is that of \<open>Ring_Machine\<close> without the observer, but the two
  counters are atomics of \<open>Memory_Order\<close>: a thread may read an old value of the other's counter, and what it then knows
  of the other's slot accesses is what that value carries. Slots are plain memory, on which conflicting accesses
  must be ordered; moving an element out of its slot modifies the slot. The flag \<open>racy\<close> is set by an access that is not ordered.

  The orders of the publishing stores and of the reloads are parameters of the steps: with \<^verbatim>\<open>release\<close> and \<^verbatim>\<open>acquire\<close>, as
  in the source, no run is racy and elements arrive in order; with a relaxed store there is a race.
\<close>

unbundle bit_operations_syntax

section \<open>Steps\<close>

record 'a weak_ring =
  mem :: memory
  w_mask :: u64
  w_slots :: "'a list"
  touched :: "nat \<Rightarrow> cell"
  w_read_cache :: u64
  w_write_cache :: u64
  w_prod :: "'a prod_pc"
  w_cons :: "'a cons_pc"
  racy :: bool
  w_pushed :: "'a list"
  w_popped :: "'a list"

definition w_capacity :: "'a weak_ring \<Rightarrow> u64" where
  "w_capacity w = w_mask w + 1"

definition slot_at :: "'a weak_ring \<Rightarrow> u64 \<Rightarrow> nat" where
  "slot_at w pos = unat (pos AND w_mask w)"

text \<open>An access of thread \<open>t\<close> that leaves \<open>v\<close> in slot \<open>i\<close>.\<close>

definition access_slot :: "thread \<Rightarrow> nat \<Rightarrow> 'a \<Rightarrow> 'a weak_ring \<Rightarrow> 'a weak_ring" where
  "access_slot t i v w = w\<lparr>w_slots := (w_slots w)[i := v], racy := racy w \<or> races t (mem w) (touched w i),
     touched := (touched w)(i := touch t (mem w) (touched w i))\<rparr>"

definition weak_init :: "u64 \<Rightarrow> 'a weak_ring \<Rightarrow> bool" where
  "weak_init cap w \<longleftrightarrow>
     (\<exists>d. w = \<lparr>mem = new_memory, w_mask = round_up_pow2 cap - 1, w_slots = replicate (unat (round_up_pow2 cap - 1 + 1)) d,
               touched = (\<lambda>_ _. 0), w_read_cache = 0, w_write_cache = 0, w_prod = P_idle, w_cons = C_idle, racy = False,
               w_pushed = [], w_popped = []\<rparr>)"

inductive weak_step :: "memory_order \<Rightarrow> memory_order \<Rightarrow> 'a weak_ring \<Rightarrow> 'a weak_ring \<Rightarrow> bool" for so lo where
  wpush_load:
    "w_prod w = P_idle \<Longrightarrow> load Relaxed Producer Write_pos i (mem w) = Some (x, m) \<Longrightarrow>
     weak_step so lo w (w\<lparr>mem := m, w_prod := P_loaded v x\<rparr>)"
| wpush_check:
    "w_prod w = P_loaded v x \<Longrightarrow>
     weak_step so lo w (w\<lparr>w_prod := (if x - w_read_cache w = w_capacity w then P_reload v x else P_store v x)\<rparr>)"
| wpush_reload:
    "w_prod w = P_reload v x \<Longrightarrow> load lo Producer Read_pos i (mem w) = Some (y, m) \<Longrightarrow>
     weak_step so lo w (w\<lparr>mem := m, w_read_cache := y, w_prod := (if x - y = w_capacity w then P_idle else P_store v x)\<rparr>)"
| wpush_store:
    "w_prod w = P_store v x \<Longrightarrow>
     weak_step so lo w ((access_slot Producer (slot_at w x) v w)\<lparr>w_prod := P_publish v x\<rparr>)"
| wpush_publish:
    "w_prod w = P_publish v x \<Longrightarrow>
     weak_step so lo w (w\<lparr>mem := store so Producer Write_pos (x + 1) (mem w), w_prod := P_idle, w_pushed := w_pushed w @ [v]\<rparr>)"
| wpop_load:
    "w_cons w = C_idle \<Longrightarrow> load Relaxed Consumer Read_pos i (mem w) = Some (x, m) \<Longrightarrow>
     weak_step so lo w (w\<lparr>mem := m, w_cons := C_loaded x\<rparr>)"
| wpop_check:
    "w_cons w = C_loaded x \<Longrightarrow>
     weak_step so lo w (w\<lparr>w_cons := (if x = w_write_cache w then C_reload x else C_read x)\<rparr>)"
| wpop_reload:
    "w_cons w = C_reload x \<Longrightarrow> load lo Consumer Write_pos i (mem w) = Some (y, m) \<Longrightarrow>
     weak_step so lo w (w\<lparr>mem := m, w_write_cache := y, w_cons := (if x = y then C_idle else C_read x)\<rparr>)"
| wpop_read:
    "w_cons w = C_read x \<Longrightarrow>
     weak_step so lo w ((access_slot Consumer (slot_at w x) left w)\<lparr>w_cons := C_publish x (w_slots w ! slot_at w x)\<rparr>)"
| wpop_publish:
    "w_cons w = C_publish x out \<Longrightarrow>
     weak_step so lo w (w\<lparr>mem := store so Consumer Read_pos (x + 1) (mem w), w_cons := C_idle, w_popped := w_popped w @ [out]\<rparr>)"

section \<open>Invariant\<close>

text \<open>The same ring with the newest values of its counters.\<close>

definition newest :: "atomic_var \<Rightarrow> memory \<Rightarrow> u64" where
  "newest l m = stored (last (history m l))"

definition core :: "'a weak_ring \<Rightarrow> 'a ring_machine" where
  "core w = \<lparr>ring_of = \<lparr>mask_bits = w_mask w, slots = w_slots w, write_pos = newest Write_pos (mem w), read_cache = w_read_cache w,
       read_pos = newest Read_pos (mem w), write_cache = w_write_cache w\<rparr>,
     prod = w_prod w, cons = w_cons w, obs = O_idle, pushed = w_pushed w, popped = w_popped w\<rparr>"

text \<open>The accesses of thread \<open>t\<close> went to elements before \<open>n\<close>, each in its slot and epoch.\<close>

definition accesses_at :: "(nat \<Rightarrow> cell) \<Rightarrow> thread \<Rightarrow> nat \<Rightarrow> nat \<Rightarrow> bool" where
  "accesses_at c t k n \<longleftrightarrow> (\<forall>i. c i t = 0 \<or> (\<exists>e<n. c i t = Suc e \<and> e mod 2 ^ k = i))"

fun first_unwritten :: "nat \<Rightarrow> 'a prod_pc \<Rightarrow> nat" where
  "first_unwritten W (P_publish v x) = Suc W"
| "first_unwritten W _ = W"

text \<open>The producer has made \<open>d\<close> stores to other locations since its last push.\<close>

definition weak_at :: "nat \<Rightarrow> 'a weak_ring \<Rightarrow> nat \<Rightarrow> nat \<Rightarrow> nat \<Rightarrow> bool" where
  "weak_at d w k RC WC \<longleftrightarrow>
     machine_at (core w) k RC WC \<and> coherent (mem w) \<and>
     counter_at (mem w) Producer Write_pos (length (w_pushed w)) WC \<and>
     counter_at (mem w) Consumer Read_pos (length (w_popped w)) RC \<and>
     epochs (views (mem w) Producer) Producer = Suc (length (w_pushed w)) + d \<and>
     epochs (views (mem w) Consumer) Consumer = Suc (length (w_popped w)) \<and>
     accesses_at (touched w) Producer k (first_unwritten (length (w_pushed w)) (w_prod w)) \<and>
     accesses_at (touched w) Consumer k (first_live (length (w_popped w)) (w_cons w)) \<and>
     \<not> racy w"

lemma core_fields [simp]:
  "ring_of (core w) = \<lparr>mask_bits = w_mask w, slots = w_slots w, write_pos = newest Write_pos (mem w), read_cache = w_read_cache w,
     read_pos = newest Read_pos (mem w), write_cache = w_write_cache w\<rparr>"
  "prod (core w) = w_prod w" "cons (core w) = w_cons w" "pushed (core w) = w_pushed w" "popped (core w) = w_popped w"
  by (simp_all add: core_def)

lemma access_slot_fields [simp]:
  "mem (access_slot t i v w) = mem w" "w_prod (access_slot t i v w) = w_prod w" "w_cons (access_slot t i v w) = w_cons w"
  "w_pushed (access_slot t i v w) = w_pushed w" "w_popped (access_slot t i v w) = w_popped w"
  "racy (access_slot t i v w) \<longleftrightarrow> racy w \<or> races t (mem w) (touched w i)"
  "touched (access_slot t i v w) = (touched w)(i := touch t (mem w) (touched w i))"
  by (simp_all add: access_slot_def)

text \<open>The newest values are those of the two counters, so loads of the own counter are exact.\<close>

lemma newest_at: "counter_at m t l n c \<Longrightarrow> newest l m = of_nat n"
  using last_conv_nth [of "history m l"] by (fastforce simp: newest_def counter_at_def)

lemma weak_atD:
  assumes "weak_at d w k RC WC"
  shows "machine_at (core w) k RC WC" "coherent (mem w)" "counter_at (mem w) Producer Write_pos (length (w_pushed w)) WC"
    "counter_at (mem w) Consumer Read_pos (length (w_popped w)) RC"
    "newest Write_pos (mem w) = of_nat (length (w_pushed w))" "newest Read_pos (mem w) = of_nat (length (w_popped w))"
    "ring_at (ring_of (core w)) k (length (w_pushed w)) (length (w_popped w)) RC WC"
  using assms newest_at by (auto simp: weak_at_def machine_at_def)

lemma core_load:
  assumes "coherent m" and "load ord u l i m = Some (x, m')"
  shows "newest l' m' = newest l' m"
  using assms(2) by (auto elim!: load_SomeE simp: newest_def)

text \<open>A reload may leave the cached counter behind, but never moves it back.\<close>

lemma producer_reload_old:
  assumes inv: "machine_at m k RC WC" and pc: "prod m = P_reload v x" and i: "RC \<le> i" "i \<le> length (popped m)"
  shows "machine_at (m\<lparr>ring_of := (ring_of m)\<lparr>read_cache := of_nat i\<rparr>,
    prod := (if x - of_nat i = ring_capacity (ring_of m) then P_idle else P_store v x)\<rparr>) k i WC"
proof -
  have at: "ring_at ((ring_of m)\<lparr>read_cache := of_nat i\<rparr>) k (length (pushed m)) (length (popped m)) i WC" and x: "x = write_pos (ring_of m)"
    using inv pc i by (auto simp: machine_at_def ring_at_def)
  have full: "x - of_nat i = ring_capacity (ring_of m) \<longleftrightarrow> length (pushed m) = i + 2 ^ k"
    using ring_at_diffs(1) [OF at] x by (simp add: ring_capacity_def)
  have "length (pushed m) \<le> i + 2 ^ k" using at by (simp add: ring_at_def)
  then show ?thesis using inv pc at x full by (auto simp: machine_at_def)
qed

lemma consumer_reload_old:
  assumes inv: "machine_at m k RC WC" and pc: "cons m = C_reload x" and i: "WC \<le> i" "i \<le> length (pushed m)"
  shows "machine_at (m\<lparr>ring_of := (ring_of m)\<lparr>write_cache := of_nat i\<rparr>,
    cons := (if x = of_nat i then C_idle else C_read x)\<rparr>) k RC i"
proof -
  have at: "ring_at ((ring_of m)\<lparr>write_cache := of_nat i\<rparr>) k (length (pushed m)) (length (popped m)) RC i" and x: "x = read_pos (ring_of m)"
    using inv pc i by (auto simp: machine_at_def ring_at_def)
  have empty: "x = of_nat i \<longleftrightarrow> i = length (popped m)" using ring_at_diffs(3) [OF at] x by simp
  have "length (popped m) \<le> i" using at by (simp add: ring_at_def)
  then show ?thesis using inv pc at x empty by (auto simp: machine_at_def)
qed

section \<open>No access races\<close>

lemma accesses_touch:
  assumes "accesses_at c t k n" and "epochs (views m t) t = Suc n" and "i = n mod 2 ^ k"
  shows "accesses_at (c(i := touch t m (c i))) t k (Suc n)"
  using assms by (auto simp: accesses_at_def touch_def less_Suc_eq)

lemma accesses_touch_other: "accesses_at c t k n \<Longrightarrow> accesses_at (c(i := touch (other t) m (c i))) t k n"
  by (simp add: accesses_at_def touch_def)

lemma accesses_mono: "accesses_at c t k n \<Longrightarrow> n \<le> n' \<Longrightarrow> accesses_at c t k n'"
  unfolding accesses_at_def by (meson less_le_trans)

lemma same_slot_le:
  fixes e n c :: nat
  assumes "e mod c = n mod c" and "e < n + c"
  shows "e \<le> n"
  using assms mod_distinct [of n e c] by (metis not_le)

text \<open>When the producer writes an element, the consumer's last access to the slot is one it has acquired.\<close>

lemma producer_no_race:
  assumes inv: "weak_at d w k RC WC" and pc: "w_prod w = P_store v x"
  shows "\<not> races Producer (mem w) (touched w (slot_at w x))" "slot_at w x = length (w_pushed w) mod 2 ^ k"
proof -
  let ?W = "length (w_pushed w)" and ?R = "length (w_popped w)"
  note D = weak_atD [OF inv]
  have b: "?W < RC + 2 ^ k" "x = newest Write_pos (mem w)" "RC \<le> ?R" "?R \<le> WC" "WC \<le> ?W"
    using D(1) D(7) pc by (auto simp: machine_at_def ring_at_def)
  show i: "slot_at w x = ?W mod 2 ^ k" using ring_slot_index(1) [OF D(7)] b(2) by (simp add: slot_at_def)
  have fl: "first_live ?R (w_cons w) \<le> ?W" using D(1) b by (cases "w_cons w") (auto simp: machine_at_def)
  have "touched w (slot_at w x) Consumer \<le> RC"
  proof (cases "touched w (slot_at w x) Consumer")
    case (Suc e)
    have "accesses_at (touched w) Consumer k (first_live ?R (w_cons w))" using inv by (simp add: weak_at_def)
    then have e: "e < ?W" "e mod 2 ^ k = ?W mod 2 ^ k" using Suc fl unfolding accesses_at_def i
      by (metis less_le_trans nat.distinct(1) nat.inject)+
    then have "e + 2 ^ k \<le> ?W" using mod_distinct [of e ?W "2 ^ k"] by (metis not_le)
    then show ?thesis using Suc b(1) by simp
  qed simp
  also have "RC \<le> epochs (views (mem w) Producer) Consumer" using D(4) by (simp add: counter_at_def)
  finally show "\<not> races Producer (mem w) (touched w (slot_at w x))" by (simp add: races_def)
qed

text \<open>When the consumer takes an element, the producer's last access to the slot is the one that wrote it.\<close>

lemma consumer_no_race:
  assumes inv: "weak_at d w k RC WC" and pc: "w_cons w = C_read x"
  shows "\<not> races Consumer (mem w) (touched w (slot_at w x))" "slot_at w x = length (w_popped w) mod 2 ^ k"
proof -
  let ?W = "length (w_pushed w)" and ?R = "length (w_popped w)"
  note D = weak_atD [OF inv]
  have b: "?R < WC" "x = newest Read_pos (mem w)" "RC \<le> ?R" "?W \<le> RC + 2 ^ k"
    using D(1) D(7) pc by (auto simp: machine_at_def ring_at_def)
  show i: "slot_at w x = ?R mod 2 ^ k" using ring_slot_index(2) [OF D(7)] b(2) by (simp add: slot_at_def)
  have fu: "first_unwritten ?W (w_prod w) \<le> RC + 2 ^ k" using D(1) b by (cases "w_prod w") (auto simp: machine_at_def)
  have "touched w (slot_at w x) Producer \<le> WC"
  proof (cases "touched w (slot_at w x) Producer")
    case (Suc e)
    have "accesses_at (touched w) Producer k (first_unwritten ?W (w_prod w))" using inv by (simp add: weak_at_def)
    then have "e < ?R + 2 ^ k" "e mod 2 ^ k = ?R mod 2 ^ k" using Suc fu b(3) unfolding accesses_at_def i
      by (metis add_le_mono1 less_le_trans nat.distinct(1) nat.inject)+
    then show ?thesis using same_slot_le [of e "2 ^ k" ?R] Suc b(1) by simp
  qed simp
  also have "WC \<le> epochs (views (mem w) Consumer) Producer" using D(3) by (simp add: counter_at_def)
  finally show "\<not> races Consumer (mem w) (touched w (slot_at w x))" by (simp add: races_def)
qed

section \<open>Every step keeps the invariant\<close>

lemma weak_at_load:
  assumes inv: "weak_at d w k RC WC" and ld: "load ord u l i (mem w) = Some (x, m)"
  shows "weak_at d (w\<lparr>mem := m\<rparr>) k RC WC"
proof -
  note D = weak_atD [OF inv]
  have "core (w\<lparr>mem := m\<rparr>) = core w" using core_load [OF D(2) ld] by (simp add: core_def)
  then show ?thesis using inv load_coherent [OF D(2) ld] load_counter [OF D(2) ld] load_epochs [OF D(2) ld] by (simp add: weak_at_def)
qed

lemma weak_push_load:
  assumes inv: "weak_at 0 w k RC WC" and pc: "w_prod w = P_idle" and ld: "load ord Producer Write_pos i (mem w) = Some (x, m)"
  shows "weak_at 0 (w\<lparr>mem := m, w_prod := P_loaded v x\<rparr>) k RC WC"
proof -
  have inv': "weak_at 0 (w\<lparr>mem := m\<rparr>) k RC WC" using inv ld by (rule weak_at_load)
  have x: "x = newest Write_pos m" using load_own [OF ld weak_atD(3) [OF inv]] weak_atD(5) [OF inv'] by simp
  then show ?thesis using inv' pc by (simp add: weak_at_def machine_at_def)
qed

lemma weak_push_check:
  assumes inv: "weak_at 0 w k RC WC" and pc: "w_prod w = P_loaded v x"
  shows "weak_at 0 (w\<lparr>w_prod := (if x - w_read_cache w = w_capacity w then P_reload v x else P_store v x)\<rparr>) k RC WC"
  using inv pc producer_check [OF weak_atD(1) [OF inv], of v x]
  by (auto simp: weak_at_def core_def ring_capacity_def w_capacity_def split: if_splits)

lemma weak_push_reload:
  assumes inv: "weak_at 0 w k RC WC" and pc: "w_prod w = P_reload v x" and ld: "load Acquire Producer Read_pos i (mem w) = Some (y, m)"
  shows "weak_at 0 (w\<lparr>mem := m, w_read_cache := y, w_prod := (if x - y = w_capacity w then P_idle else P_store v x)\<rparr>) k i WC"
proof -
  have D: "weak_at 0 (w\<lparr>mem := m\<rparr>) k RC WC" using inv ld by (rule weak_at_load)
  note a = load_acquire [OF weak_atD(2) [OF inv], of Consumer, simplified, OF ld weak_atD(4) [OF inv]]
  show ?thesis using D pc a(3,4) producer_reload_old [OF weak_atD(1) [OF D], of v x i] a(1,2)
    by (auto simp: weak_at_def core_def ring_capacity_def w_capacity_def split: if_splits)
qed

lemma weak_push_store:
  assumes inv: "weak_at 0 w k RC WC" and pc: "w_prod w = P_store v x"
  shows "weak_at 0 ((access_slot Producer (slot_at w x) v w)\<lparr>w_prod := P_publish v x\<rparr>) k RC WC"
proof -
  let ?w = "(access_slot Producer (slot_at w x) v w)\<lparr>w_prod := P_publish v x\<rparr>"
  note r = producer_no_race [OF inv pc]
  have "machine_at (core ?w) k RC WC"
    using producer_store [OF weak_atD(1) [OF inv], of v x] pc by (simp add: core_def access_slot_def slot_at_def)
  moreover have "accesses_at (touched ?w) Producer k (Suc (length (w_pushed w)))"
    using inv pc r(2) accesses_touch [of "touched w" Producer k "length (w_pushed w)" "mem w"]
    by (simp add: weak_at_def access_slot_def)
  moreover have "accesses_at (touched ?w) Consumer k (first_live (length (w_popped w)) (w_cons w))"
    using inv accesses_touch_other [of "touched w" Consumer] by (simp add: weak_at_def access_slot_def)
  ultimately show ?thesis using inv r(1) by (simp add: weak_at_def)
qed

lemma weak_push_publish:
  assumes inv: "weak_at 0 w k RC WC" and pc: "w_prod w = P_publish v x"
  shows "weak_at 0 (w\<lparr>mem := store Release Producer Write_pos (x + 1) (mem w), w_prod := P_idle, w_pushed := w_pushed w @ [v]\<rparr>) k RC WC"
proof -
  note D = weak_atD [OF inv]
  have x: "x = of_nat (length (w_pushed w))" using D(1,5) pc by (simp add: machine_at_def)
  have "machine_at (core (w\<lparr>mem := store Release Producer Write_pos (x + 1) (mem w), w_prod := P_idle, w_pushed := w_pushed w @ [v]\<rparr>)) k RC WC"
    using producer_publish [OF D(1), of v x] pc by (simp add: core_def newest_def)
  then show ?thesis using inv pc store_coherent [OF D(2)] store_own [OF D(3)] store_elsewhere [of "mem w"] x
    by (simp add: weak_at_def)
qed

lemma weak_pop_load:
  assumes inv: "weak_at d w k RC WC" and pc: "w_cons w = C_idle" and ld: "load ord Consumer Read_pos i (mem w) = Some (x, m)"
  shows "weak_at d (w\<lparr>mem := m, w_cons := C_loaded x\<rparr>) k RC WC"
proof -
  have inv': "weak_at d (w\<lparr>mem := m\<rparr>) k RC WC" using inv ld by (rule weak_at_load)
  have x: "x = newest Read_pos m" using load_own [OF ld weak_atD(4) [OF inv]] weak_atD(6) [OF inv'] by simp
  then show ?thesis using inv' pc by (simp add: weak_at_def machine_at_def)
qed

lemma weak_pop_check:
  assumes inv: "weak_at d w k RC WC" and pc: "w_cons w = C_loaded x"
  shows "weak_at d (w\<lparr>w_cons := (if x = w_write_cache w then C_reload x else C_read x)\<rparr>) k RC WC"
  using inv pc consumer_check [OF weak_atD(1) [OF inv], of x] by (auto simp: weak_at_def core_def split: if_splits)

lemma weak_pop_reload:
  assumes inv: "weak_at d w k RC WC" and pc: "w_cons w = C_reload x" and ld: "load Acquire Consumer Write_pos i (mem w) = Some (y, m)"
  shows "weak_at d (w\<lparr>mem := m, w_write_cache := y, w_cons := (if x = y then C_idle else C_read x)\<rparr>) k RC i"
proof -
  have D: "weak_at d (w\<lparr>mem := m\<rparr>) k RC WC" using inv ld by (rule weak_at_load)
  note a = load_acquire [OF weak_atD(2) [OF inv], of Producer, simplified, OF ld weak_atD(3) [OF inv]]
  show ?thesis using D pc a(3,4) consumer_reload_old [OF weak_atD(1) [OF D], of x i] a(1,2)
    by (auto simp: weak_at_def core_def split: if_splits)
qed

lemma weak_pop_read:
  assumes inv: "weak_at d w k RC WC" and pc: "w_cons w = C_read x"
  shows "weak_at d ((access_slot Consumer (slot_at w x) left w)\<lparr>w_cons := C_publish x (w_slots w ! slot_at w x)\<rparr>) k RC WC"
proof -
  let ?w = "(access_slot Consumer (slot_at w x) left w)\<lparr>w_cons := C_publish x (w_slots w ! slot_at w x)\<rparr>"
  note r = consumer_no_race [OF inv pc]
  have "machine_at (core ?w) k RC WC"
    using consumer_read [OF weak_atD(1) [OF inv] _ refl, of x left] pc by (simp add: core_def access_slot_def slot_at_def)
  moreover have "accesses_at (touched ?w) Consumer k (Suc (length (w_popped w)))"
    using inv pc r(2) accesses_touch [of "touched w" Consumer k "length (w_popped w)" "mem w"]
    by (simp add: weak_at_def access_slot_def)
  moreover have "accesses_at (touched ?w) Producer k (first_unwritten (length (w_pushed w)) (w_prod w))"
    using inv accesses_touch_other [of "touched w" Producer] by (simp add: weak_at_def access_slot_def)
  ultimately show ?thesis using inv r(1) by (simp add: weak_at_def)
qed

lemma weak_pop_publish:
  assumes inv: "weak_at d w k RC WC" and pc: "w_cons w = C_publish x out"
  shows "weak_at d (w\<lparr>mem := store Release Consumer Read_pos (x + 1) (mem w), w_cons := C_idle, w_popped := w_popped w @ [out]\<rparr>) k RC WC"
proof -
  note D = weak_atD [OF inv]
  have x: "x = of_nat (length (w_popped w))" using D(1,6) pc by (simp add: machine_at_def)
  have "machine_at (core (w\<lparr>mem := store Release Consumer Read_pos (x + 1) (mem w), w_cons := C_idle, w_popped := w_popped w @ [out]\<rparr>)) k RC WC"
    using consumer_publish [OF D(1), of x out] pc by (simp add: core_def newest_def)
  then show ?thesis using inv pc store_coherent [OF D(2)] store_own [OF D(4)] store_elsewhere [of "mem w"] x
    by (simp add: weak_at_def)
qed

lemma weak_at_step:
  assumes inv: "weak_at 0 w k RC WC" and step: "weak_step Release Acquire w w'"
  shows "\<exists>RC WC. weak_at 0 w' k RC WC"
  using step
proof cases
  case wpush_load
  then show ?thesis using weak_push_load [OF inv] by blast
next
  case wpush_check
  then show ?thesis using weak_push_check [OF inv] by blast
next
  case wpush_reload
  then show ?thesis using weak_push_reload [OF inv] by blast
next
  case wpush_store
  then show ?thesis using weak_push_store [OF inv] by blast
next
  case wpush_publish
  then show ?thesis using weak_push_publish [OF inv] by blast
next
  case wpop_load
  then show ?thesis using weak_pop_load [OF inv] by blast
next
  case wpop_check
  then show ?thesis using weak_pop_check [OF inv] by blast
next
  case wpop_reload
  then show ?thesis using weak_pop_reload [OF inv] by blast
next
  case wpop_read
  then show ?thesis using weak_pop_read [OF inv] by blast
next
  case wpop_publish
  then show ?thesis using weak_pop_publish [OF inv] by blast
qed

definition weak_inv :: "u64 \<Rightarrow> 'a weak_ring \<Rightarrow> bool" where
  "weak_inv cap w \<longleftrightarrow> unat cap \<le> 2 ^ 63 \<longrightarrow> (\<exists>k RC WC. round_up_pow2 cap = 2 ^ k \<and> weak_at 0 w k RC WC)"

lemma weak_init_inv: "weak_init cap w \<Longrightarrow> weak_inv cap w"
  unfolding weak_inv_def
proof
  assume i: "weak_init cap w" and cap: "unat cap \<le> 2 ^ 63"
  then obtain d where w: "w = \<lparr>mem = new_memory, w_mask = round_up_pow2 cap - 1, w_slots = replicate (unat (round_up_pow2 cap - 1 + 1)) d,
     touched = (\<lambda>_ _. 0), w_read_cache = 0, w_write_cache = 0, w_prod = P_idle, w_cons = C_idle, racy = False,
     w_pushed = [], w_popped = []\<rparr>" by (auto simp: weak_init_def)
  obtain k where k: "1 \<le> k" "k \<le> 63" "round_up_pow2 cap = 2 ^ k" using cap by (rule round_up_pow2_pow)
  have "ring_of (core w) = new_ring d cap" by (simp add: w core_def new_ring_def Let_def newest_def new_memory_def)
  then have "machine_at (core w) k 0 0" using new_ring_at [OF k, of d] by (simp add: machine_at_def live_slots_def w core_def)
  then have "weak_at 0 w k 0 0"
    by (simp add: weak_at_def w new_memory_coherent new_memory_counter accesses_at_def, simp add: new_memory_def)
  then show "\<exists>k RC WC. round_up_pow2 cap = 2 ^ k \<and> weak_at 0 w k RC WC" using k(3) by blast
qed

interpretation weak: inductive_invariant "weak_init cap" "weak_step Release Acquire" "weak_inv cap" for cap
proof
  show "weak_inv cap w'" if "weak_inv cap w" "weak_step Release Acquire w w'" for w w' :: "'a weak_ring"
    using that weak_at_step unfolding weak_inv_def by blast
qed (rule weak_init_inv)

section \<open>Runs that evaluate\<close>

text \<open>One step of a thread as a function of its choices: the value to push or to leave behind, and the position to load from.\<close>

fun producer_move :: "memory_order \<Rightarrow> memory_order \<Rightarrow> 'a \<Rightarrow> nat \<Rightarrow> 'a weak_ring \<Rightarrow> 'a weak_ring option" where
  "producer_move so lo v i w =
     (case w_prod w of
        P_idle \<Rightarrow> map_option (\<lambda>(x, m). w\<lparr>mem := m, w_prod := P_loaded v x\<rparr>) (load Relaxed Producer Write_pos i (mem w))
      | P_loaded u x \<Rightarrow> Some (w\<lparr>w_prod := (if x - w_read_cache w = w_capacity w then P_reload u x else P_store u x)\<rparr>)
      | P_reload u x \<Rightarrow> map_option (\<lambda>(y, m). w\<lparr>mem := m, w_read_cache := y,
          w_prod := (if x - y = w_capacity w then P_idle else P_store u x)\<rparr>) (load lo Producer Read_pos i (mem w))
      | P_store u x \<Rightarrow> Some ((access_slot Producer (slot_at w x) u w)\<lparr>w_prod := P_publish u x\<rparr>)
      | P_publish u x \<Rightarrow> Some (w\<lparr>mem := store so Producer Write_pos (x + 1) (mem w), w_prod := P_idle, w_pushed := w_pushed w @ [u]\<rparr>))"

fun consumer_move :: "memory_order \<Rightarrow> memory_order \<Rightarrow> 'a \<Rightarrow> nat \<Rightarrow> 'a weak_ring \<Rightarrow> 'a weak_ring option" where
  "consumer_move so lo v i w =
     (case w_cons w of
        C_idle \<Rightarrow> map_option (\<lambda>(x, m). w\<lparr>mem := m, w_cons := C_loaded x\<rparr>) (load Relaxed Consumer Read_pos i (mem w))
      | C_loaded x \<Rightarrow> Some (w\<lparr>w_cons := (if x = w_write_cache w then C_reload x else C_read x)\<rparr>)
      | C_reload x \<Rightarrow> map_option (\<lambda>(y, m). w\<lparr>mem := m, w_write_cache := y,
          w_cons := (if x = y then C_idle else C_read x)\<rparr>) (load lo Consumer Write_pos i (mem w))
      | C_read x \<Rightarrow> Some ((access_slot Consumer (slot_at w x) v w)\<lparr>w_cons := C_publish x (w_slots w ! slot_at w x)\<rparr>)
      | C_publish x out \<Rightarrow> Some (w\<lparr>mem := store so Consumer Read_pos (x + 1) (mem w), w_cons := C_idle, w_popped := w_popped w @ [out]\<rparr>))"

fun weak_run :: "memory_order \<Rightarrow> memory_order \<Rightarrow> (thread \<times> 'a \<times> nat) list \<Rightarrow> 'a weak_ring \<Rightarrow> 'a weak_ring option" where
  "weak_run so lo [] w = Some w"
| "weak_run so lo ((t, v, i) # cs) w =
     Option.bind (case t of Producer \<Rightarrow> producer_move so lo v i w | Consumer \<Rightarrow> consumer_move so lo v i w) (weak_run so lo cs)"

lemma producer_move_step: "producer_move so lo v i w = Some w' \<Longrightarrow> weak_step so lo w w'"
  by (cases "w_prod w") (auto intro: weak_step.intros)

lemma consumer_move_step: "consumer_move so lo v i w = Some w' \<Longrightarrow> weak_step so lo w w'"
  by (cases "w_cons w") (auto intro: weak_step.intros)

declare producer_move.simps [simp del] consumer_move.simps [simp del]

lemma weak_run_steps: "weak_run so lo cs w = Some w' \<Longrightarrow> (weak_step so lo)\<^sup>*\<^sup>* w w'"
proof (induction cs arbitrary: w)
  case (Cons c cs)
  obtain t v i where c: "c = (t, v, i)" by (metis prod_cases3)
  obtain u where u: "weak_step so lo w u" "weak_run so lo cs u = Some w'"
    using Cons.prems producer_move_step consumer_move_step unfolding c by (cases t) (fastforce simp: bind_eq_Some_conv)+
  then show ?case using Cons.IH by (meson converse_rtranclp_into_rtranclp)
qed simp

definition weak_start :: "nat weak_ring" where
  "weak_start = \<lparr>mem = new_memory, w_mask = 1, w_slots = [0, 0], touched = (\<lambda>_ _. 0), w_read_cache = 0, w_write_cache = 0,
     w_prod = P_idle, w_cons = C_idle, racy = False, w_pushed = [], w_popped = []\<rparr>"

lemma weak_start_init: "weak_init 2 weak_start"
proof -
  have "round_up_pow2 2 = 2" by code_simp
  moreover have "replicate (unat (2 - 1 + 1 :: u64)) 0 = [0, 0 :: nat]" by code_simp
  ultimately show ?thesis unfolding weak_init_def by (intro exI [of _ 0]) (simp add: weak_start_def)
qed

lemma weak_run_reach:
  "\<not> Option.is_none (weak_run so lo cs weak_start) \<Longrightarrow>
     reachable (weak_init 2) (weak_step so lo) (the (weak_run so lo cs weak_start))"
  using reachable_trans [OF weak_run_steps reachable.start [of "weak_init 2", OF weak_start_init]]
  by (cases "weak_run so lo cs weak_start") auto

section \<open>What the memory orders guarantee\<close>

text \<open>
  C4: with the orders of the source, \<^verbatim>\<open>release\<close> for the publishing stores and \<^verbatim>\<open>acquire\<close> for the reloads, no two accesses to
  a slot race, in whatever order the threads run and however old the counter values are that they see. The consumer gets a
  prefix of what was published, in order, and never falls more than the capacity behind.
\<close>

theorem ring_release_acquire:
  assumes "unat cap \<le> 2 ^ 63" and "reachable (weak_init cap) (weak_step Release Acquire) w"
  shows "\<not> racy w \<and> (\<exists>rest. w_pushed w = w_popped w @ rest \<and> length rest \<le> unat (round_up_pow2 cap))"
proof -
  obtain k RC WC where k: "round_up_pow2 cap = 2 ^ k" "weak_at 0 w k RC WC"
    using weak.reachable_inv [OF assms(2)] assms(1) by (auto simp: weak_inv_def)
  note D = weak_atD [OF k(2)]
  let ?rest = "drop (length (w_popped w)) (w_pushed w)"
  have b: "length (w_pushed w) \<le> length (w_popped w) + 2 ^ k" "k \<le> 63" using D(7) by (auto simp: ring_at_def)
  have "w_popped w = take (length (w_popped w)) (w_pushed w)" using D(1) by (simp add: machine_at_def)
  then have "w_pushed w = w_popped w @ ?rest" by (metis append_take_drop_id)
  moreover have "length ?rest \<le> unat (round_up_pow2 cap)" using b k(1) by (simp add: unat_pow2)
  ultimately show ?thesis using k(2) unfolding weak_at_def by blast
qed

text \<open>The producer publishes 7 and 8; the consumer, which at first sees none, then only the first, takes it.\<close>

definition late_view :: "(thread \<times> nat \<times> nat) list" where
  "late_view = replicate 4 (Producer, 7, 0) @ replicate 4 (Producer, 8, 1) @
     [(Consumer, 0, 0), (Consumer, 0, 0), (Consumer, 0, 0), (Consumer, 0, 0), (Consumer, 0, 0), (Consumer, 0, 1), (Consumer, 9, 0), (Consumer, 0, 0)]"

theorem ring_release_acquire_witness:
  "\<not> racy (the (weak_run Release Acquire late_view weak_start)) \<and>
   w_popped (the (weak_run Release Acquire late_view weak_start)) = [7] \<and>
   (\<exists>rest. w_pushed (the (weak_run Release Acquire late_view weak_start)) = [7] @ rest \<and> length rest \<le> unat (round_up_pow2 2))"
proof -
  have "\<not> Option.is_none (weak_run Release Acquire late_view weak_start)" by code_simp
  note r = ring_release_acquire [OF _ weak_run_reach [OF this]]
  have "w_popped (the (weak_run Release Acquire late_view weak_start)) = [7]" by code_simp
  then show ?thesis using r by auto
qed

text \<open>
  The comment at the publishing store says what \<^verbatim>\<open>release\<close> is for. With a relaxed store the consumer may see the
  counter advance before the slot is written: its access races with the producer's.
\<close>

theorem relaxed_store_races:
  "\<exists>w. reachable (weak_init 2) (weak_step Relaxed Acquire) (w :: nat weak_ring) \<and> racy w"
proof -
  let ?cs = "replicate 4 (Producer, 7, 0) @ [(Consumer, 0, 0), (Consumer, 0, 0), (Consumer, 0, 1), (Consumer, 9, 0)]"
  have "\<not> Option.is_none (weak_run Relaxed Acquire ?cs weak_start)" "racy (the (weak_run Relaxed Acquire ?cs weak_start))" by code_simp+
  then show ?thesis using weak_run_reach by blast
qed

text \<open>A relaxed reload is no better: it sees the counter without what the store attached to it.\<close>

theorem relaxed_load_races:
  "\<exists>w. reachable (weak_init 2) (weak_step Release Relaxed) (w :: nat weak_ring) \<and> racy w"
proof -
  let ?cs = "replicate 4 (Producer, 7, 0) @ [(Consumer, 0, 0), (Consumer, 0, 0), (Consumer, 0, 1), (Consumer, 9, 0)]"
  have "\<not> Option.is_none (weak_run Release Relaxed ?cs weak_start)" "racy (the (weak_run Release Relaxed ?cs weak_start))" by code_simp+
  then show ?thesis using weak_run_reach by blast
qed

end
