(* ===== verification/Double.thy ===== *)
theory Double
  imports Complex_Main Prelude
begin

text \<open>
  The part of IEEE 754 binary64 arithmetic that \<^verbatim>\<open>Histogram\<close> uses: conversion from a 64-bit
  unsigned integer, multiplication, division and comparison, rounding to nearest with ties to
  even, with gradual underflow and overflow to infinity. A finite double is a rational; the two
  zeros are not told apart, which none of these operations on the values in question can see.

  The facts the clients use are those of the locale \<open>rounding\<close>: rounding is monotone and keeps
  the doubles.
\<close>

section \<open>Widths\<close>

text \<open>\<^verbatim>\<open>std::bit_width\<close>.\<close>

fun bit_width :: "nat \<Rightarrow> nat" where
  "bit_width n = (if n = 0 then 0 else Suc (bit_width (n div 2)))"

declare bit_width.simps [simp del]

lemma bit_width_bounds: "0 < n \<Longrightarrow> 2 ^ (bit_width n - 1) \<le> n" "n < 2 ^ bit_width n"
proof (induction n rule: bit_width.induct)
  case (1 n)
  have lt: "n < 2 ^ bit_width n"
  proof (cases "n = 0")
    case False
    then have "n div 2 < 2 ^ bit_width (n div 2)" using 1(2) by simp
    then show ?thesis using False bit_width.simps [of n] by simp
  qed (simp add: bit_width.simps)
  have le: "2 ^ (bit_width n - 1) \<le> n" if "0 < n"
  proof (cases "n div 2 = 0")
    case True
    then have "n = 1" using that by simp
    then have "bit_width n = 1" using bit_width.simps [of n] bit_width.simps [of 0] by simp
    then show ?thesis using that by simp
  next
    case False
    then have "2 ^ (bit_width (n div 2) - 1) \<le> n div 2" and "bit_width (n div 2) \<noteq> 0"
      using 1(1) that bit_width.simps [of "n div 2"] by auto
    then have "2 * 2 ^ (bit_width (n div 2) - 1) \<le> n" "2 * 2 ^ (bit_width (n div 2) - 1) = (2 :: nat) ^ bit_width (n div 2)"
      using power_eq_if [of "2 :: nat" "bit_width (n div 2)"] by simp_all
    then show ?thesis using that bit_width.simps [of n] by simp
  qed
  show "0 < n \<Longrightarrow> 2 ^ (bit_width n - 1) \<le> n" "n < 2 ^ bit_width n" using le lt by simp_all
qed

lemma bit_width_pos: "0 < n \<Longrightarrow> 0 < bit_width n"
  by (simp add: bit_width.simps [of n])

lemma bit_width_eq:
  assumes "2 ^ e \<le> n" and "n < 2 ^ Suc e"
  shows "bit_width n = Suc e"
proof -
  have n: "0 < n" using assms(1) by (meson less_le_trans zero_less_numeral zero_less_power)
  have "2 ^ e < (2 :: nat) ^ bit_width n" "2 ^ (bit_width n - 1) < (2 :: nat) ^ Suc e"
    using bit_width_bounds(1) [OF n] bit_width_bounds(2) [of n] assms by linarith+
  then have "e < bit_width n" "bit_width n - 1 < Suc e" by (simp_all add: power_strict_increasing_iff del: power_Suc)
  then show ?thesis by simp
qed

section \<open>Rounding to an integer\<close>

definition round_even :: "rat \<Rightarrow> int" where
  "round_even x =
     (let f = \<lfloor>x\<rfloor>; d = x - of_int f
      in if d < 1 / 2 then f else if 1 / 2 < d then f + 1 else if even f then f else f + 1)"

lemma round_even_bounds: "\<lfloor>x\<rfloor> \<le> round_even x" "round_even x \<le> \<lfloor>x\<rfloor> + 1"
  by (simp_all add: round_even_def Let_def)

lemma round_even_of_int [simp]: "round_even (of_int z) = z"
  by (simp add: round_even_def)

lemma round_even_mono:
  assumes "x \<le> y"
  shows "round_even x \<le> round_even y"
proof (cases "\<lfloor>x\<rfloor> = \<lfloor>y\<rfloor>")
  case True
  then show ?thesis using assms by (simp add: round_even_def Let_def)
next
  case False
  then have "\<lfloor>x\<rfloor> + 1 \<le> \<lfloor>y\<rfloor>" using floor_mono [OF assms] by linarith
  then show ?thesis using round_even_bounds(2) [of x] round_even_bounds(1) [of y] by linarith
qed

section \<open>Rounding to 53 significant bits\<close>

text \<open>The exponent of a positive rational: \<open>2 powi expo x \<le> x < 2 powi (expo x + 1)\<close>.\<close>

definition expo :: "rat \<Rightarrow> int" where
  "expo x =
     (let (n, d) = quotient_of x; e = int (bit_width (nat n)) - int (bit_width (nat d))
      in if 2 powi e \<le> x then e else e - 1)"

definition ulp_exp :: "rat \<Rightarrow> int" where
  "ulp_exp x = max (expo x - 52) (- 1074)"

definition rnd_pos :: "rat \<Rightarrow> rat" where
  "rnd_pos x = (if x = 0 then 0 else of_int (round_even (x / 2 powi ulp_exp x)) * 2 powi ulp_exp x)"

definition rnd :: "rat \<Rightarrow> rat" where
  "rnd x = (if x < 0 then - rnd_pos (- x) else rnd_pos x)"

lemma two_powi_add: "(2 :: rat) powi a * 2 powi b = 2 powi (a + b)"
  by (simp add: power_int_add)

lemma expo_bounds:
  assumes "0 < x"
  shows "2 powi expo x \<le> x" and "x < 2 powi (expo x + 1)"
proof -
  obtain n d where q: "quotient_of x = (n, d)" by fastforce
  have d: "0 < d" and x: "x = of_int n / of_int d" using q quotient_of_denom_pos quotient_of_div by blast+
  have n: "0 < n" using assms x d by (simp add: zero_less_divide_iff)
  let ?bn = "bit_width (nat n)" and ?bd = "bit_width (nat d)"
  have pos: "0 < ?bn" "0 < ?bd" using n d bit_width_pos by simp_all
  have up: "(of_int m :: rat) < 2 powi int (bit_width (nat m))" if "0 < m" for m
  proof -
    have "int (nat m) < int (2 ^ bit_width (nat m))" using bit_width_bounds(2) [of "nat m"] by (simp only: of_nat_less_iff)
    then have "m < 2 ^ bit_width (nat m)" using that by simp
    then have "(of_int m :: rat) < of_int (2 ^ bit_width (nat m))" by (simp only: of_int_less_iff)
    then show ?thesis by simp
  qed
  have lo: "2 powi (int (bit_width (nat m)) - 1) \<le> (of_int m :: rat)" if "0 < m" for m
  proof -
    have "int (2 ^ (bit_width (nat m) - 1)) \<le> int (nat m)"
      using bit_width_bounds(1) [of "nat m"] that by simp
    then have "2 ^ (bit_width (nat m) - 1) \<le> m" using that by simp
    then have "(of_int (2 ^ (bit_width (nat m) - 1)) :: rat) \<le> of_int m" by (simp only: of_int_le_iff)
    moreover have "int (bit_width (nat m)) - 1 = int (bit_width (nat m) - 1)"
      using bit_width_pos [of "nat m"] that by simp
    ultimately show ?thesis by (simp only: power_int_of_nat) simp
  qed
  have dp: "(0 :: rat) < of_int d" using d by simp
  have "2 powi (int ?bn - int ?bd - 1) * (of_int d :: rat) \<le> 2 powi (int ?bn - int ?bd - 1) * 2 powi int ?bd"
    using up [OF d] by (intro mult_left_mono) simp_all
  also have "\<dots> = 2 powi (int ?bn - 1)" by (simp only: two_powi_add) simp
  also have "\<dots> \<le> of_int n" using lo [OF n] .
  finally have "2 powi (int ?bn - int ?bd - 1) \<le> x" using dp x by (simp add: le_divide_eq)
  moreover have "x < 2 powi (int ?bn - int ?bd + 1)"
  proof -
    have "of_int n < (2 :: rat) powi int ?bn" using up [OF n] .
    also have "\<dots> = 2 powi (int ?bn - int ?bd + 1) * 2 powi (int ?bd - 1)" by (simp only: two_powi_add) simp
    also have "\<dots> \<le> 2 powi (int ?bn - int ?bd + 1) * of_int d"
      using lo [OF d] by (intro mult_left_mono) simp_all
    finally show ?thesis using dp x by (simp add: divide_less_eq)
  qed
  ultimately show "2 powi expo x \<le> x" and "x < 2 powi (expo x + 1)" by (auto simp: expo_def q Let_def)
qed

section \<open>Monotone and exact\<close>

lemma expo_mono:
  assumes "0 < x" and "x \<le> y"
  shows "expo x \<le> expo y"
proof (rule ccontr)
  assume "\<not> expo x \<le> expo y"
  then have "expo y + 1 \<le> expo x" by linarith
  then have "(2 :: rat) powi (expo y + 1) \<le> 2 powi expo x" by (intro power_int_increasing) simp_all
  then show False using expo_bounds [of x] expo_bounds [of y] assms by linarith
qed

text \<open>A multiple of the spacing at \<open>x\<close> that bounds \<open>x\<close> bounds its rounding.\<close>

lemma rnd_pos_grid:
  assumes "0 < x" and "0 \<le> z"
  shows "x \<le> of_int z * 2 powi ulp_exp x \<Longrightarrow> rnd_pos x \<le> of_int z * 2 powi ulp_exp x"
    and "of_int z * 2 powi ulp_exp x \<le> x \<Longrightarrow> of_int z * 2 powi ulp_exp x \<le> rnd_pos x"
proof -
  let ?u = "2 powi ulp_exp x :: rat"
  have u: "0 < ?u" by simp
  have r: "rnd_pos x = of_int (round_even (x / ?u)) * ?u" using assms by (simp add: rnd_pos_def)
  show "rnd_pos x \<le> of_int z * ?u" if "x \<le> of_int z * ?u"
  proof -
    have "x / ?u \<le> of_int z" using that u by (simp add: divide_le_eq)
    then have "round_even (x / ?u) \<le> z" using round_even_mono [of "x / ?u" "of_int z"] by simp
    then show ?thesis unfolding r using u by (intro mult_right_mono) simp_all
  qed
  show "of_int z * ?u \<le> rnd_pos x" if "of_int z * ?u \<le> x"
  proof -
    have "of_int z \<le> x / ?u" using that u by (simp add: le_divide_eq)
    then have "z \<le> round_even (x / ?u)" using round_even_mono [of "of_int z" "x / ?u"] by simp
    then show ?thesis unfolding r using u by (intro mult_right_mono) simp_all
  qed
qed

lemma power_on_grid:
  assumes "ulp_exp x \<le> e"
  shows "(2 :: rat) powi e = of_int (2 ^ nat (e - ulp_exp x)) * 2 powi ulp_exp x"
proof -
  have "(of_int (2 ^ nat (e - ulp_exp x)) :: rat) = 2 powi (e - ulp_exp x)"
    using assms by (simp add: power_int_def)
  then show ?thesis by (simp only: two_powi_add) simp
qed

lemma rnd_pos_nonneg: "0 \<le> x \<Longrightarrow> 0 \<le> rnd_pos x"
  using rnd_pos_grid(2) [of x 0] by (cases "x = 0") (simp_all add: rnd_pos_def)

lemma rnd_pos_mono:
  assumes "0 \<le> x" and "x \<le> y"
  shows "rnd_pos x \<le> rnd_pos y"
proof (cases "x = 0")
  case True
  then show ?thesis using assms rnd_pos_nonneg [of y] by (simp add: rnd_pos_def)
next
  case False
  then have x: "0 < x" and y: "0 < y" using assms by simp_all
  have e: "expo x \<le> expo y" using x assms(2) by (rule expo_mono)
  show ?thesis
  proof (cases "ulp_exp x = ulp_exp y")
    case True
    have "x / 2 powi ulp_exp y \<le> y / 2 powi ulp_exp y" using assms(2) by (intro divide_right_mono) simp_all
    then show ?thesis using x y round_even_mono by (simp add: rnd_pos_def True mult_right_mono)
  next
    case False
    then have lt: "ulp_exp x < ulp_exp y" and "expo x < expo y" and u: "ulp_exp y = expo y - 52"
      using e by (auto simp: ulp_exp_def)
    then have "(2 :: rat) powi (expo x + 1) \<le> 2 powi expo y" by (intro power_int_increasing) simp_all
    then have "x \<le> 2 powi expo y" using expo_bounds(2) [OF x] by linarith
    then have "rnd_pos x \<le> 2 powi expo y"
      using rnd_pos_grid(1) [OF x, of "2 ^ nat (expo y - ulp_exp x)"] power_on_grid [of x "expo y"] lt u
      by simp
    also have "\<dots> \<le> rnd_pos y"
      using rnd_pos_grid(2) [OF y, of "2 ^ nat (expo y - ulp_exp y)"] expo_bounds(1) [OF y] u
        power_on_grid [of y "expo y"]
      by simp
    finally show ?thesis .
  qed
qed

lemma rnd_mono: "x \<le> y \<Longrightarrow> rnd x \<le> rnd y"
  using rnd_pos_mono [of x y] rnd_pos_mono [of "- y" "- x"] rnd_pos_nonneg [of "- x"] rnd_pos_nonneg [of y]
  by (auto simp: rnd_def)

lemma on_grid:
  assumes "0 < x" and "0 \<le> z" and "x = of_int z * 2 powi u" and "ulp_exp x \<le> u"
  shows "rnd_pos x = x"
proof -
  let ?z = "z * 2 ^ nat (u - ulp_exp x)"
  have "x = of_int ?z * 2 powi ulp_exp x" using power_on_grid [OF assms(4)] assms(3) by simp
  moreover have "0 \<le> ?z" using assms(2) by simp
  ultimately show ?thesis using rnd_pos_grid [OF assms(1), of ?z] by auto
qed

lemma rnd_exact_lt:
  assumes "0 \<le> z" and "z < 2 ^ 53" and "- 1074 \<le> u" and x: "x = of_int z * 2 powi u"
  shows "rnd_pos x = x"
proof (cases "z = 0")
  case False
  then have "0 < x" using assms by simp
  have "(of_int z :: rat) < of_int (2 ^ 53)" using assms(2) by (simp only: of_int_less_iff)
  then have "x < 2 powi 53 * 2 powi u" using x by simp
  then have "2 powi expo x < (2 :: rat) powi (53 + u)"
    using expo_bounds(1) [OF \<open>0 < x\<close>] unfolding two_powi_add by linarith
  then have "expo x < 53 + u" by (meson not_le one_le_numeral power_int_increasing)
  then have "ulp_exp x \<le> u" using assms(3) by (simp add: ulp_exp_def)
  then show ?thesis using \<open>0 < x\<close> assms(1) x by (intro on_grid)
qed (simp add: x rnd_pos_def)

lemma rnd_exact:
  assumes "0 \<le> z" and "z \<le> 2 ^ 53" and "- 1074 \<le> u" and x: "x = of_int z * 2 powi u"
  shows "rnd_pos x = x"
proof (cases "z = 2 ^ 53")
  case True
  have "(2 :: rat) powi (u + 1) = 2 * 2 powi u" using two_powi_add [of 1 u] by (simp add: add.commute)
  then have "x = of_int (2 ^ 52) * 2 powi (u + 1)" using x True by simp
  then show ?thesis using assms(3) by (intro rnd_exact_lt [of "2 ^ 52" "u + 1"]) simp_all
qed (use assms rnd_exact_lt [of z u x] in auto)

lemma rnd_nat [simp]: "n \<le> 2 ^ 53 \<Longrightarrow> rnd (of_nat n) = of_nat n"
  using rnd_exact [of "int n" 0 "of_nat n"] by (simp add: rnd_def)

lemma rnd_pos_idem:
  assumes "0 \<le> x"
  shows "rnd_pos (rnd_pos x) = rnd_pos x"
proof (cases "x = 0")
  case False
  then have x: "0 < x" using assms by simp
  let ?u = "ulp_exp x"
  let ?z = "round_even (x / 2 powi ?u)"
  have r: "rnd_pos x = of_int ?z * 2 powi ?u" using False by (simp add: rnd_pos_def)
  have "expo x + 1 \<le> 53 + ?u" by (simp add: ulp_exp_def)
  then have "(2 :: rat) powi (expo x + 1) \<le> 2 powi 53 * 2 powi ?u"
    unfolding two_powi_add by (intro power_int_increasing) simp_all
  then have "x / 2 powi ?u \<le> of_int (2 ^ 53)" using expo_bounds(2) [OF x] by (simp add: divide_le_eq)
  then have "?z \<le> 2 ^ 53" using round_even_mono [of _ "of_int (2 ^ 53)"] by (metis round_even_of_int)
  moreover have "0 \<le> ?z" using round_even_mono [of "of_int 0" "x / 2 powi ?u"] x
    by (simp add: round_even_of_int [of 0, simplified])
  ultimately show ?thesis by (intro rnd_exact [OF _ _ _ r]) (simp_all add: ulp_exp_def)
qed (simp add: rnd_pos_def)

lemma rnd_idem: "rnd (rnd x) = rnd x"
  using rnd_pos_idem [of x] rnd_pos_idem [of "- x"] rnd_pos_nonneg [of x] rnd_pos_nonneg [of "- x"]
  by (auto simp: rnd_def rnd_pos_def)

lemma rnd_0 [simp]: "rnd 0 = 0" and rnd_1 [simp]: "rnd 1 = 1"
  using rnd_nat [of 1] by (simp_all add: rnd_def rnd_pos_def)

section \<open>Doubles\<close>

datatype double = NaN | Infinity bool | Finite rat

text \<open>\<open>Infinity True\<close> is the negative one.\<close>

definition to_double :: "rat \<Rightarrow> double" where
  "to_double x = (let r = rnd x in if 2 ^ 1024 \<le> \<bar>r\<bar> then Infinity (r < 0) else Finite r)"

definition double_of_u64 :: "u64 \<Rightarrow> double" where
  "double_of_u64 n = to_double (of_nat (unat n))"

fun double_mul :: "double \<Rightarrow> double \<Rightarrow> double" where
  "double_mul (Finite x) (Finite y) = to_double (x * y)"
| "double_mul NaN _ = NaN"
| "double_mul _ NaN = NaN"
| "double_mul (Infinity s) (Infinity t) = Infinity (s \<noteq> t)"
| "double_mul (Infinity s) (Finite y) = (if y = 0 then NaN else Infinity (s \<noteq> (y < 0)))"
| "double_mul (Finite x) (Infinity t) = (if x = 0 then NaN else Infinity ((x < 0) \<noteq> t))"

text \<open>Division by a zero, whose sign the model does not keep, takes it as positive.\<close>

fun double_div :: "double \<Rightarrow> double \<Rightarrow> double" where
  "double_div (Finite x) (Finite y) =
     (if y \<noteq> 0 then to_double (x / y) else if x = 0 then NaN else Infinity (x < 0))"
| "double_div NaN _ = NaN"
| "double_div _ NaN = NaN"
| "double_div (Infinity s) (Infinity t) = NaN"
| "double_div (Infinity s) (Finite y) = Infinity (s \<noteq> (y < 0))"
| "double_div (Finite x) (Infinity t) = Finite 0"

fun double_less :: "double \<Rightarrow> double \<Rightarrow> bool" where
  "double_less (Finite x) (Finite y) \<longleftrightarrow> x < y"
| "double_less NaN _ \<longleftrightarrow> False"
| "double_less _ NaN \<longleftrightarrow> False"
| "double_less (Infinity s) (Infinity t) \<longleftrightarrow> s \<and> \<not> t"
| "double_less (Infinity s) (Finite y) \<longleftrightarrow> s"
| "double_less (Finite x) (Infinity t) \<longleftrightarrow> \<not> t"

text \<open>\<^verbatim>\<open>a >= b\<close> is false when either side is not a number.\<close>

definition double_ge :: "double \<Rightarrow> double \<Rightarrow> bool" where
  "double_ge a b \<longleftrightarrow> a \<noteq> NaN \<and> b \<noteq> NaN \<and> \<not> double_less a b"

lemma to_double_finite:
  assumes "0 \<le> x" and "x \<le> 2 ^ 64"
  shows "to_double x = Finite (rnd x)"
proof -
  have "rnd (2 ^ 64) = 2 ^ 64" using rnd_exact [of 1 64 "2 ^ 64"] by (simp add: rnd_def)
  then have "0 \<le> rnd x" "rnd x \<le> 2 ^ 64" using rnd_mono [OF assms(1)] rnd_mono [OF assms(2)] by simp_all
  moreover have "(2 :: rat) ^ 64 < 2 ^ 1024" by (intro power_strict_increasing) simp_all
  ultimately show ?thesis by (simp add: to_double_def Let_def abs_of_nonneg)
qed

text \<open>What the clients rely on.\<close>

locale rounding =
  fixes r :: "rat \<Rightarrow> rat"
  assumes mono: "x \<le> y \<Longrightarrow> r x \<le> r y"
    and idem: "r (r x) = r x"
    and nat: "n \<le> 2 ^ 53 \<Longrightarrow> r (of_nat n) = of_nat n"
begin

lemma bounded: "0 \<le> x \<Longrightarrow> x \<le> of_nat n \<Longrightarrow> n \<le> 2 ^ 53 \<Longrightarrow> 0 \<le> r x \<and> r x \<le> of_nat n"
  using mono [of 0 x] mono [of x "of_nat n"] nat [of 0] nat [of n] by simp

text \<open>A fraction of a number, each operation rounded, is at most the rounded number.\<close>

lemma fraction:
  assumes "0 \<le> x" and "x \<le> 1" and "0 \<le> y"
  shows "r (r x * r y) \<le> r y" and "0 \<le> r (r x * r y)"
proof -
  have x: "0 \<le> r x" "r x \<le> 1" using bounded [of x 1] assms by simp_all
  have y: "0 \<le> r y" using mono [OF assms(3)] nat [of 0] by simp
  have "r x * r y \<le> 1 * r y" using x y by (intro mult_right_mono)
  then have "r (r x * r y) \<le> r (r y)" by (intro mono) simp
  then show "r (r x * r y) \<le> r y" by (simp add: idem)
  show "0 \<le> r (r x * r y)" using mono [of 0 "r x * r y"] nat [of 0] x y by simp
qed

end

interpretation binary64: rounding rnd
  by unfold_locales (simp_all add: rnd_mono rnd_idem)

end
