(* ===== verification/Histogram.thy ===== *)
theory Histogram
  imports Double "HOL-Library.Multiset"
begin

text \<open>
  \<^verbatim>\<open>code/include/rdb/metrics/histogram.h\<close>: the log-linear histogram. Values below 64 have a bucket
  each; every power-of-two range above is cut into 64 buckets of equal width. Values, counters and
  sums are 64-bit words that wrap; a bucket index is a \<open>nat\<close>; \<^verbatim>\<open>double\<close> is that of \<open>Double\<close>.

  The laws of the two bucket functions are one equivalence, \<open>index_of_le_iff\<close>: a value is in one of
  the buckets up to \<open>i\<close> exactly if it is at most the upper bound of \<open>i\<close>. The contents of a histogram are
  specified by the multiset of the recorded values (\<open>histogram_of\<close>).
\<close>

unbundle bit_operations_syntax

section \<open>Buckets\<close>

definition kSubBits :: nat where "kSubBits = 6"
definition kSubCount :: u64 where "kSubCount = push_bit kSubBits 1"
definition kBucketCount :: nat where "kBucketCount = unat kSubCount * (64 - kSubBits + 1)"

definition index_of :: "u64 \<Rightarrow> nat" where
  "index_of value =
     (if value < kSubCount then unat value
      else let exponent = bit_width (unat value) - 1;
               shift = exponent - kSubBits;
               sub = drop_bit shift (value - push_bit exponent 1)
           in unat (kSubCount + of_nat shift * kSubCount + sub))"

definition bucket_upper :: "nat \<Rightarrow> u64" where
  "bucket_upper index =
     (if index < unat kSubCount then of_nat index
      else let rel = of_nat index - kSubCount;
               shift = unat (rel div kSubCount);
               sub = rel mod kSubCount;
               exponent = shift + kSubBits;
               width = push_bit shift 1
           in push_bit exponent 1 + (sub + 1) * width - 1)"

section \<open>The histogram\<close>

record Histogram =
  counts :: "u64 list"
  count_f :: u64
  sum_f :: u64
  min_f :: u64
  max_f :: u64

definition new_histogram :: Histogram where
  "new_histogram =
     \<lparr>counts = replicate kBucketCount 0, count_f = 0, sum_f = 0, min_f = 2 ^ 64 - 1, max_f = 0\<rparr>"

definition record_value :: "u64 \<Rightarrow> Histogram \<Rightarrow> Histogram" where
  "record_value value h =
     (let i = index_of value;
          h = h\<lparr>counts := (counts h)[i := counts h ! i + 1]\<rparr>;
          h = h\<lparr>count_f := count_f h + 1\<rparr>;
          h = h\<lparr>sum_f := sum_f h + value\<rparr>;
          h = (if value < min_f h then h\<lparr>min_f := value\<rparr> else h)
      in if value > max_f h then h\<lparr>max_f := value\<rparr> else h)"

fun add_counts :: "nat list \<Rightarrow> u64 list \<Rightarrow> u64 list \<Rightarrow> u64 list" where
  "add_counts [] cs ds = cs"
| "add_counts (i # is) cs ds = add_counts is (cs[i := cs ! i + ds ! i]) ds"

definition merge :: "Histogram \<Rightarrow> Histogram \<Rightarrow> Histogram" where
  "merge h other =
     h\<lparr>counts := add_counts [0..<kBucketCount] (counts h) (counts other),
       count_f := count_f h + count_f other,
       sum_f := sum_f h + sum_f other,
       min_f := min (min_f h) (min_f other),
       max_f := max (max_f h) (max_f other)\<rparr>"

definition reset_histogram :: "Histogram \<Rightarrow> Histogram" where
  "reset_histogram h =
     h\<lparr>counts := replicate (length (counts h)) 0, count_f := 0, sum_f := 0, min_f := 2 ^ 64 - 1, max_f := 0\<rparr>"

definition count_value :: "Histogram \<Rightarrow> u64" where "count_value h = count_f h"
definition min_value :: "Histogram \<Rightarrow> u64" where "min_value h = (if count_f h = 0 then 0 else min_f h)"
definition max_value :: "Histogram \<Rightarrow> u64" where "max_value h = max_f h"

definition mean_value :: "Histogram \<Rightarrow> double" where
  "mean_value h =
     (if count_f h = 0 then Finite 0 else double_div (double_of_u64 (sum_f h)) (double_of_u64 (count_f h)))"

text \<open>The loop of \<^verbatim>\<open>percentile\<close> over the remaining buckets, with \<^verbatim>\<open>i\<close> and \<^verbatim>\<open>seen\<close>.\<close>

fun percentile_loop :: "u64 list \<Rightarrow> nat \<Rightarrow> u64 \<Rightarrow> double \<Rightarrow> u64 option" where
  "percentile_loop [] i seen target = None"
| "percentile_loop (c # cs) i seen target =
     (let seen = seen + c in
      if double_ge (double_of_u64 seen) target then Some (bucket_upper i)
      else percentile_loop cs (Suc i) seen target)"

definition percentile_target :: "double \<Rightarrow> u64 \<Rightarrow> double" where
  "percentile_target p n =
     (let p = (if double_less p (Finite 0) then Finite 0 else p);
          p = (if double_less (Finite 100) p then Finite 100 else p)
      in double_mul (double_div p (Finite 100)) (double_of_u64 n))"

definition percentile :: "Histogram \<Rightarrow> double \<Rightarrow> u64" where
  "percentile h p =
     (if count_f h = 0 then 0
      else case percentile_loop (counts h) 0 0 (percentile_target p (count_f h)) of
             Some v \<Rightarrow> v
           | None \<Rightarrow> max_f h)"

section \<open>The buckets partition the values\<close>

lemma histogram_consts [simp]: "kSubCount = 64" "kBucketCount = 3776" "unat kSubCount = 64"
  by (simp_all add: kSubCount_def kSubBits_def kBucketCount_def push_bit_eq_mult)

text \<open>The two functions on natural numbers.\<close>

lemma index_of_small: "unat v < 64 \<Longrightarrow> index_of v = unat v"
  by (simp add: index_of_def word_less_nat_alt)

lemma index_of_large:
  assumes "2 ^ (s + 6) \<le> unat v" and "unat v < 2 ^ Suc (s + 6)"
  shows "index_of v = s * 64 + unat v div 2 ^ s"
proof -
  let ?u = "unat v"
  have "(2 :: nat) ^ (s + 6) < 2 ^ 64" using assms(1) unat_u64_less [of v] by simp
  then have s: "s + 6 < 64" by (rule power_less_imp_less_exp [rotated]) simp
  have low: "64 * 2 ^ s \<le> ?u" using assms(1) by (simp add: power_add mult.commute)
  moreover have "64 * 1 \<le> 64 * (2 :: nat) ^ s" by (intro mult_le_mono2) simp
  ultimately have "64 \<le> ?u" by linarith
  then have big: "\<not> v < 64" by (simp add: word_less_nat_alt)
  have bw: "bit_width ?u - 1 = s + 6" using bit_width_eq [OF assms] by simp
  have p: "unat (push_bit (s + 6) 1 :: u64) = 2 ^ (s + 6)"
    using unat_pow2 [OF s] by (simp add: push_bit_eq_mult)
  have "unat (v - push_bit (s + 6) 1) = ?u - 2 ^ (s + 6)"
    using assms(1) unfolding p [symmetric] by (intro unat_sub) (simp only: word_le_nat_alt)
  then have "unat (drop_bit s (v - push_bit (s + 6) 1)) = (?u - 2 ^ (s + 6)) div 2 ^ s"
    by (simp only: unat_drop_bit_eq) (simp only: drop_bit_eq_div)
  also have "?u - 2 ^ (s + 6) = ?u - 64 * 2 ^ s" by (simp add: power_add)
  also have "(?u - 64 * 2 ^ s) div 2 ^ s = ?u div 2 ^ s - 64"
    using div_mult_self1 [of "2 ^ s" "?u - 64 * 2 ^ s" 64] low by simp
  finally have sub: "unat (drop_bit s (v - push_bit (s + 6) 1)) = ?u div 2 ^ s - 64" .
  have m: "64 \<le> ?u div 2 ^ s" "?u div 2 ^ s < 128"
    using assms by (simp_all add: less_eq_div_iff_mult_less_eq div_less_iff_less_mult power_add mult.commute)
  have "drop_bit s (v - push_bit (s + 6) 1) = of_nat (?u div 2 ^ s - 64)" by (simp flip: sub)
  then have "index_of v = unat (of_nat (64 + s * 64 + (?u div 2 ^ s - 64)) :: u64)"
    using big bw by (simp add: index_of_def Let_def kSubBits_def)
  also have "\<dots> = 64 + s * 64 + (?u div 2 ^ s - 64)" using s m by (intro unat_of_nat_small) simp
  finally show ?thesis using m by simp
qed

lemma bucket_upper_small: "i < 64 \<Longrightarrow> unat (bucket_upper i) = i"
  by (simp add: bucket_upper_def unat_of_nat)

lemma bucket_upper_large:
  assumes "b < 64" and "s < 58"
  shows "unat (bucket_upper (64 + s * 64 + b)) = (65 + b) * 2 ^ s - 1"
proof -
  let ?rel = "of_nat (64 + s * 64 + b) - kSubCount :: u64"
  have rel: "?rel = of_nat (s * 64 + b)" by simp
  have "unat ?rel = s * 64 + b" unfolding rel using assms by (intro unat_of_nat_small) simp
  then have "unat (?rel div 64) = s" "unat (?rel mod 64) = b" using assms by (simp_all add: unat_div unat_mod)
  then have q: "unat (?rel div kSubCount) = s" "?rel mod kSubCount = of_nat b"
    using assms(1) by (simp_all add: word_unat_eq_iff unat_of_nat)
  let ?N = "(65 + b) * 2 ^ s"
  have "?N \<le> 128 * 2 ^ 57" using assms by (intro mult_le_mono power_increasing) simp_all
  then have N: "1 \<le> ?N" "?N - 1 < 2 ^ 64" by simp_all
  have "bucket_upper (64 + s * 64 + b) = push_bit (s + 6) 1 + (of_nat b + 1) * push_bit s 1 - 1"
    using q by (simp add: bucket_upper_def Let_def kSubBits_def del: of_nat_add of_nat_mult)
  also have "\<dots> = of_nat ?N - of_nat 1"
    by (simp add: push_bit_eq_mult power_add algebra_simps)
  also have "\<dots> = of_nat (?N - 1)" using N(1) by (rule of_nat_diff_word)
  finally show ?thesis using N(2) by (simp only: unat_of_nat_small)
qed

text \<open>Every value and every bucket is small or large.\<close>

lemma value_cases [case_names Small Large]:
  fixes v :: u64
  obtains "unat v < 64"
    | s where "s < 58" "2 ^ (s + 6) \<le> unat v" "unat v < 2 ^ Suc (s + 6)"
proof (cases "unat v < 64")
  case False
  then have pos: "0 < unat v" by simp
  let ?e = "bit_width (unat v) - 1"
  have e: "2 ^ ?e \<le> unat v" "unat v < 2 ^ Suc ?e"
    using bit_width_bounds(1) [OF pos] bit_width_bounds(2) [of "unat v"] bit_width_pos [OF pos] by simp_all
  have "(2 :: nat) ^ 6 < 2 ^ Suc ?e" using e(2) False by simp
  then have "6 < Suc ?e" by (rule power_less_imp_less_exp [rotated]) simp
  moreover have "(2 :: nat) ^ ?e < 2 ^ 64" using e(1) unat_u64_less [of v] by linarith
  then have "?e < 64" by (rule power_less_imp_less_exp [rotated]) simp
  ultimately show ?thesis using that(2) [of "?e - 6"] e by simp
qed

lemma bucket_cases [case_names Small Large]:
  assumes "i < kBucketCount"
  obtains "i < 64" | s b where "i = 64 + s * 64 + b" "b < 64" "s < 58"
proof (cases "i < 64")
  case False
  then have "i = 64 + (i div 64 - 1) * 64 + i mod 64"
    using div_mult_mod_eq [of i 64] by (cases "i div 64") simp_all
  then show ?thesis using that(2) [of "i div 64 - 1" "i mod 64"] assms by simp
qed

lemma large_order:
  assumes "2 ^ (s + 6) \<le> u" and "u < 2 ^ Suc (s + 6)" and "b < 64"
  shows "s * 64 + u div 2 ^ s \<le> 64 + t * 64 + b \<longleftrightarrow> u \<le> (65 + b) * 2 ^ t - (1 :: nat)"
proof -
  have m: "64 \<le> u div 2 ^ s" "u div 2 ^ s < 128"
    using assms by (simp_all add: less_eq_div_iff_mult_less_eq div_less_iff_less_mult power_add mult.commute)
  have "u \<le> (65 + b) * 2 ^ t - 1 \<longleftrightarrow> u < (65 + b) * 2 ^ t" using one_le_power [of "2 :: nat" t] by (auto simp: le_diff_conv2 Suc_le_eq)
  also have "\<dots> \<longleftrightarrow> s * 64 + u div 2 ^ s \<le> 64 + t * 64 + b"
  proof (cases s t rule: linorder_cases)
    case less
    then have "(2 :: nat) ^ Suc (s + 6) \<le> 2 ^ (t + 6)" by (intro power_increasing) simp_all
    also have "\<dots> \<le> (65 + b) * 2 ^ t" by (simp add: power_add)
    finally show ?thesis using less m assms(2) by simp
  next
    case equal
    have "u < (65 + b) * 2 ^ t \<longleftrightarrow> u div 2 ^ t < 65 + b" by (simp add: div_less_iff_less_mult)
    then show ?thesis using equal m by auto
  next
    case greater
    then have "(2 :: nat) ^ Suc (t + 6) \<le> 2 ^ (s + 6)" by (intro power_increasing) simp_all
    moreover have "(65 + b) * 2 ^ t \<le> 128 * 2 ^ t" using assms(3) by (intro mult_le_mono1) simp
    moreover have "(2 :: nat) ^ Suc (t + 6) = 128 * 2 ^ t" by (simp add: power_add)
    ultimately have "(65 + b) * 2 ^ t \<le> u" using assms(1) by linarith
    then show ?thesis using greater m assms(3) by simp
  qed
  finally show ?thesis by blast
qed

text \<open>
  A value lies in one of the buckets up to \<open>i\<close> exactly if it is at most \<open>bucket_upper i\<close>, for each of the
  3776 buckets, the last one, whose bound is computed with a wrap-around, included.
\<close>

lemma index_of_le_iff:
  assumes "i < kBucketCount"
  shows "index_of v \<le> i \<longleftrightarrow> v \<le> bucket_upper i"
  using assms
proof (cases rule: bucket_cases)
  case Small
  show ?thesis
  proof (cases v rule: value_cases)
    case Small
    then show ?thesis using \<open>i < 64\<close> by (simp add: index_of_small bucket_upper_small word_le_nat_alt)
  next
    case (Large s)
    have "64 * 2 ^ s \<le> unat v" "64 * 1 \<le> 64 * (2 :: nat) ^ s" using Large(2) by (auto simp: power_add)
    moreover have "64 \<le> unat v div 2 ^ s" using calculation(1) by (simp add: less_eq_div_iff_mult_less_eq)
    moreover have "64 \<le> unat v" using calculation(1,2) by linarith
    ultimately show ?thesis
      using \<open>i < 64\<close> by (simp add: index_of_large [OF Large(2,3)] bucket_upper_small word_le_nat_alt)
  qed
next
  case i: (Large t b)
  show ?thesis
  proof (cases v rule: value_cases)
    case Small
    have "1 * 65 \<le> 2 ^ t * (65 + b)" by (intro mult_le_mono) simp_all
    then show ?thesis
      using Small i bucket_upper_large [OF i(2,3)] by (simp add: index_of_small word_le_nat_alt mult.commute)
  next
    case (Large s)
    then show ?thesis
      using large_order [OF Large(2,3) i(2), of t] bucket_upper_large [OF i(2,3)]
      by (simp add: i(1) index_of_large [OF Large(2,3)] word_le_nat_alt)
  qed
qed

lemma index_of_less: "index_of v < kBucketCount"
proof -
  have "unat v \<le> unat (bucket_upper (64 + 57 * 64 + 63))"
    using bucket_upper_large [of 63 57] unat_u64_less [of v] by simp
  then have "v \<le> bucket_upper 3775" by (simp add: word_le_nat_alt)
  then show ?thesis using index_of_le_iff [of 3775 v] by simp
qed

lemma index_of_mono: "v \<le> w \<Longrightarrow> index_of v \<le> index_of w"
  using index_of_le_iff [OF index_of_less [of w], of v] index_of_le_iff [OF index_of_less [of w], of w] by simp

lemma index_of_upper: "i < kBucketCount \<Longrightarrow> index_of (bucket_upper i) = i"
proof -
  assume i: "i < kBucketCount"
  have "index_of (bucket_upper i) \<le> i" using index_of_le_iff [OF i, of "bucket_upper i"] by simp
  moreover have "i \<le> index_of (bucket_upper i)"
  proof (rule ccontr)
    assume lt: "\<not> i \<le> index_of (bucket_upper i)"
    then have "index_of (bucket_upper i) \<le> i - 1" "i - 1 < kBucketCount" using i by linarith+
    then have "bucket_upper i \<le> bucket_upper (i - 1)" using index_of_le_iff by blast
    moreover have "unat (bucket_upper (i - 1)) < unat (bucket_upper i)"
      using i
    proof (cases rule: bucket_cases)
      case Small
      then show ?thesis using lt by (simp add: bucket_upper_small)
    next
      case (Large s b)
      have p: "0 < (2 :: nat) ^ s" by simp
      show ?thesis
      proof (cases b)
        case (Suc c)
        then have "i - 1 = 64 + s * 64 + c" using Large by simp
        then show ?thesis using Large Suc bucket_upper_large [of c s] bucket_upper_large [of b s]
          by (simp add: algebra_simps) (use p in linarith)
      next
        case 0
        show ?thesis
        proof (cases s)
          case 0
          then show ?thesis using Large \<open>b = 0\<close> bucket_upper_large [of 0 0] bucket_upper_small [of 63] by simp
        next
          case (Suc t)
          then have "i - 1 = 64 + t * 64 + 63" using Large \<open>b = 0\<close> by simp
          then show ?thesis using Large Suc \<open>b = 0\<close> bucket_upper_large [of 63 t] bucket_upper_large [of 0 s]
            by (simp add: algebra_simps diff_less_mono)
        qed
      qed
    qed
    ultimately show False by (simp add: word_le_nat_alt)
  qed
  ultimately show ?thesis by simp
qed

text \<open>
  C24: every value has a bucket, the buckets follow the order of the values, and the upper bound of a bucket
  is the greatest value in it: a value is in one of the buckets up to \<open>i\<close> exactly if it is at most
  \<open>bucket_upper i\<close>, also for the last bucket, whose bound wraps around on the way.
\<close>

theorem buckets_partition:
  "index_of v < kBucketCount \<and>
   (\<forall>i. i < kBucketCount \<longrightarrow> (index_of v \<le> i \<longleftrightarrow> v \<le> bucket_upper i) \<and> index_of (bucket_upper i) = i)"
  using index_of_less index_of_le_iff index_of_upper by blast

theorem buckets_partition_witness:
  "(index_of 1000 \<le> 3775 \<longleftrightarrow> (1000 :: u64) \<le> bucket_upper 3775) \<and> index_of (bucket_upper 3775) = 3775"
  using buckets_partition [of 1000] by simp

lemma bucket_error_large:
  assumes "s < 58" and "2 ^ (s + 6) \<le> unat v" and "unat v < 2 ^ Suc (s + 6)"
  shows "unat (bucket_upper (index_of v)) + 1 = (unat v div 2 ^ s + 1) * 2 ^ s"
proof -
  have m: "64 \<le> unat v div 2 ^ s" "unat v div 2 ^ s < 128"
    using assms by (simp_all add: less_eq_div_iff_mult_less_eq div_less_iff_less_mult power_add mult.commute)
  then have "index_of v = 64 + s * 64 + (unat v div 2 ^ s - 64)" by (simp add: index_of_large [OF assms(2,3)])
  moreover have "65 + (unat v div 2 ^ s - 64) = unat v div 2 ^ s + 1" using m by simp
  ultimately show ?thesis using bucket_upper_large [of "unat v div 2 ^ s - 64" s] m assms(1) by simp
qed

text \<open>
  The upper bound of a value's bucket is never below the value and exceeds it by at most a 64th of it;
  values below 64 are exact.
\<close>

theorem bucket_error:
  "unat v \<le> unat (bucket_upper (index_of v)) \<and>
   64 * (unat (bucket_upper (index_of v)) - unat v) \<le> unat v \<and>
   (unat v < 64 \<longrightarrow> bucket_upper (index_of v) = v)"
proof (cases v rule: value_cases)
  case Small
  then have "unat (bucket_upper (index_of v)) = unat v" by (simp add: index_of_small bucket_upper_small)
  then show ?thesis by (simp add: word_unat_eq_iff)
next
  case (Large s)
  have "v \<le> bucket_upper (index_of v)" using index_of_le_iff [OF index_of_less, of v v] by simp
  moreover have "unat (bucket_upper (index_of v)) + 1 \<le> unat v + 2 ^ s"
    using bucket_error_large [OF Large] by (simp add: algebra_simps div_times_less_eq_dividend)
  moreover have "64 * 2 ^ s \<le> unat v" "64 * 1 \<le> 64 * (2 :: nat) ^ s" using Large(2) by (auto simp: power_add)
  ultimately show ?thesis by (auto simp: word_le_nat_alt)
qed

theorem bucket_error_witness:
  "unat (bucket_upper (index_of (63 :: u64))) = 63"
  using bucket_error [of 63] by simp

text \<open>
  The bound of a 64th is attained up to rounding: reading \<open>2^20\<close> back gives \<open>2^20 + 2^14 - 1\<close>, about 1.56
  per cent too much.
\<close>

theorem bucket_error_attained:
  "bucket_upper (index_of (2 ^ 20)) = 2 ^ 20 + 2 ^ 14 - 1"
proof -
  have "unat (bucket_upper (index_of (2 ^ 20 :: u64))) + 1 = 2 ^ 20 + 2 ^ 14"
    using bucket_error_large [of 14 "2 ^ 20"] by simp
  then show ?thesis by (simp add: word_unat_eq_iff)
qed

section \<open>Contents\<close>

text \<open>The histogram of a multiset of values.\<close>

definition bucket_size :: "u64 multiset \<Rightarrow> nat \<Rightarrow> nat" where
  "bucket_size M i = size (filter_mset (\<lambda>v. index_of v = i) M)"

definition least_value :: "u64 multiset \<Rightarrow> u64" where
  "least_value M = Min (insert (2 ^ 64 - 1) (set_mset M))"

definition greatest_value :: "u64 multiset \<Rightarrow> u64" where
  "greatest_value M = Max (insert 0 (set_mset M))"

definition histogram_of :: "u64 multiset \<Rightarrow> Histogram" where
  "histogram_of M =
     \<lparr>counts = map (\<lambda>i. of_nat (bucket_size M i)) [0..<kBucketCount],
      count_f = of_nat (size M), sum_f = sum_mset M,
      min_f = least_value M, max_f = greatest_value M\<rparr>"

lemma bucket_size_simps [simp]:
  "bucket_size {#} i = 0"
  "bucket_size (add_mset v M) i = (if index_of v = i then Suc (bucket_size M i) else bucket_size M i)"
  "bucket_size (M + N) i = bucket_size M i + bucket_size N i"
  by (simp_all add: bucket_size_def)

lemma least_value_simps [simp]:
  "least_value {#} = 2 ^ 64 - 1"
  "least_value (add_mset v M) = min v (least_value M)"
  "least_value (M + N) = min (least_value M) (least_value N)"
  using Min.union [of "insert (2 ^ 64 - 1) (set_mset M)" "insert (2 ^ 64 - 1) (set_mset N)"]
  by (simp_all add: least_value_def insert_commute [of _ v])

lemma greatest_value_simps [simp]:
  "greatest_value {#} = 0"
  "greatest_value (add_mset v M) = max v (greatest_value M)"
  "greatest_value (M + N) = max (greatest_value M) (greatest_value N)"
  using Max.union [of "insert 0 (set_mset M)" "insert 0 (set_mset N)"]
  by (simp_all add: greatest_value_def insert_commute [of _ v])

lemma new_histogram_of: "new_histogram = histogram_of {#}"
  by (simp add: new_histogram_def histogram_of_def map_replicate_const)

lemma reset_histogram_of: "reset_histogram (histogram_of M) = histogram_of {#}"
  by (simp add: reset_histogram_def histogram_of_def map_replicate_const)

lemma record_value_of: "record_value v (histogram_of M) = histogram_of (add_mset v M)"
proof -
  have "(map (\<lambda>i. of_nat (bucket_size M i)) [0..<kBucketCount])
          [index_of v := map (\<lambda>i. of_nat (bucket_size M i)) [0..<kBucketCount] ! index_of v + 1] =
        (map (\<lambda>i. of_nat (bucket_size (add_mset v M) i)) [0..<kBucketCount] :: u64 list)"
    using index_of_less [of v] by (intro nth_equalityI) (auto simp: nth_list_update simp del: histogram_consts)
  then show ?thesis
    by (auto simp: record_value_def histogram_of_def Let_def min_def max_def simp del: histogram_consts)
qed

lemma add_counts_eq:
  assumes "distinct is" and "set is \<subseteq> {..<length cs}" and "length ds = length cs"
  shows "add_counts is cs ds = map (\<lambda>j. if j \<in> set is then cs ! j + ds ! j else cs ! j) [0..<length cs]"
  using assms
proof (induction "is" arbitrary: cs)
  case Nil
  then show ?case by (simp add: map_nth)
next
  case (Cons i "is")
  then have "add_counts is (cs[i := cs ! i + ds ! i]) ds =
      map (\<lambda>j. if j \<in> set is then cs[i := cs ! i + ds ! i] ! j + ds ! j else cs[i := cs ! i + ds ! i] ! j) [0..<length cs]"
    by simp
  then show ?case using Cons.prems by (auto simp: nth_list_update)
qed

lemma merge_of: "merge (histogram_of M) (histogram_of N) = histogram_of (M + N)"
proof -
  have "add_counts [0..<kBucketCount] (counts (histogram_of M)) (counts (histogram_of N)) = counts (histogram_of (M + N))"
    by (subst add_counts_eq) (auto simp: histogram_of_def simp del: histogram_consts)
  then show ?thesis by (simp add: merge_def histogram_of_def del: histogram_consts)
qed

definition record_all :: "u64 list \<Rightarrow> Histogram \<Rightarrow> Histogram" where
  "record_all vs h = fold record_value vs h"

lemma record_all_of: "record_all vs (histogram_of M) = histogram_of (M + mset vs)"
  by (induction vs arbitrary: M) (simp_all add: record_all_def record_value_of)

text \<open>
  C25: after any sequence of recordings the histogram holds exactly, per bucket, how many of the values fall
  into it, their number, their sum (all modulo \<open>2^64\<close>), their least and their greatest; merging two
  histograms gives the one that all their values would have given in any order; a reset one is as new.
\<close>

theorem histogram_contents:
  "record_all vs new_histogram = histogram_of (mset vs) \<and>
   merge (record_all vs new_histogram) (record_all ws new_histogram) = record_all (ws @ vs) new_histogram \<and>
   reset_histogram (record_all vs new_histogram) = new_histogram"
  by (simp add: new_histogram_of record_all_of merge_of reset_histogram_of add.commute)

section \<open>Percentiles\<close>

definition at_most :: "u64 multiset \<Rightarrow> u64 \<Rightarrow> nat" where
  "at_most M v = size (filter_mset (\<lambda>x. x \<le> v) M)"

definition below_bucket :: "u64 multiset \<Rightarrow> nat \<Rightarrow> nat" where
  "below_bucket M i = size (filter_mset (\<lambda>x. index_of x < i) M)"

lemma below_bucket_Suc: "below_bucket M (Suc i) = below_bucket M i + bucket_size M i"
  by (induction M) (auto simp: below_bucket_def)

lemma below_bucket_upper: "i < kBucketCount \<Longrightarrow> below_bucket M (Suc i) = at_most M (bucket_upper i)"
  by (simp add: below_bucket_def at_most_def less_Suc_eq_le index_of_le_iff)

lemma below_bucket_0 [simp]: "below_bucket M 0 = 0"
  by (simp add: below_bucket_def)

lemma at_most_mono: "v \<le> w \<Longrightarrow> at_most M v \<le> at_most M w"
  by (induction M) (auto simp: at_most_def)

lemma at_most_size: "at_most M v \<le> size M"
  by (simp add: at_most_def size_filter_mset_lesseq)

lemma at_most_last: "at_most M (bucket_upper 3775) = size M"
proof -
  have "below_bucket M (Suc 3775) = size M"
    using index_of_less by (simp add: below_bucket_def)
  then show ?thesis using below_bucket_upper [of 3775 M] by simp
qed

text \<open>
  The loop stops at the first bucket up to whose bound enough values lie. \<open>reached\<close> is its test.
\<close>

definition reached :: "u64 multiset \<Rightarrow> double \<Rightarrow> nat \<Rightarrow> bool" where
  "reached M t i \<longleftrightarrow> double_ge (double_of_u64 (of_nat (at_most M (bucket_upper i)))) t"

lemma percentile_loop_first:
  assumes "i + n = kBucketCount"
  shows "percentile_loop (map (\<lambda>i. of_nat (bucket_size M i)) [i..<kBucketCount]) i (of_nat (below_bucket M i)) t =
    (if \<exists>j\<in>{i..<kBucketCount}. reached M t j
     then Some (bucket_upper (LEAST j. i \<le> j \<and> reached M t j)) else None)"
  using assms
proof (induction n arbitrary: i)
  case 0
  then show ?case by simp
next
  case (Suc n)
  then have i: "i < kBucketCount" by simp
  have up: "[i..<kBucketCount] = i # [Suc i..<kBucketCount]" using i by (rule upt_conv_Cons)
  have seen: "(of_nat (below_bucket M i) + of_nat (bucket_size M i) :: u64) = of_nat (below_bucket M (Suc i))"
    by (simp add: below_bucket_Suc)
  show ?case
  proof (cases "reached M t i")
    case True
    then have "(LEAST j. i \<le> j \<and> reached M t j) = i" by (intro Least_equality) auto
    then show ?thesis
      using True i below_bucket_upper [OF i, of M] unfolding up
      by (auto simp: Let_def seen reached_def simp del: histogram_consts)
  next
    case False
    have "i \<le> j \<and> reached M t j \<longleftrightarrow> Suc i \<le> j \<and> reached M t j" for j
      using False by (cases "j = i") auto
    then have "(LEAST j. i \<le> j \<and> reached M t j) = (LEAST j. Suc i \<le> j \<and> reached M t j)" by simp
    moreover have "{i..<kBucketCount} = insert i {Suc i..<kBucketCount}" using i by auto
    ultimately show ?thesis
      using False Suc.IH [of "Suc i"] Suc.prems i below_bucket_upper [OF i, of M] unfolding up
      by (simp add: Let_def seen reached_def del: histogram_consts)
  qed
qed

lemma percentile_of:
  assumes "M \<noteq> {#}" and "size M < 2 ^ 64"
  shows "percentile (histogram_of M) p =
    (let t = percentile_target p (of_nat (size M)) in
     if \<exists>j<kBucketCount. reached M t j then bucket_upper (LEAST j. reached M t j) else greatest_value M)"
proof -
  have "unat (of_nat (size M) :: u64) = size M" using assms(2) by (rule unat_of_nat_small)
  then have "(of_nat (size M) :: u64) \<noteq> 0" using assms(1) by (metis size_eq_0_iff_empty unat_0)
  then show ?thesis
    using percentile_loop_first [of 0 kBucketCount M]
    by (auto simp: percentile_def histogram_of_def Let_def simp del: histogram_consts)
qed

text \<open>The percentage after clamping, and the rank it stands for among \<open>n\<close> values.\<close>

fun clamped :: "double \<Rightarrow> rat" where
  "clamped (Finite x) = min 100 (max 0 x)"
| "clamped (Infinity negative) = (if negative then 0 else 100)"
| "clamped NaN = 0"

definition rank :: "double \<Rightarrow> nat \<Rightarrow> rat" where
  "rank p n = rnd (rnd (clamped p / 100) * of_nat n)"

lemma clamped_bounds: "0 \<le> clamped p / 100" "clamped p / 100 \<le> 1"
  by (cases p; simp)+

lemma double_of_count: "n \<le> 2 ^ 53 \<Longrightarrow> double_of_u64 (of_nat n) = Finite (of_nat n)"
  using to_double_finite [of "of_nat n"] of_nat_le_iff [of n "2 ^ 53", where ?'a = rat]
  by (simp add: double_of_u64_def unat_of_nat_small)

lemma rank_bounds:
  assumes "n \<le> 2 ^ 53"
  shows "0 \<le> rank p n" and "rank p n \<le> of_nat n"
  using binary64.fraction [OF clamped_bounds [of p], of "of_nat n"] assms by (simp_all add: rank_def)

lemma percentile_target_rank:
  assumes "p \<noteq> NaN" and "n \<le> 2 ^ 53"
  shows "percentile_target p (of_nat n) = Finite (rank p n)"
proof -
  have "percentile_target p (of_nat n) = double_mul (to_double (clamped p / 100)) (double_of_u64 (of_nat n))"
    using assms(1) by (cases p) (auto simp: percentile_target_def Let_def min_def max_def)
  also have "to_double (clamped p / 100) = Finite (rnd (clamped p / 100))"
    using clamped_bounds [of p] by (intro to_double_finite) auto
  also have "double_mul (Finite (rnd (clamped p / 100))) (double_of_u64 (of_nat n)) = Finite (rank p n)"
  proof -
    have f: "0 \<le> rnd (clamped p / 100)" "rnd (clamped p / 100) \<le> 1"
      using binary64.bounded [of "clamped p / 100" 1] clamped_bounds [of p] by simp_all
    have n: "(of_nat n :: rat) \<le> 2 ^ 64" using assms(2) of_nat_le_iff [of n "2 ^ 53", where ?'a = rat] by simp
    have "rnd (clamped p / 100) * of_nat n \<le> 1 * 2 ^ 64" using f n by (intro mult_mono) simp_all
    then have "to_double (rnd (clamped p / 100) * of_nat n) = Finite (rank p n)"
      using f unfolding rank_def by (intro to_double_finite) simp_all
    then show ?thesis by (simp add: double_of_count [OF assms(2)])
  qed
  finally show ?thesis .
qed

lemma reached_rank:
  "size M \<le> 2 ^ 53 \<Longrightarrow> reached M (Finite t) i \<longleftrightarrow> t \<le> of_nat (at_most M (bucket_upper i))"
  using at_most_size [of M "bucket_upper i"]
  by (simp add: reached_def double_ge_def double_of_count not_less)

lemma percentile_least:
  assumes "M \<noteq> {#}" and "size M \<le> 2 ^ 53" and "p \<noteq> NaN"
  shows "percentile (histogram_of M) p =
           bucket_upper (LEAST i. rank p (size M) \<le> of_nat (at_most M (bucket_upper i)))"
    and "\<exists>i<kBucketCount. rank p (size M) \<le> of_nat (at_most M (bucket_upper i))"
proof -
  show ex: "\<exists>i<kBucketCount. rank p (size M) \<le> of_nat (at_most M (bucket_upper i))"
    using rank_bounds(2) [OF assms(2), of p] by (intro exI [of _ 3775]) (simp add: at_most_last)
  have "reached M (Finite t) = (\<lambda>i. t \<le> of_nat (at_most M (bucket_upper i)))" for t
    using reached_rank [OF assms(2)] by blast
  then show "percentile (histogram_of M) p =
           bucket_upper (LEAST i. rank p (size M) \<le> of_nat (at_most M (bucket_upper i)))"
    using ex assms by (simp add: percentile_of Let_def percentile_target_rank)
qed

text \<open>
  C26: for up to \<open>2^53\<close> values, a percentile is the bound of the first bucket up to which the requested share of
  the values lies: at least \<open>rank\<close> of them are at most the result, and fewer are at most the bound of any
  earlier bucket. The search never runs off the end of the buckets.
\<close>

theorem percentile_correct:
  assumes "vs \<noteq> []" and "length vs \<le> 2 ^ 53" and "p \<noteq> NaN"
  shows "\<exists>i<kBucketCount. percentile (record_all vs new_histogram) p = bucket_upper i \<and>
           rank p (length vs) \<le> of_nat (at_most (mset vs) (bucket_upper i)) \<and>
           (\<forall>j<i. of_nat (at_most (mset vs) (bucket_upper j)) < rank p (length vs))"
proof -
  let ?P = "\<lambda>i. rank p (size (mset vs)) \<le> of_nat (at_most (mset vs) (bucket_upper i))"
  have M: "mset vs \<noteq> {#}" "size (mset vs) \<le> 2 ^ 53" using assms by simp_all
  obtain k where k: "k < kBucketCount" "?P k" using percentile_least(2) [OF M assms(3)] by blast
  have "?P (Least ?P)" using k(2) by (rule LeastI)
  moreover have "Least ?P \<le> k" using k(2) by (rule Least_le)
  moreover have "\<not> ?P j" if "j < Least ?P" for j using that by (rule not_less_Least)
  ultimately show ?thesis
    using k(1) percentile_least(1) [OF M assms(3)]
    by (intro exI [of _ "Least ?P"]) (auto simp: new_histogram_of record_all_of not_le)
qed

theorem percentile_correct_witness:
  "\<exists>i<kBucketCount. percentile (record_all [5, 70000] new_histogram) (Finite 99) = bucket_upper i \<and>
     rank (Finite 99) (length [5 :: u64, 70000]) \<le> of_nat (at_most (mset [5, 70000]) (bucket_upper i)) \<and>
     (\<forall>j<i. of_nat (at_most (mset [5, 70000]) (bucket_upper j)) < rank (Finite 99) (length [5 :: u64, 70000]))"
  by (rule percentile_correct) simp_all

lemma bucket_upper_mono: "i \<le> j \<Longrightarrow> j < kBucketCount \<Longrightarrow> bucket_upper i \<le> bucket_upper j"
  using index_of_le_iff [of j "bucket_upper i"] index_of_upper [of i] by simp

lemma rank_mono:
  assumes "clamped p \<le> clamped q"
  shows "rank p n \<le> rank q n"
proof -
  have "rnd (clamped p / 100) \<le> rnd (clamped q / 100)" using assms by (intro rnd_mono) simp
  then show ?thesis unfolding rank_def by (intro rnd_mono [OF mult_right_mono]) simp_all
qed

text \<open>Percentiles grow with the percentage, infinite ones included.\<close>

theorem percentile_mono:
  assumes "vs \<noteq> []" and "length vs \<le> 2 ^ 53" and "p \<noteq> NaN" and "q \<noteq> NaN" and "clamped p \<le> clamped q"
  shows "percentile (record_all vs new_histogram) p \<le> percentile (record_all vs new_histogram) q"
proof -
  let ?P = "\<lambda>p i. rank p (size (mset vs)) \<le> of_nat (at_most (mset vs) (bucket_upper i))"
  have M: "mset vs \<noteq> {#}" "size (mset vs) \<le> 2 ^ 53" using assms(1,2) by simp_all
  obtain k where k: "k < kBucketCount" "?P q k" using percentile_least(2) [OF M assms(4)] by blast
  have "?P q (Least (?P q))" "Least (?P q) \<le> k" using k(2) by (rule LeastI, rule Least_le)
  moreover have "?P p (Least (?P q))" using calculation(1) rank_mono [OF assms(5), of "size (mset vs)"] by linarith
  then have "Least (?P p) \<le> Least (?P q)" by (rule Least_le)
  ultimately have "bucket_upper (Least (?P p)) \<le> bucket_upper (Least (?P q))"
    using k(1) by (intro bucket_upper_mono) linarith+
  then show ?thesis
    using percentile_least(1) [OF M assms(3)] percentile_least(1) [OF M assms(4)]
    by (simp add: new_histogram_of record_all_of)
qed

theorem percentile_mono_witness:
  "percentile (record_all [5, 70000] new_histogram) (Finite 50) \<le>
   percentile (record_all [5, 70000] new_histogram) (Infinity False)"
  by (rule percentile_mono) simp_all

lemma greatest_value_le_iff: "greatest_value M \<le> b \<longleftrightarrow> (\<forall>v\<in>#M. v \<le> b)"
  by (simp add: greatest_value_def)

lemma at_most_all_iff: "size M \<le> at_most M b \<longleftrightarrow> greatest_value M \<le> b"
proof (induction M)
  case (add v M)
  then show ?case using at_most_size [of M b]
    by (cases "v \<le> b") (simp_all add: greatest_value_le_iff at_most_def Suc_le_eq not_less less_Suc_eq_le size_filter_mset_lesseq)
qed (simp add: at_most_def greatest_value_def)

text \<open>
  The 100th percentile is the bound of the bucket of the greatest value; the 0th is 0, whatever was
  recorded, since the test of the first bucket already succeeds; a percentage that is not a number
  yields the greatest value itself.
\<close>

theorem percentile_extremes:
  assumes "vs \<noteq> []" and "length vs \<le> 2 ^ 53"
  shows "percentile (record_all vs new_histogram) (Finite 100) =
           bucket_upper (index_of (max_value (record_all vs new_histogram))) \<and>
         percentile (record_all vs new_histogram) (Finite 0) = 0 \<and>
         percentile (record_all vs new_histogram) NaN = max_value (record_all vs new_histogram)"
proof (intro conjI)
  have M: "mset vs \<noteq> {#}" "size (mset vs) \<le> 2 ^ 53" using assms by simp_all
  have mx: "max_value (record_all vs new_histogram) = greatest_value (mset vs)"
    by (simp add: new_histogram_of record_all_of) (simp add: max_value_def histogram_of_def)
  have "(LEAST i. greatest_value (mset vs) \<le> bucket_upper i) = index_of (greatest_value (mset vs))"
  proof (rule Least_equality)
    fix i assume i: "greatest_value (mset vs) \<le> bucket_upper i"
    show "index_of (greatest_value (mset vs)) \<le> i"
      using i index_of_le_iff [of i] index_of_less [of "greatest_value (mset vs)"] by (cases "i < kBucketCount") auto
  qed (use index_of_le_iff [OF index_of_less] in blast)
  moreover have "rank (Finite 100) (size (mset vs)) = of_nat (size (mset vs))"
    using M by (simp add: rank_def)
  ultimately show "percentile (record_all vs new_histogram) (Finite 100) =
           bucket_upper (index_of (max_value (record_all vs new_histogram)))"
    using percentile_least(1) [OF M, of "Finite 100"] at_most_all_iff [of "mset vs"]
    by (simp add: mx) (simp add: new_histogram_of record_all_of)
  have "(LEAST i. (0 :: rat) \<le> of_nat (at_most (mset vs) (bucket_upper i))) = 0" by (intro Least_equality) auto
  then show "percentile (record_all vs new_histogram) (Finite 0) = 0"
    using percentile_least(1) [OF M, of "Finite 0"] bucket_upper_small [of 0]
    by (simp add: new_histogram_of record_all_of rank_def unat_eq_0)
  have "percentile_target NaN n = NaN" for n by (simp add: percentile_target_def Let_def)
  then show "percentile (record_all vs new_histogram) NaN = max_value (record_all vs new_histogram)"
    using M percentile_of [OF M(1), of NaN]
    by (simp add: mx) (simp add: new_histogram_of record_all_of reached_def double_ge_def)
qed

theorem percentile_extremes_witness:
  "percentile (record_all [70000] new_histogram) (Finite 0) = 0 \<and> min_value (record_all [70000] new_histogram) = 70000"
proof -
  have "min_value (record_all [70000] new_histogram) = 70000"
    by (simp add: record_all_def record_value_def new_histogram_def min_value_def Let_def)
  then show ?thesis using percentile_extremes [of "[70000]"] by simp
qed

end
