(* ===== verification/Buffer_Pool.thy ===== *)
theory Buffer_Pool
  imports Prelude
begin

text \<open>
  \<^verbatim>\<open>code/include/rdb/msg/buffer_pool.h\<close>. Buffers live at addresses of an explicit heap. The pool holds
  the addresses of its free buffers; a handle is a reference count per buffer; the pool object
  itself is reference counted and may be destroyed while handles are still held, which is why the
  deleter of a handle goes through a weak reference.

  The operations are split where the code leaves the mutex: \<^verbatim>\<open>acquire\<close> takes a buffer under the lock
  and builds the handle after it (\<open>acquiring\<close> are the buffers in between); a deleter first locks the
  weak reference, which keeps the pool alive, and then returns the buffer (\<open>releasing\<close>).
  \<open>pool_step\<close> interleaves them for any number of threads.
\<close>

section \<open>Buffers\<close>

record Buffer =
  storage :: bytes
  buf_size :: nat

definition new_buffer :: "nat \<Rightarrow> Buffer" where
  "new_buffer n = \<lparr>storage = replicate n 0, buf_size = 0\<rparr>"

definition buf_capacity :: "Buffer \<Rightarrow> nat" where
  "buf_capacity b = length (storage b)"

definition resize :: "nat \<Rightarrow> Buffer \<Rightarrow> Buffer \<times> bool" where
  "resize n b = (if n > length (storage b) then (b, False) else (b\<lparr>buf_size := n\<rparr>, True))"

text \<open>A store through the pointer \<^verbatim>\<open>data()\<close> returns.\<close>

definition store_byte :: "nat \<Rightarrow> u8 \<Rightarrow> Buffer \<Rightarrow> Buffer" where
  "store_byte i v b = b\<lparr>storage := (storage b)[i := v]\<rparr>"

section \<open>The pool\<close>

type_synonym addr = nat

record BufferPool =
  free :: "addr list"
  buffer_bytes :: nat
  total :: nat
  exhausted :: u64

definition new_pool :: "nat \<Rightarrow> nat \<Rightarrow> BufferPool" where
  "new_pool bytes number =
     \<lparr>free = [], buffer_bytes = (if bytes = 0 then 1 else bytes), total = (if number = 0 then 1 else number),
      exhausted = 0\<rparr>"

definition preallocate :: "BufferPool \<Rightarrow> (addr \<rightharpoonup> Buffer) \<Rightarrow> BufferPool \<times> (addr \<rightharpoonup> Buffer)" where
  "preallocate p h =
     fold (\<lambda>i (p, h). (p\<lparr>free := free p @ [i]\<rparr>, h(i \<mapsto> new_buffer (buffer_bytes p)))) [0..<total p] (p, h)"

definition acquire_locked :: "BufferPool \<Rightarrow> BufferPool \<times> addr option" where
  "acquire_locked p =
     (if free p = [] then (p\<lparr>exhausted := exhausted p + 1\<rparr>, None)
      else (p\<lparr>free := butlast (free p)\<rparr>, Some (last (free p))))"

definition available :: "BufferPool \<Rightarrow> nat" where "available p = length (free p)"
definition in_use :: "BufferPool \<Rightarrow> nat" where "in_use p = total p - available p"
definition exhausted_count :: "BufferPool \<Rightarrow> u64" where "exhausted_count p = exhausted p"

section \<open>Pool, heap and handles\<close>

record pool_world =
  heap :: "addr \<rightharpoonup> Buffer"
  pool :: "BufferPool option"
  pool_refs :: nat
  handles :: "addr \<Rightarrow> nat"
  acquiring :: "addr list"
  releasing :: "addr list"

definition create :: "nat \<Rightarrow> nat \<Rightarrow> pool_world" where
  "create bytes number =
     (let (p, h) = preallocate (new_pool bytes number) Map.empty
      in \<lparr>heap = h, pool = Some p, pool_refs = 1, handles = (\<lambda>_. 0), acquiring = [], releasing = []\<rparr>)"

definition zero_size :: "addr \<Rightarrow> (addr \<rightharpoonup> Buffer) \<Rightarrow> (addr \<rightharpoonup> Buffer)" where
  "zero_size a h = h(a := map_option (\<lambda>b. b\<lparr>buf_size := 0\<rparr>) (h a))"

text \<open>Dropping a reference to the pool; the last one destroys it and, with \<^verbatim>\<open>free_\<close>, its free buffers.\<close>

definition pool_unref :: "pool_world \<Rightarrow> pool_world" where
  "pool_unref w =
     (if pool_refs w = 1
      then w\<lparr>pool_refs := 0, pool := None, heap := heap w |` (- set (case pool w of Some p \<Rightarrow> free p | None \<Rightarrow> []))\<rparr>
      else w\<lparr>pool_refs := pool_refs w - 1\<rparr>)"

text \<open>The locked part of \<^verbatim>\<open>acquire\<close>; a caller holds a reference to the pool during the call.\<close>

definition acquire_begin :: "pool_world \<Rightarrow> pool_world \<times> addr option" where
  "acquire_begin w =
     (case pool w of
        None \<Rightarrow> (w, None)
      | Some p \<Rightarrow>
          (case acquire_locked p of
             (p', None) \<Rightarrow> (w\<lparr>pool := Some p'\<rparr>, None)
           | (p', Some a) \<Rightarrow>
               (w\<lparr>pool := Some p', pool_refs := pool_refs w + 1, acquiring := a # acquiring w\<rparr>, Some a)))"

definition acquire_end :: "addr \<Rightarrow> pool_world \<Rightarrow> pool_world" where
  "acquire_end a w =
     pool_unref (w\<lparr>heap := zero_size a (heap w), handles := (handles w)(a := 1),
                   acquiring := remove1 a (acquiring w)\<rparr>)"

definition acquire :: "pool_world \<Rightarrow> pool_world \<times> addr option" where
  "acquire w = (case acquire_begin w of (w', None) \<Rightarrow> (w', None) | (w', Some a) \<Rightarrow> (acquire_end a w', Some a))"

definition copy_handle :: "addr \<Rightarrow> pool_world \<Rightarrow> pool_world" where
  "copy_handle a w = w\<lparr>handles := (handles w)(a := handles w a + 1)\<rparr>"

text \<open>
  Dropping a handle. The last one runs the deleter: \<^verbatim>\<open>weak.lock()\<close> succeeds as long as a reference to the
  pool is left and takes one; otherwise the buffer is deleted.
\<close>

definition drop_handle :: "addr \<Rightarrow> pool_world \<Rightarrow> pool_world" where
  "drop_handle a w =
     (let w = w\<lparr>handles := (handles w)(a := handles w a - 1)\<rparr>
      in if handles w a \<noteq> 0 then w
         else if pool_refs w > 0 then w\<lparr>pool_refs := pool_refs w + 1, releasing := a # releasing w\<rparr>
         else w\<lparr>heap := (heap w)(a := None)\<rparr>)"

text \<open>\<^verbatim>\<open>release\<close>, and the end of the deleter, which gives up its reference to the pool.\<close>

definition release :: "addr \<Rightarrow> pool_world \<Rightarrow> pool_world" where
  "release a w =
     w\<lparr>heap := zero_size a (heap w), pool := map_option (\<lambda>p. p\<lparr>free := free p @ [a]\<rparr>) (pool w)\<rparr>"

definition release_end :: "addr \<Rightarrow> pool_world \<Rightarrow> pool_world" where
  "release_end a w = (let w = release a w in pool_unref (w\<lparr>releasing := remove1 a (releasing w)\<rparr>))"

definition use_buffer :: "addr \<Rightarrow> (Buffer \<Rightarrow> Buffer) \<Rightarrow> pool_world \<Rightarrow> pool_world" where
  "use_buffer a f w = w\<lparr>heap := (heap w)(a := map_option f (heap w a))\<rparr>"

inductive pool_step :: "pool_world \<Rightarrow> pool_world \<Rightarrow> bool" where
  acquire_begin: "pool_refs w > length (acquiring w) + length (releasing w) \<Longrightarrow> pool_step w (fst (acquire_begin w))"
| acquire_end: "a \<in> set (acquiring w) \<Longrightarrow> pool_step w (acquire_end a w)"
| copy_handle: "handles w a > 0 \<Longrightarrow> pool_step w (copy_handle a w)"
| drop_handle: "handles w a > 0 \<Longrightarrow> pool_step w (drop_handle a w)"
| release_end: "a \<in> set (releasing w) \<Longrightarrow> pool_step w (release_end a w)"
| pool_copy: "pool_refs w > 0 \<Longrightarrow> pool_step w (w\<lparr>pool_refs := pool_refs w + 1\<rparr>)"
| pool_drop: "pool_refs w > length (acquiring w) + length (releasing w) \<Longrightarrow> pool_step w (pool_unref w)"
| resize: "handles w a > 0 \<Longrightarrow> pool_step w (use_buffer a (\<lambda>b. fst (resize n b)) w)"
| store_byte: "handles w a > 0 \<Longrightarrow> pool_step w (use_buffer a (store_byte i v) w)"

section \<open>Ownership\<close>

text \<open>
  Every allocated buffer has exactly one owner: the free list, an \<^verbatim>\<open>acquire\<close> in progress, a deleter in
  progress, or its handles.
\<close>

definition pool_free :: "pool_world \<Rightarrow> addr list" where
  "pool_free w = (case pool w of Some p \<Rightarrow> free p | None \<Rightarrow> [])"

definition live :: "pool_world \<Rightarrow> addr set" where
  "live w = {a. handles w a > 0}"

definition owned_once :: "pool_world \<Rightarrow> bool" where
  "owned_once w \<longleftrightarrow>
     distinct (pool_free w @ acquiring w @ releasing w) \<and>
     live w \<inter> set (pool_free w @ acquiring w @ releasing w) = {} \<and>
     dom (heap w) = live w \<union> set (pool_free w @ acquiring w @ releasing w) \<and> finite (dom (heap w))"

definition pool_counts :: "nat \<Rightarrow> nat \<Rightarrow> pool_world \<Rightarrow> bool" where
  "pool_counts bytes n w \<longleftrightarrow>
     length (acquiring w) + length (releasing w) \<le> pool_refs w \<and>
     (pool_refs w = 0 \<longleftrightarrow> pool w = None) \<and>
     (\<forall>p. pool w = Some p \<longrightarrow> total p = n \<and> buffer_bytes p = bytes \<and> card (dom (heap w)) = n) \<and>
     (\<forall>a b. heap w a = Some b \<longrightarrow> length (storage b) = bytes \<and> buf_size b \<le> bytes)"

definition pool_inv :: "nat \<Rightarrow> nat \<Rightarrow> pool_world \<Rightarrow> bool" where
  "pool_inv bytes n w \<longleftrightarrow> owned_once w \<and> pool_counts bytes n w"

lemma preallocate_eq:
  "preallocate p h =
     (p\<lparr>free := free p @ [0..<total p]\<rparr>, \<lambda>a. if a < total p then Some (new_buffer (buffer_bytes p)) else h a)"
proof -
  have "fold (\<lambda>i (p, h). (p\<lparr>free := free p @ [i]\<rparr>, h(i \<mapsto> new_buffer (buffer_bytes p)))) [0..<k] (p, h) =
        (p\<lparr>free := free p @ [0..<k]\<rparr>, \<lambda>a. if a < k then Some (new_buffer (buffer_bytes p)) else h a)" for k
    by (induction k) (auto simp: fun_eq_iff less_Suc_eq)
  then show ?thesis by (simp add: preallocate_def)
qed

lemma create_inv [inv_intros]:
  "pool_inv (if bytes = 0 then 1 else bytes) (if number = 0 then 1 else number) (create bytes number)"
  by (auto simp: pool_inv_def owned_once_def pool_counts_def create_def preallocate_eq new_pool_def
      pool_free_def live_def dom_def new_buffer_def split: if_splits)

text \<open>Each operation keeps the invariant.\<close>

lemma zero_size_simps [simp]: "dom (zero_size a h) = dom h"
  "(zero_size a h x = Some b) \<longleftrightarrow> (\<exists>b'. h x = Some b' \<and> b = (if x = a then b'\<lparr>buf_size := 0\<rparr> else b'))"
  by (auto simp: zero_size_def split: if_splits)

lemma restrict_Some: "(m |` A) a = Some b \<longleftrightarrow> a \<in> A \<and> m a = Some b"
  by (auto simp: restrict_map_def)

lemma pool_unref_inv [inv_intros]:
  assumes "pool_inv bytes n w" and "length (acquiring w) + length (releasing w) < pool_refs w"
  shows "pool_inv bytes n (pool_unref w)"
proof (cases "pool_refs w = 1")
  case True
  then have "acquiring w = []" "releasing w = []" using assms(2) by simp_all
  then show ?thesis using assms(1) True
    by (auto simp: pool_inv_def owned_once_def pool_counts_def pool_unref_def pool_free_def live_def
        restrict_Some split: if_splits option.splits)
next
  case False
  then show ?thesis using assms
    by (auto simp: pool_inv_def owned_once_def pool_counts_def pool_unref_def pool_free_def live_def)
qed

lemma acquire_begin_inv [inv_intros]:
  assumes "pool_inv bytes n w"
  shows "pool_inv bytes n (fst (acquire_begin w))"
proof (cases "pool w")
  case (Some p)
  show ?thesis
  proof (cases "free p" rule: rev_cases)
    case (snoc fs a)
    then show ?thesis using assms Some
      by (auto simp: pool_inv_def owned_once_def pool_counts_def acquire_begin_def acquire_locked_def pool_free_def live_def)
  qed (use assms Some in \<open>auto simp: pool_inv_def owned_once_def pool_counts_def acquire_begin_def acquire_locked_def
        pool_free_def live_def\<close>)
qed (use assms in \<open>simp add: acquire_begin_def\<close>)

lemma move_owner:
  assumes "owned_once w" and "a \<in> set (acquiring w)"
  shows "owned_once (w\<lparr>heap := zero_size a (heap w), handles := (handles w)(a := 1), acquiring := remove1 a (acquiring w)\<rparr>)"
  using assms by (auto simp: owned_once_def pool_free_def live_def)

lemma acquire_end_inv [inv_intros]:
  assumes "pool_inv bytes n w" and "a \<in> set (acquiring w)"
  shows "pool_inv bytes n (acquire_end a w)"
proof -
  have "0 < length (acquiring w)" using assms(2) by (cases "acquiring w") auto
  moreover have "length (remove1 a (acquiring w)) = length (acquiring w) - 1"
    using assms(2) by (simp add: length_remove1)
  moreover have "length (acquiring w) + length (releasing w) \<le> pool_refs w"
    using assms(1) by (simp add: pool_inv_def pool_counts_def)
  ultimately have "length (remove1 a (acquiring w)) + length (releasing w) < pool_refs w" by linarith
  moreover have "pool_inv bytes n (w\<lparr>heap := zero_size a (heap w), handles := (handles w)(a := 1),
      acquiring := remove1 a (acquiring w)\<rparr>)"
    using assms move_owner [of w a] calculation by (auto simp: pool_inv_def pool_counts_def)
  ultimately show ?thesis unfolding acquire_end_def by (intro pool_unref_inv) simp_all
qed

lemma drop_handle_frame [frame_simps]:
  "live (drop_handle a w) = (if handles w a \<le> 1 then live w - {a} else live w)"
  "pool (drop_handle a w) = pool w" "pool_free (drop_handle a w) = pool_free w"
  "acquiring (drop_handle a w) = acquiring w"
  "releasing (drop_handle a w) = (if handles w a \<le> 1 \<and> pool_refs w > 0 then a # releasing w else releasing w)"
  "pool_refs (drop_handle a w) = (if handles w a \<le> 1 \<and> pool_refs w > 0 then Suc (pool_refs w) else pool_refs w)"
  "heap (drop_handle a w) = (if handles w a \<le> 1 \<and> pool_refs w = 0 then (heap w)(a := None) else heap w)"
  by (auto simp: drop_handle_def Let_def live_def pool_free_def)

lemma drop_handle_inv [inv_intros]:
  assumes inv: "pool_inv bytes n w" and a: "handles w a > 0"
  shows "pool_inv bytes n (drop_handle a w)"
proof -
  have live: "a \<in> live w" using a by (simp add: live_def)
  have "pool_free w = []" if "pool_refs w = 0"
    using inv that by (simp add: pool_inv_def pool_counts_def pool_free_def)
  then have "owned_once (drop_handle a w)"
    using inv live unfolding owned_once_def frame_simps by (auto simp: pool_inv_def owned_once_def)
  moreover have "pool_counts bytes n (drop_handle a w)"
    using inv unfolding pool_counts_def frame_simps by (auto simp: pool_inv_def pool_counts_def)
  ultimately show ?thesis by (simp add: pool_inv_def)
qed

lemma release_end_inv [inv_intros]:
  assumes "pool_inv bytes n w" and "a \<in> set (releasing w)"
  shows "pool_inv bytes n (release_end a w)"
proof -
  have "0 < length (releasing w)" using assms(2) by (cases "releasing w") auto
  moreover have "length (remove1 a (releasing w)) = length (releasing w) - 1"
    using assms(2) by (simp add: length_remove1)
  moreover have "length (acquiring w) + length (releasing w) \<le> pool_refs w"
    using assms(1) by (simp add: pool_inv_def pool_counts_def)
  ultimately have refs: "length (acquiring w) + length (remove1 a (releasing w)) < pool_refs w" by linarith
  then obtain p where p: "pool w = Some p" using assms(1) by (fastforce simp: pool_inv_def pool_counts_def)
  have "pool_inv bytes n ((release a w)\<lparr>releasing := remove1 a (releasing w)\<rparr>)"
    using assms refs p by (auto simp: pool_inv_def owned_once_def pool_counts_def release_def pool_free_def live_def)
  then show ?thesis using refs unfolding release_end_def Let_def
    by (intro pool_unref_inv) (simp_all add: release_def)
qed

lemma use_buffer_inv [inv_intros]:
  assumes "pool_inv bytes n w"
    and "\<And>b. length (storage b) = bytes \<Longrightarrow> buf_size b \<le> bytes \<Longrightarrow> length (storage (f b)) = bytes \<and> buf_size (f b) \<le> bytes"
  shows "pool_inv bytes n (use_buffer a f w)"
proof -
  have "dom ((heap w)(a := map_option f (heap w a))) = dom (heap w)" by auto
  then show ?thesis using assms
    by (auto simp: pool_inv_def owned_once_def pool_counts_def use_buffer_def pool_free_def live_def split: if_splits)
qed

lemma pool_step_inv:
  assumes "pool_inv bytes n w" and "pool_step w w'"
  shows "pool_inv bytes n w'"
  using assms(2)
proof cases
  case (copy_handle a)
  then have "live (copy_handle a w) = live w" by (auto simp: live_def copy_handle_def)
  then show ?thesis using assms(1) copy_handle
    by (auto simp: pool_inv_def owned_once_def pool_counts_def copy_handle_def pool_free_def)
next
  case pool_copy
  then show ?thesis using assms(1) by (auto simp: pool_inv_def owned_once_def pool_counts_def pool_free_def live_def)
next
  case (resize a k)
  then show ?thesis using assms(1) by (auto simp: Buffer_Pool.resize_def intro: use_buffer_inv)
next
  case (store_byte a i v)
  then show ?thesis using assms(1) by (auto simp: Buffer_Pool.store_byte_def intro: use_buffer_inv)
qed (use assms(1) in \<open>auto intro: inv_intros\<close>)

interpretation bp: inductive_invariant "\<lambda>w. w = create bytes number" pool_step
    "pool_inv (if bytes = 0 then 1 else bytes) (if number = 0 then 1 else number)" for bytes number
  by unfold_locales (use create_inv pool_step_inv in blast)+

section \<open>What the pool guarantees\<close>

text \<open>
  C23: in every state that acquisitions, handle copies and drops, deleters and the end of the pool can lead to,
  in any interleaving: a held buffer is allocated, has the configured capacity, and is not free; no
  buffer is free twice; the counters add up, with \<open>in_use\<close> counting the held buffers and those in
  transit; and after the pool is gone exactly the held buffers are left allocated.
\<close>

theorem pool_ownership:
  assumes "reachable (\<lambda>w. w = create bytes number) pool_step w"
  shows "(\<forall>a. handles w a > 0 \<longrightarrow> a \<notin> set (pool_free w) \<and>
            (\<exists>b. heap w a = Some b \<and> buf_capacity b = (if bytes = 0 then 1 else bytes) \<and> buf_size b \<le> buf_capacity b)) \<and>
         distinct (pool_free w) \<and>
         (\<forall>p. pool w = Some p \<longrightarrow>
            in_use p = card (live w) + length (acquiring w) + length (releasing w) \<and> available p + in_use p = total p) \<and>
         (pool w = None \<longrightarrow> dom (heap w) = live w)"
proof -
  let ?bytes = "if bytes = 0 then 1 else bytes" and ?n = "if number = 0 then 1 else number"
  have inv: "pool_inv ?bytes ?n w" using assms by (rule bp.reachable_inv)
  note o = inv [unfolded pool_inv_def owned_once_def, THEN conjunct1]
    and c = inv [unfolded pool_inv_def pool_counts_def, THEN conjunct2]
  have cnt: "\<forall>p. pool w = Some p \<longrightarrow>
      in_use p = card (live w) + length (acquiring w) + length (releasing w) \<and> available p + in_use p = total p"
  proof (intro allI impI)
    fix p assume p: "pool w = Some p"
    let ?l = "free p @ acquiring w @ releasing w"
    have "distinct ?l" "live w \<inter> set ?l = {}" "dom (heap w) = live w \<union> set ?l"
      using o p by (simp_all only: pool_free_def option.case)
    moreover have "finite (live w)" using o by (metis finite_Un)
    ultimately have "card (dom (heap w)) = card (live w) + length ?l"
      by (simp only: card_Un_disjoint distinct_card List.finite_set)
    moreover have "card (dom (heap w)) = total p" using c p by simp
    ultimately show "in_use p = card (live w) + length (acquiring w) + length (releasing w) \<and>
        available p + in_use p = total p"
      by (simp add: in_use_def available_def)
  qed
  have gone: "pool w = None \<longrightarrow> dom (heap w) = live w"
    using o c by (auto simp: pool_free_def)
  have own: "\<forall>a. handles w a > 0 \<longrightarrow> a \<notin> set (pool_free w) \<and>
      (\<exists>b. heap w a = Some b \<and> buf_capacity b = ?bytes \<and> buf_size b \<le> buf_capacity b)"
  proof (intro allI impI)
    fix a assume "handles w a > 0"
    then have "a \<in> live w" by (simp add: live_def)
    then have "a \<in> dom (heap w)" "a \<notin> set (pool_free w)" using o by auto
    then obtain b where b: "heap w a = Some b" by blast
    then have "length (storage b) = ?bytes" "buf_size b \<le> ?bytes" using c by blast+
    then show "a \<notin> set (pool_free w) \<and>
        (\<exists>b. heap w a = Some b \<and> buf_capacity b = ?bytes \<and> buf_size b \<le> buf_capacity b)"
      using b \<open>a \<notin> set (pool_free w)\<close> by (simp add: buf_capacity_def)
  qed
  have "distinct (pool_free w)" using o by simp
  with own cnt gone show ?thesis by (intro conjI)
qed

lemmas pool_move = reachable.move [where step = pool_step]

lemma one_buffer_held:
  "reachable (\<lambda>w. w = create 4 2) pool_step (fst (acquire (create 4 2)))"
proof -
  let ?w = "fst (acquire_begin (create 4 2))"
  have "reachable (\<lambda>w. w = create 4 2) pool_step ?w"
    by (rule pool_move [OF reachable.start pool_step.acquire_begin]) (simp_all add: create_def preallocate_eq)
  moreover have "pool_step ?w (acquire_end 1 ?w)"
    by (rule pool_step.acquire_end)
      (simp add: acquire_begin_def acquire_locked_def create_def preallocate_eq new_pool_def)
  ultimately have "reachable (\<lambda>w. w = create 4 2) pool_step (acquire_end 1 ?w)" by (rule pool_move)
  then show ?thesis
    by (simp add: acquire_def acquire_begin_def acquire_locked_def create_def preallocate_eq new_pool_def)
qed

theorem pool_ownership_witness:
  "handles (fst (acquire (create 4 2))) 1 > 0 \<and> 1 \<notin> set (pool_free (fst (acquire (create 4 2))))"
proof -
  have "handles (fst (acquire (create 4 2))) 1 > 0"
    by (simp add: acquire_def acquire_begin_def acquire_locked_def create_def preallocate_eq new_pool_def
        acquire_end_def pool_unref_def)
  then show ?thesis using pool_ownership [OF one_buffer_held] by blast
qed

text \<open>
  \<^verbatim>\<open>acquire\<close> on an empty free list changes nothing but the exhaustion counter and returns no handle;
  otherwise it hands out the most recently returned buffer as the only handle to it, empty, with the
  bytes of its previous use still in place.
\<close>

theorem acquire_result:
  assumes "pool w = Some p" and "pool_refs w > 0"
  shows "acquire w =
    (if free p = [] then (w\<lparr>pool := Some (p\<lparr>exhausted := exhausted p + 1\<rparr>)\<rparr>, None)
     else let a = last (free p)
          in (w\<lparr>heap := zero_size a (heap w), pool := Some (p\<lparr>free := butlast (free p)\<rparr>),
                handles := (handles w)(a := 1)\<rparr>, Some a))"
  using assms by (simp add: acquire_def acquire_begin_def acquire_locked_def acquire_end_def pool_unref_def Let_def)

theorem acquire_result_witness:
  "snd (acquire (create 4 2)) = Some 1"
  using acquire_result [of "create 4 2"] by (simp add: create_def preallocate_eq new_pool_def Let_def)

text \<open>
  Giving back the last handle while the pool lives and acquiring again yields the same buffer, empty, with
  the stored bytes and the rest of the free list unchanged.
\<close>

theorem release_then_acquire:
  assumes "pool w = Some p" and "pool_refs w > 0" and "handles w a = 1" and "a \<notin> set (releasing w)"
    and "heap w a = Some b"
  shows "\<exists>w'. acquire (release_end a (drop_handle a w)) = (w', Some a) \<and> heap w' a = Some (b\<lparr>buf_size := 0\<rparr>) \<and>
           handles w' a = 1 \<and> pool_free w' = free p"
proof -
  let ?w = "release_end a (drop_handle a w)"
  have w: "?w = w\<lparr>heap := zero_size a (heap w), pool := Some (p\<lparr>free := free p @ [a]\<rparr>), handles := (handles w)(a := 0)\<rparr>"
    using assms(1-4) by (simp add: release_end_def release_def drop_handle_def pool_unref_def Let_def)
  show ?thesis using assms unfolding w
    by (simp add: acquire_def acquire_begin_def acquire_locked_def acquire_end_def pool_unref_def zero_size_def pool_free_def)
qed

theorem release_then_acquire_witness:
  "\<exists>w'. acquire (release_end 1 (drop_handle 1 (fst (acquire (create 4 2))))) = (w', Some 1) \<and>
     heap w' 1 = Some (new_buffer 4) \<and> handles w' 1 = 1 \<and> pool_free w' = [0]"
proof -
  let ?w = "fst (acquire (create 4 2))" and ?p = "\<lparr>free = [0], buffer_bytes = 4, total = 2, exhausted = 0\<rparr>"
  have "[0..<2] = [0, 1 :: nat]" by (simp add: upt_rec)
  then have "pool ?w = Some ?p" "pool_refs ?w > 0" "handles ?w 1 = 1" "1 \<notin> set (releasing ?w)"
    "heap ?w 1 = Some (new_buffer 4)"
    by (simp_all add: acquire_def acquire_begin_def acquire_locked_def create_def preallocate_eq new_pool_def
        acquire_end_def pool_unref_def zero_size_def new_buffer_def)
  from release_then_acquire [OF this] show ?thesis by (simp add: new_buffer_def)
qed

end
