(* ===== verification/Thread_Pool.thy ===== *)
theory Thread_Pool
  imports Bounded_Queue "HOL-Library.Multiset"
begin

text \<open>
  \<^verbatim>\<open>code/include/rdb/concurrency/thread_pool.h\<close>: workers that pop tasks from a blocking queue until it is
  closed and empty, and a \<^verbatim>\<open>stop\<close> that optionally discards the queued tasks, closes the queue and joins.
  A call of the queue is the atomic section of \<open>Bounded_Queue\<close> that ends it; a call that would wait is
  simply not enabled until it no longer would. That a waiting thread is then indeed woken is the
  subject of \<open>Queue_Machine\<close>.

  Tasks are values of any type. \<^verbatim>\<open>submit\<close> wraps the callable in a packaged task whose future becomes ready
  when the task has run and broken when it is destroyed without having run, so the ghost lists
  \<open>executed\<close> and \<open>taken\<close> say which futures are ready and which are broken. A posted task that
  throws ends the process and is outside the model.
\<close>

section \<open>State\<close>

datatype 'a worker = Popping | Running 'a | Ran | Exited

text \<open>How far the effective call of \<^verbatim>\<open>stop\<close> is, with its argument \<^verbatim>\<open>drain\<close>.\<close>

datatype stop_pc = Not_stopped | Flagged bool | Clearing_done bool | Joining bool | Joined bool

record 'a ThreadPool =
  tp_queue :: "'a BoundedQueue"
  workers :: "'a worker list"
  stopping :: bool
  completed :: u64
  stop_at :: stop_pc
  accepted_tasks :: "'a list"
  taken :: "('a + 'a) list"    \<comment> \<open>\<open>Inl\<close> popped by a worker, \<open>Inr\<close> discarded by \<^verbatim>\<open>stop(false)\<close>\<close>
  executed :: "'a list"

definition new_thread_pool :: "nat \<Rightarrow> nat \<Rightarrow> 'a ThreadPool" where
  "new_thread_pool n cap =
     \<lparr>tp_queue = new_queue cap Block, workers = replicate (if n = 0 then 1 else n) Popping,
      stopping = False, completed = 0, stop_at = Not_stopped,
      accepted_tasks = [], taken = [], executed = []\<rparr>"

section \<open>Posting\<close>

text \<open>The pool after a push that returned, and whether it returned \<open>Ok\<close>; \<open>None\<close> while the push waits.\<close>

definition posted :: "'a \<Rightarrow> 'a ThreadPool \<Rightarrow> 'a option \<times> 'a BoundedQueue \<times> PushStatus outcome \<times> signal list \<Rightarrow>
    ('a ThreadPool \<times> bool) option" where
  "posted t s r =
     (case r of
        (_, q, Return st, _) \<Rightarrow>
          Some (s\<lparr>tp_queue := q, accepted_tasks := accepted_tasks s @ (if st = Ok then [t] else [])\<rparr>, st = Ok)
      | (_, _, Waiting, _) \<Rightarrow> None)"

definition post :: "'a \<Rightarrow> 'a ThreadPool \<Rightarrow> ('a ThreadPool \<times> bool) option" where
  "post t s = posted t s (push (tp_queue s) t)"

definition try_post :: "'a \<Rightarrow> 'a ThreadPool \<Rightarrow> ('a ThreadPool \<times> bool) option" where
  "try_post t s = posted t s (try_push (tp_queue s) t)"

text \<open>The future \<^verbatim>\<open>submit\<close> returns is named by its task.\<close>

definition submit :: "'a \<Rightarrow> 'a ThreadPool \<Rightarrow> ('a ThreadPool \<times> 'a option) option" where
  "submit f s = (case post f s of None \<Rightarrow> None | Some (s', ok) \<Rightarrow> Some (s', if ok then Some f else None))"

section \<open>Workers\<close>

definition set_worker :: "nat \<Rightarrow> 'a worker \<Rightarrow> 'a ThreadPool \<Rightarrow> 'a ThreadPool" where
  "set_worker i w s = s\<lparr>workers := (workers s)[i := w]\<rparr>"

definition worker_pop :: "nat \<Rightarrow> 'a ThreadPool \<Rightarrow> 'a ThreadPool option" where
  "worker_pop i s =
     (case pop (tp_queue s) of
        (q, Return (Some t), _) \<Rightarrow> Some (set_worker i (Running t) (s\<lparr>tp_queue := q, taken := taken s @ [Inl t]\<rparr>))
      | (q, Return None, _) \<Rightarrow> Some (set_worker i Exited (s\<lparr>tp_queue := q\<rparr>))
      | (_, Waiting, _) \<Rightarrow> None)"

inductive worker_step :: "'a ThreadPool \<Rightarrow> 'a ThreadPool \<Rightarrow> bool" where
  pop: "i < length (workers s) \<Longrightarrow> workers s ! i = Popping \<Longrightarrow> worker_pop i s = Some s' \<Longrightarrow> worker_step s s'"
| execute: "i < length (workers s) \<Longrightarrow> workers s ! i = Running t \<Longrightarrow>
    worker_step s (set_worker i Ran (s\<lparr>executed := executed s @ [t]\<rparr>))"
| count: "i < length (workers s) \<Longrightarrow> workers s ! i = Ran \<Longrightarrow>
    worker_step s (set_worker i Popping (s\<lparr>completed := completed s + 1\<rparr>))"

section \<open>Stopping\<close>

text \<open>The compare-and-swap: only the first call of \<^verbatim>\<open>stop\<close> goes on.\<close>

definition stop_begin :: "bool \<Rightarrow> 'a ThreadPool \<Rightarrow> 'a ThreadPool" where
  "stop_begin drain s = (if stopping s then s else s\<lparr>stopping := True, stop_at := Flagged drain\<rparr>)"

definition stop_clear :: "bool \<Rightarrow> 'a ThreadPool \<Rightarrow> 'a ThreadPool" where
  "stop_clear drain s =
     (if drain then s\<lparr>stop_at := Clearing_done drain\<rparr>
      else case clear (tp_queue s) of
             (ts, q, _) \<Rightarrow> s\<lparr>tp_queue := q, taken := taken s @ map Inr ts, stop_at := Clearing_done drain\<rparr>)"

definition stop_close :: "bool \<Rightarrow> 'a ThreadPool \<Rightarrow> 'a ThreadPool" where
  "stop_close drain s = s\<lparr>tp_queue := close_locked (tp_queue s), stop_at := Joining drain\<rparr>"

definition stop_join :: "bool \<Rightarrow> 'a ThreadPool \<Rightarrow> 'a ThreadPool" where
  "stop_join drain s = s\<lparr>workers := [], stop_at := Joined drain\<rparr>"

definition thread_count :: "'a ThreadPool \<Rightarrow> nat" where "thread_count s = length (workers s)"
definition pending :: "'a ThreadPool \<Rightarrow> nat" where "pending s = queue_size (tp_queue s)"
definition queue_high_water :: "'a ThreadPool \<Rightarrow> nat" where "queue_high_water s = high_water (tp_queue s)"

inductive pool_run :: "'a ThreadPool \<Rightarrow> 'a ThreadPool \<Rightarrow> bool" where
  post: "post t s = Some (s', ok) \<Longrightarrow> pool_run s s'"
| try_post: "try_post t s = Some (s', ok) \<Longrightarrow> pool_run s s'"
| submit: "submit t s = Some (s', f) \<Longrightarrow> pool_run s s'"
| work: "worker_step s s' \<Longrightarrow> pool_run s s'"
| stop_begin: "pool_run s (stop_begin drain s)"
| stop_clear: "stop_at s = Flagged drain \<Longrightarrow> pool_run s (stop_clear drain s)"
| stop_close: "stop_at s = Clearing_done drain \<Longrightarrow> pool_run s (stop_close drain s)"
| stop_join: "stop_at s = Joining drain \<Longrightarrow> set (workers s) \<subseteq> {Exited} \<Longrightarrow> pool_run s (stop_join drain s)"

section \<open>Invariant\<close>

definition running :: "'a worker list \<Rightarrow> 'a multiset" where
  "running ws = sum_list (map (\<lambda>w. case w of Running t \<Rightarrow> {#t#} | _ \<Rightarrow> {#}) ws)"

definition uncounted :: "'a worker list \<Rightarrow> nat" where
  "uncounted ws = sum_list (map (\<lambda>w. case w of Ran \<Rightarrow> 1 | _ \<Rightarrow> 0) ws)"

definition tasks_inv :: "'a ThreadPool \<Rightarrow> bool" where
  "tasks_inv s \<longleftrightarrow>
     queue_inv (tp_queue s) \<and> policy (tp_queue s) = Block \<and>
     accepted_tasks s = map untag (taken s) @ items (tp_queue s) \<and>
     mset (lefts (taken s)) = mset (executed s) + running (workers s) \<and>
     completed s + of_nat (uncounted (workers s)) = of_nat (length (executed s))"

fun has_closed :: "stop_pc \<Rightarrow> bool" where
  "has_closed (Joining _) = True"
| "has_closed (Joined _) = True"
| "has_closed _ = False"

fun has_joined :: "stop_pc \<Rightarrow> bool" where
  "has_joined (Joined _) = True"
| "has_joined _ = False"

fun may_discard :: "stop_pc \<Rightarrow> bool" where
  "may_discard (Clearing_done drain) = (\<not> drain)"
| "may_discard (Joining drain) = (\<not> drain)"
| "may_discard (Joined drain) = (\<not> drain)"
| "may_discard _ = False"

definition stop_inv :: "'a ThreadPool \<Rightarrow> bool" where
  "stop_inv s \<longleftrightarrow>
     (stopping s \<longleftrightarrow> stop_at s \<noteq> Not_stopped) \<and>
     (closed (tp_queue s) \<longleftrightarrow> has_closed (stop_at s)) \<and>
     (Exited \<in> set (workers s) \<or> has_joined (stop_at s) \<longrightarrow> closed (tp_queue s) \<and> items (tp_queue s) = []) \<and>
     (has_joined (stop_at s) \<longleftrightarrow> workers s = []) \<and>
     (rights (taken s) \<noteq> [] \<longrightarrow> may_discard (stop_at s))"

lemma no_workers [simp]: "running [] = {#}" "uncounted [] = 0"
  by (simp_all add: running_def uncounted_def)

lemma running_update:
  "i < length ws \<Longrightarrow> running (ws[i := w]) + (case ws ! i of Running t \<Rightarrow> {#t#} | _ \<Rightarrow> {#}) =
     running ws + (case w of Running t \<Rightarrow> {#t#} | _ \<Rightarrow> {#})"
  unfolding running_def by (rule sum_list_replace)

lemma uncounted_update:
  "i < length ws \<Longrightarrow> uncounted (ws[i := w]) + (case ws ! i of Ran \<Rightarrow> 1 | _ \<Rightarrow> 0) =
     uncounted ws + (case w of Ran \<Rightarrow> 1 | _ \<Rightarrow> 0)"
  unfolding uncounted_def by (rule sum_list_replace)

text \<open>The outcomes of posting and of a worker's pop.\<close>

lemma posted_cases [consumes 2, case_names Closed Full Ok]:
  assumes "posted t s (push_until (tp_queue s) t dl) = Some (s', ok)" and "policy (tp_queue s) = Block"
  obtains (Closed) "closed (tp_queue s)" "s' = s" "\<not> ok"
  | (Full) "\<not> closed (tp_queue s)" "s' = s" "\<not> ok"
  | (Ok) "\<not> closed (tp_queue s)" "length (items (tp_queue s)) < capacity (tp_queue s)" "ok"
      "s' = s\<lparr>tp_queue := push_back (tp_queue s) t, accepted_tasks := accepted_tasks s @ [t]\<rparr>"
proof -
  obtain ev q oc sg where p: "push_until (tp_queue s) t dl = (ev, q, oc, sg)" by (metis prod_cases4)
  from p show ?thesis
    by (cases rule: push_until_cases) (use assms p in \<open>auto simp: posted_def intro: that\<close>)
qed

lemma worker_pop_cases [consumes 1, case_names Exit Task]:
  assumes "worker_pop i s = Some s'"
  obtains (Exit) "items (tp_queue s) = []" "closed (tp_queue s)" "s' = set_worker i Exited s"
  | (Task) t ts where "items (tp_queue s) = t # ts"
      "s' = set_worker i (Running t) (s\<lparr>tp_queue := (tp_queue s)\<lparr>items := ts\<rparr>, taken := taken s @ [Inl t]\<rparr>)"
proof -
  obtain q oc sg where p: "pop_until (tp_queue s) tp_max = (q, oc, sg)" by (metis prod_cases3)
  have "tp_max \<noteq> tp_min" by (simp add: tp_max_def tp_min_def)
  with p show ?thesis
    by (cases rule: pop_until_cases) (use assms p in \<open>auto simp: worker_pop_def pop_def intro: that\<close>)
qed

lemma posted_inv:
  assumes "tasks_inv s" and "stop_inv s" and "posted t s (push_until (tp_queue s) t dl) = Some (s', ok)"
  shows "tasks_inv s'" and "stop_inv s'"
proof -
  have "policy (tp_queue s) = Block" using assms(1) by (simp add: tasks_inv_def)
  with assms(3) have "tasks_inv s' \<and> stop_inv s'"
    by (cases rule: posted_cases) (use assms(1,2) in \<open>auto simp: tasks_inv_def stop_inv_def intro: push_back_inv\<close>)
  then show "tasks_inv s'" and "stop_inv s'" by blast+
qed

lemma worker_tasks_inv:
  assumes "tasks_inv s" and "worker_step s s'"
  shows "tasks_inv s'"
  using assms(2)
proof cases
  case (pop i)
  note up = running_update [OF pop(1)] uncounted_update [OF pop(1)]
  from pop(3) show ?thesis
  proof (cases rule: worker_pop_cases)
    case Exit
    then show ?thesis using assms(1) pop(2) up [of Exited] by (simp add: tasks_inv_def set_worker_def)
  next
    case (Task t ts)
    then show ?thesis using assms(1) pop(2) up [of "Running t"] by (auto simp: tasks_inv_def set_worker_def queue_inv_def)
  qed
next
  case (execute i t)
  then show ?thesis using assms(1) running_update [OF execute(2), of Ran] uncounted_update [OF execute(2), of Ran]
    by (simp add: tasks_inv_def set_worker_def)
next
  case (count i)
  have "uncounted (workers s) = Suc (uncounted ((workers s)[i := Popping]))"
    using uncounted_update [OF count(2), of Popping] count(3) by simp
  then show ?thesis using assms(1) running_update [OF count(2), of Popping] count
    by (simp add: tasks_inv_def set_worker_def algebra_simps)
qed

lemma set_update_sub: "Exited \<in> set (ws[i := w]) \<Longrightarrow> w \<noteq> Exited \<Longrightarrow> Exited \<in> set ws"
  using set_update_subset_insert [of ws i w] by auto

lemma worker_stop_inv:
  assumes "stop_inv s" and "worker_step s s'"
  shows "stop_inv s'"
  using assms(2)
proof cases
  case (pop i)
  from pop(3) show ?thesis
    by (cases rule: worker_pop_cases)
      (use assms(1) pop(1) in \<open>auto simp: stop_inv_def set_worker_def dest: set_update_sub\<close>)
qed (use assms(1) in \<open>auto simp: stop_inv_def set_worker_def dest: set_update_sub\<close>)

lemma exited_idle: "set ws \<subseteq> {Exited} \<Longrightarrow> running ws = {#} \<and> uncounted ws = 0"
  by (induction ws) (auto simp: running_def uncounted_def)

definition thread_pool_inv :: "'a ThreadPool \<Rightarrow> bool" where
  "thread_pool_inv s \<longleftrightarrow> tasks_inv s \<and> stop_inv s"

lemma pool_run_inv:
  assumes "thread_pool_inv s" and "pool_run s s'"
  shows "thread_pool_inv s'"
proof -
  have inv: "tasks_inv s" "stop_inv s" using assms(1) by (simp_all add: thread_pool_inv_def)
  note posted = posted_inv [OF inv]
  from assms(2) have "tasks_inv s' \<and> stop_inv s'"
  proof cases
    case (submit t f)
    then show ?thesis using posted by (auto simp: submit_def post_def push_def split: option.splits)
  next
    case (work)
    then show ?thesis using worker_tasks_inv worker_stop_inv inv by blast
  next
    case (stop_clear drain)
    then show ?thesis using inv
      by (auto simp: Thread_Pool.stop_clear_def tasks_inv_def stop_inv_def clear_def queue_inv_def comp_def)
  next
    case (stop_join drain)
    then have "running (workers s) = {#}" "uncounted (workers s) = 0" using exited_idle by blast+
    moreover have "Exited \<in> set (workers s)" using stop_join inv(2) by (cases "workers s") (auto simp: stop_inv_def)
    ultimately show ?thesis using inv stop_join
      by (auto simp: tasks_inv_def stop_inv_def stop_join_def)
  next
    case (post t ok)
    then show ?thesis using posted by (simp add: post_def push_def)
  next
    case (try_post t ok)
    then show ?thesis using posted by (simp add: try_post_def try_push_def)
  next
    case (stop_begin drain)
    then show ?thesis using inv by (auto simp: Thread_Pool.stop_begin_def tasks_inv_def stop_inv_def)
  next
    case (stop_close drain)
    then show ?thesis using inv
      by (auto simp: Thread_Pool.stop_close_def tasks_inv_def stop_inv_def close_locked_def queue_inv_def)
  qed
  then show ?thesis by (simp add: thread_pool_inv_def)
qed

lemma popping_workers [simp]: "running (replicate k Popping) = {#}" "uncounted (replicate k Popping) = 0"
  by (induction k) (simp_all add: running_def uncounted_def)

lemma new_thread_pool_inv: "thread_pool_inv (new_thread_pool n cap)"
proof -
  have "tasks_inv (new_thread_pool n cap)"
    by (simp add: tasks_inv_def new_thread_pool_def new_queue_inv split del: if_split)
  moreover have "stop_inv (new_thread_pool n cap)" by (simp add: stop_inv_def new_thread_pool_def new_queue_def)
  ultimately show ?thesis by (simp add: thread_pool_inv_def)
qed

interpretation tpm: inductive_invariant "\<lambda>s. s = new_thread_pool n cap" pool_run thread_pool_inv for n cap
  by unfold_locales (use new_thread_pool_inv pool_run_inv in blast)+

section \<open>What the pool guarantees\<close>

text \<open>
  Whatever the interleaving of posts, workers and \<open>stop\<close>, tasks leave the queue in the order of their
  acceptance, and each accepted task is in exactly one place: queued, discarded by \<open>stop(false)\<close>,
  running, or executed, and then executed once. \<open>completed\<close> trails the executed tasks only by the workers
  between running a task and counting it.
\<close>

theorem pool_conserves_tasks:
  assumes "reachable (\<lambda>s. s = new_thread_pool n cap) pool_run s"
  shows "accepted_tasks s = map untag (taken s) @ items (tp_queue s) \<and>
         mset (accepted_tasks s) =
           mset (executed s) + running (workers s) + mset (rights (taken s)) + mset (items (tp_queue s)) \<and>
         completed s + of_nat (uncounted (workers s)) = of_nat (length (executed s))"
proof -
  have "tasks_inv s" using tpm.reachable_inv [OF assms] by (simp add: thread_pool_inv_def)
  then show ?thesis using lefts_rights [of "taken s"] by (auto simp: tasks_inv_def ac_simps)
qed

text \<open>A run: one task posted, executed and counted, then a draining stop.\<close>

definition run_state :: "nat list \<Rightarrow> bool \<Rightarrow> nat worker list \<Rightarrow> stop_pc \<Rightarrow> u64 \<Rightarrow> (nat + nat) list \<Rightarrow> nat list \<Rightarrow> nat ThreadPool" where
  "run_state its cl ws at c tk ex =
     \<lparr>tp_queue = \<lparr>items = its, capacity = 1, policy = Block, closed = cl, dropped = 0, high_water = 1\<rparr>,
      workers = ws, stopping = (at \<noteq> Not_stopped), completed = c, stop_at = at,
      accepted_tasks = [7], taken = tk, executed = ex\<rparr>"

lemmas tp_move = reachable.move [where step = pool_run]

abbreviation run_reachable :: "nat ThreadPool \<Rightarrow> bool" where
  "run_reachable \<equiv> reachable (\<lambda>s. s = new_thread_pool 1 1) pool_run"

lemmas run_simps = run_state_def post_def posted_def push_def push_until_def push_back_def Let_def
  worker_pop_def pop_def pop_until_def pop_front_def set_worker_def stop_clear_def stop_close_def stop_join_def
  stop_begin_def close_locked_def new_thread_pool_def new_queue_def

lemma run_counted: "run_reachable (run_state [] False [Popping] Not_stopped 1 [Inl 7] [7])"
proof -
  have "post 7 (new_thread_pool 1 1) = Some (run_state [7] False [Popping] Not_stopped 0 [] [], True)"
    by (simp add: run_simps)
  from tp_move [OF reachable.start pool_run.post [OF this]]
  have "run_reachable (run_state [7] False [Popping] Not_stopped 0 [] [])" by simp
  moreover have "worker_step (run_state [7] False [Popping] Not_stopped 0 [] []) (run_state [] False [Running 7] Not_stopped 0 [Inl 7] [])"
    by (rule worker_step.pop [of 0]) (simp_all add: run_simps)
  moreover have "worker_step (run_state [] False [Running 7] Not_stopped 0 [Inl 7] []) (run_state [] False [Ran] Not_stopped 0 [Inl 7] [7])"
    using worker_step.execute [of 0 "run_state [] False [Running 7] Not_stopped 0 [Inl 7] []" 7] by (simp add: run_simps)
  moreover have "worker_step (run_state [] False [Ran] Not_stopped 0 [Inl 7] [7]) (run_state [] False [Popping] Not_stopped 1 [Inl 7] [7])"
    using worker_step.count [of 0 "run_state [] False [Ran] Not_stopped 0 [Inl 7] [7]"] by (simp add: run_simps)
  ultimately show ?thesis by (meson tp_move pool_run.work)
qed

lemma run_stopped: "run_reachable (run_state [] True [] (Joined True) 1 [Inl 7] [7])"
proof -
  let ?st = "\<lambda>cl ws at. run_state [] cl ws at 1 [Inl 7] [7]"
  have "pool_run (?st False [Popping] Not_stopped) (?st False [Popping] (Flagged True))"
    using pool_run.stop_begin [of "?st False [Popping] Not_stopped" True] by (simp add: run_simps)
  moreover have "pool_run (?st False [Popping] (Flagged True)) (?st False [Popping] (Clearing_done True))"
    using pool_run.stop_clear [of "?st False [Popping] (Flagged True)" True] by (simp add: run_simps)
  moreover have "pool_run (?st False [Popping] (Clearing_done True)) (?st True [Popping] (Joining True))"
    using pool_run.stop_close [of "?st False [Popping] (Clearing_done True)" True] by (simp add: run_simps)
  moreover have "worker_step (?st True [Popping] (Joining True)) (?st True [Exited] (Joining True))"
    by (rule worker_step.pop [of 0]) (simp_all add: run_simps)
  moreover have "pool_run (?st True [Exited] (Joining True)) (?st True [] (Joined True))"
    using pool_run.stop_join [of "?st True [Exited] (Joining True)" True] by (simp add: run_simps)
  ultimately show ?thesis using run_counted by (meson tp_move pool_run.work)
qed

theorem pool_conserves_tasks_witness:
  "completed (run_state [] False [Popping] Not_stopped 1 [Inl 7] [7]) + of_nat (uncounted [Popping :: nat worker]) = 1"
  using pool_conserves_tasks [OF run_counted] by (simp add: run_state_def)

text \<open>
  C22: when \<open>stop(true)\<close> has joined, every accepted task has been executed exactly once and counted, none was
  discarded, and further posts are refused; after \<open>stop(false)\<close> every accepted task was executed or
  discarded, so that no future is left pending.
\<close>

theorem stop_settles_tasks:
  assumes "reachable (\<lambda>s. s = new_thread_pool n cap) pool_run s" and "stop_at s = Joined drain"
  shows "items (tp_queue s) = [] \<and>
         mset (accepted_tasks s) = mset (executed s) + mset (rights (taken s)) \<and>
         (drain \<longrightarrow> rights (taken s) = [] \<and> completed s = of_nat (length (accepted_tasks s))) \<and>
         post t s = Some (s, False) \<and> try_post t s = Some (s, False)"
proof -
  have inv: "tasks_inv s" "stop_inv s" using tpm.reachable_inv [OF assms(1)] by (simp_all add: thread_pool_inv_def)
  then have s: "items (tp_queue s) = []" "closed (tp_queue s)" "workers s = []"
    "drain \<longrightarrow> rights (taken s) = []" using assms(2) by (auto simp: stop_inv_def)
  then have m: "mset (accepted_tasks s) = mset (executed s) + mset (rights (taken s))"
    and c: "completed s = of_nat (length (executed s))"
    using inv(1) lefts_rights [of "taken s"] by (auto simp: tasks_inv_def)
  have "completed s = of_nat (length (accepted_tasks s))" if drain
    using that m c s(4) by (simp flip: size_mset)
  moreover have "post t s = Some (s, False)" "try_post t s = Some (s, False)"
    using s(2) by (simp_all add: post_def try_post_def posted_def push_def try_push_def push_until_def)
  ultimately show ?thesis using m s by simp
qed

theorem stop_settles_tasks_witness:
  "post 8 (run_state [] True [] (Joined True) 1 [Inl 7] [7]) = Some (run_state [] True [] (Joined True) 1 [Inl 7] [7], False)"
  using stop_settles_tasks [OF run_stopped, of True 8] by (simp add: run_state_def)

text \<open>
  Once the queue is closed the workers run out of work: each of their steps makes \<open>work_left\<close> smaller,
  nothing makes it larger, and until all have exited one of them can go on.
\<close>

fun worker_work :: "'a worker \<Rightarrow> nat" where
  "worker_work Popping = 1"
| "worker_work (Running t) = 3"
| "worker_work Ran = 2"
| "worker_work Exited = 0"

definition work_left :: "'a ThreadPool \<Rightarrow> nat" where
  "work_left s = 3 * length (items (tp_queue s)) + sum_list (map worker_work (workers s))"

lemma worker_step_work:
  assumes "worker_step s s'"
  shows "work_left s' < work_left s"
  using assms
proof cases
  case (pop i)
  note up = sum_list_replace [OF pop(1), of worker_work]
  from pop(3) show ?thesis
  proof (cases rule: worker_pop_cases)
    case Exit
    then show ?thesis using up [of Exited] pop(2) by (simp add: work_left_def set_worker_def)
  next
    case (Task t ts)
    then show ?thesis using up [of "Running t"] pop(2) by (simp add: work_left_def set_worker_def)
  qed
next
  case (execute i t)
  then show ?thesis using sum_list_replace [OF execute(2), of worker_work Ran] by (simp add: work_left_def set_worker_def)
next
  case (count i)
  then show ?thesis using sum_list_replace [OF count(2), of worker_work Popping] by (simp add: work_left_def set_worker_def)
qed

lemma worker_enabled:
  assumes "closed (tp_queue s)" and "i < length (workers s)" and "workers s ! i \<noteq> Exited"
  shows "\<exists>s'. worker_step s s'"
proof (cases "workers s ! i")
  case Popping
  obtain s' where "worker_pop i s = Some s'"
    using assms(1) by (cases "items (tp_queue s)")
      (simp_all add: worker_pop_def pop_def pop_until_def pop_front_def)
  then show ?thesis using worker_step.pop [OF assms(2) Popping] by blast
next
  case (Running t)
  show ?thesis using worker_step.execute [OF assms(2) Running] by blast
next
  case Ran
  show ?thesis using worker_step.count [OF assms(2) Ran] by blast
qed (use assms(3) in simp)

lemma worker_step_closed: "worker_step s s' \<Longrightarrow> closed (tp_queue s') = closed (tp_queue s)"
  by (induction rule: worker_step.induct) (auto simp: set_worker_def elim!: worker_pop_cases)

text \<open>
  C36: the join of \<open>stop\<close> ends, tasks returning: from any state with a closed queue, the workers can always go on
  until all have exited, and they do so after at most \<open>work_left\<close> steps whatever the schedule.
\<close>

theorem stop_join_terminates:
  assumes "closed (tp_queue s)"
  shows "(\<forall>k s'. (worker_step ^^ k) s s' \<longrightarrow> k \<le> work_left s) \<and>
         (\<forall>s'. worker_step\<^sup>*\<^sup>* s s' \<longrightarrow> set (workers s') \<subseteq> {Exited} \<or> (\<exists>s''. worker_step s' s''))"
proof (intro conjI allI impI)
  fix k s' assume "(worker_step ^^ k) s s'"
  then have "k + work_left s' \<le> work_left s"
  proof (induction k arbitrary: s')
    case (Suc k)
    then obtain u where "(worker_step ^^ k) s u" "worker_step u s'" by auto
    then show ?case using Suc.IH worker_step_work by fastforce
  qed simp
  then show "k \<le> work_left s" by simp
next
  fix s' assume "worker_step\<^sup>*\<^sup>* s s'"
  then have "closed (tp_queue s')" using assms by induction (auto simp: worker_step_closed)
  then show "set (workers s') \<subseteq> {Exited} \<or> (\<exists>s''. worker_step s' s'')"
    using worker_enabled by (metis in_set_conv_nth insertCI subsetI)
qed

theorem stop_join_terminates_witness:
  "\<exists>s''. worker_step (stop_close True (new_thread_pool 2 4 :: nat ThreadPool)) s''"
proof -
  let ?s = "stop_close True (new_thread_pool 2 4 :: nat ThreadPool)"
  have "closed (tp_queue ?s)" "\<not> set (workers ?s) \<subseteq> {Exited}"
    by (simp_all add: stop_close_def close_locked_def new_thread_pool_def)
  then show ?thesis using stop_join_terminates [of ?s] by blast
qed

end
