(* ===== verification/Topic_Bus.thy ===== *)
theory Topic_Bus
  imports Qos Bounded_Queue "HOL-Library.AList"
begin

text \<open>
  \<^verbatim>\<open>code/include/rdb/bus/topic_bus.h\<close>: the data of the bus and its operations, cut where the code takes or
  leaves the bus mutex or calls a queue. How the pieces interleave is the subject of \<open>Bus_Machine\<close>.

  Subscription objects live at addresses (\<open>sub_objs\<close>), which stand for the shared pointers; the
  hash map of topics is an association list. A \<^verbatim>\<open>std::type_index\<close> is a value of any type \<open>'ty\<close>. Payloads
  are erased to \<^verbatim>\<open>shared_ptr<const void>\<close> in the code; the ghost field \<open>made_as\<close> remembers the type a payload
  was published with, and \<open>pub_log\<close> all that was published on a topic.
  The ghost lists of a subscription record what entered and left its queue and what became of it. No
  operation reads a ghost field.
\<close>

section \<open>Envelopes and subscriptions\<close>

record ('ty, 'm) Envelope =
  payload :: 'm
  seq :: u64
  publish_ns :: u64
  made_as :: 'ty

datatype ('ty, 'm) sub_worker =
    Not_started
  | At_pop
  | Holding "('ty, 'm) Envelope"
  | In_callback "('ty, 'm) Envelope"
  | Returned
  | Thread_joined

record ('ty, 'm) Subscription =
  sub_topic :: string
  sub_type :: 'ty
  sub_qos :: QoS
  sub_queue :: "('ty, 'm) Envelope BoundedQueue"
  sub_worker_at :: "('ty, 'm) sub_worker"
  delivered_n :: u64
  expired_n :: u64
  deadline_missed :: u64
  qos_rejected :: u64
  last_delivery_ns :: u64
  mismatch_reported :: bool
  arrived :: "('ty, 'm) Envelope list"
  departed :: "(('ty, 'm) Envelope + ('ty, 'm) Envelope) list"   \<comment> \<open>\<open>Inl\<close> popped, \<open>Inr\<close> evicted\<close>
  processed :: "(('ty, 'm) Envelope + ('ty, 'm) Envelope) list"  \<comment> \<open>\<open>Inl\<close> passed to the callback, \<open>Inr\<close> expired\<close>

definition new_subscription :: "string \<Rightarrow> 'ty \<Rightarrow> QoS \<Rightarrow> ('ty, 'm) Subscription" where
  "new_subscription topic ty q =
     \<lparr>sub_topic = topic, sub_type = ty, sub_qos = q,
      sub_queue = new_queue (depth q) (if reliability q = Reliable then Block else DropOldest),
      sub_worker_at = Not_started, delivered_n = 0, expired_n = 0, deadline_missed = 0, qos_rejected = 0,
      last_delivery_ns = 0, mismatch_reported = False,
      arrived = [], departed = [], processed = []\<rparr>"

record SubscriberStats =
  st_delivered :: u64
  st_dropped :: u64
  st_expired :: u64
  st_deadline_missed :: u64
  st_qos_rejected :: u64
  st_high_water :: nat

definition stats :: "('ty, 'm) Subscription option \<Rightarrow> SubscriberStats" where
  "stats h =
     (case h of
        None \<Rightarrow> \<lparr>st_delivered = 0, st_dropped = 0, st_expired = 0, st_deadline_missed = 0, st_qos_rejected = 0,
                 st_high_water = 0\<rparr>
      | Some s \<Rightarrow> \<lparr>st_delivered = delivered_n s, st_dropped = dropped (sub_queue s), st_expired = expired_n s,
                   st_deadline_missed = deadline_missed s, st_qos_rejected = qos_rejected s,
                   st_high_water = high_water (sub_queue s)\<rparr>)"

definition valid :: "('ty, 'm) Subscription option \<Rightarrow> bool" where
  "valid h \<longleftrightarrow> h \<noteq> None"

definition handle_queue_size :: "('ty, 'm) Subscription option \<Rightarrow> nat" where
  "handle_queue_size h = (case h of None \<Rightarrow> 0 | Some s \<Rightarrow> queue_size (sub_queue s))"

section \<open>Queue operations of a subscription\<close>

text \<open>The subscription after a section of a push of \<open>env\<close>, whether it returned or waits.\<close>

definition sub_pushed :: "('ty, 'm) Envelope \<Rightarrow>
    ('ty, 'm) Envelope option \<times> ('ty, 'm) Envelope BoundedQueue \<times> PushStatus outcome \<times> signal list \<Rightarrow>
    ('ty, 'm) Subscription \<Rightarrow> ('ty, 'm) Subscription" where
  "sub_pushed env r s =
     (case r of (ev, q, oc, _) \<Rightarrow>
        s\<lparr>sub_queue := q,
          arrived := arrived s @ (if oc = Return Ok \<or> oc = Return DroppedOldest then [env] else []),
          departed := departed s @ (case ev of None \<Rightarrow> [] | Some x \<Rightarrow> [Inr x])\<rparr>)"

text \<open>The worker of \<^verbatim>\<open>deliver_loop\<close>: \<^verbatim>\<open>pop\<close>, then the body of the loop on the envelope it got.\<close>

definition worker_take :: "('ty, 'm) Subscription \<Rightarrow> ('ty, 'm) Subscription option" where
  "worker_take s =
     (case pop (sub_queue s) of
        (q, Return (Some env), _) \<Rightarrow>
          Some (s\<lparr>sub_queue := q, sub_worker_at := Holding env, departed := departed s @ [Inl env]\<rparr>)
      | (q, Return None, _) \<Rightarrow> Some (s\<lparr>sub_queue := q, sub_worker_at := Returned\<rparr>)
      | (_, Waiting, _) \<Rightarrow> None)"

definition is_expired :: "u64 \<Rightarrow> QoS \<Rightarrow> ('ty, 'm) Envelope \<Rightarrow> bool" where
  "is_expired now q env \<longleftrightarrow>
     (let life = (of_int (if lifespan q > 0 then lifespan q else 0) :: u64)
      in life > 0 \<and> now > publish_ns env \<and> now - publish_ns env > life)"

text \<open>The body up to the call of the callback, and what follows when the callback has returned.\<close>

definition deliver_call :: "u64 \<Rightarrow> ('ty, 'm) Envelope \<Rightarrow> ('ty, 'm) Subscription \<Rightarrow> ('ty, 'm) Subscription" where
  "deliver_call now env s =
     (if is_expired now (sub_qos s) env
      then s\<lparr>expired_n := expired_n s + 1, processed := processed s @ [Inr env], sub_worker_at := At_pop\<rparr>
      else let s = (if deadline (sub_qos s) > 0
                    then let last = last_delivery_ns s; budget = (of_int (deadline (sub_qos s)) :: u64)
                         in if last \<noteq> 0 \<and> now - last > budget then s\<lparr>deadline_missed := deadline_missed s + 1\<rparr> else s
                    else s);
               s = s\<lparr>last_delivery_ns := now\<rparr>
           in s\<lparr>processed := processed s @ [Inl env], sub_worker_at := In_callback env\<rparr>)"

definition deliver_return :: "('ty, 'm) Subscription \<Rightarrow> ('ty, 'm) Subscription" where
  "deliver_return s = s\<lparr>delivered_n := delivered_n s + 1, sub_worker_at := At_pop\<rparr>"

text \<open>The whole body, when nothing is observed in between.\<close>

definition deliver :: "u64 \<Rightarrow> ('ty, 'm) Envelope \<Rightarrow> ('ty, 'm) Subscription \<Rightarrow> ('ty, 'm) Subscription" where
  "deliver now env s =
     (let s' = deliver_call now env s in if sub_worker_at s' = In_callback env then deliver_return s' else s')"

section \<open>Topics\<close>

record ('ty, 'm) TopicEntry =
  entry_type :: 'ty
  entry_subs :: "nat list"
  entry_latched :: "('ty, 'm) Envelope list"
  published :: u64
  pub_log :: "('ty, 'm) Envelope list"

record ('ty, 'm) TopicBus =
  topics :: "(string \<times> ('ty, 'm) TopicEntry) list"
  sub_objs :: "nat \<rightharpoonup> ('ty, 'm) Subscription"
  mismatch_handler :: bool
  qos_mismatches :: u64
  type_mismatches :: u64
  reliable_timeout :: nanos
  handler_calls :: "(string \<times> QosMismatch) list"

definition new_bus :: "('ty, 'm) TopicBus" where
  "new_bus = \<lparr>topics = [], sub_objs = Map.empty, mismatch_handler = False, qos_mismatches = 0,
              type_mismatches = 0, reliable_timeout = 100000000, handler_calls = []\<rparr>"

definition new_entry :: "'ty \<Rightarrow> ('ty, 'm) TopicEntry" where
  "new_entry ty = \<lparr>entry_type = ty, entry_subs = [], entry_latched = [], published = 0, pub_log = []\<rparr>"

definition ensure_topic :: "string \<Rightarrow> 'ty \<Rightarrow> ('ty, 'm) TopicBus \<Rightarrow> ('ty, 'm) TopicBus \<times> ('ty, 'm) TopicEntry" where
  "ensure_topic topic ty b =
     (case map_of (topics b) topic of
        Some e \<Rightarrow> (b, e)
      | None \<Rightarrow> (b\<lparr>topics := AList.update topic (new_entry ty) (topics b)\<rparr>, new_entry ty))"

definition set_entry :: "string \<Rightarrow> ('ty, 'm) TopicEntry \<Rightarrow> ('ty, 'm) TopicBus \<Rightarrow> ('ty, 'm) TopicBus" where
  "set_entry topic e b = b\<lparr>topics := AList.update topic e (topics b)\<rparr>"

definition set_sub :: "nat \<Rightarrow> ('ty, 'm) Subscription \<Rightarrow> ('ty, 'm) TopicBus \<Rightarrow> ('ty, 'm) TopicBus" where
  "set_sub sid s b = b\<lparr>sub_objs := (sub_objs b)(sid \<mapsto> s)\<rparr>"

text \<open>A publisher that was not made by \<^verbatim>\<open>advertise\<close> has no bus.\<close>

record 'ty Publisher =
  has_bus :: bool
  pub_topic :: string
  pub_type :: 'ty
  pub_qos :: QoS

definition advertise :: "string \<Rightarrow> 'ty \<Rightarrow> QoS \<Rightarrow> ('ty, 'm) TopicBus \<Rightarrow> ('ty, 'm) TopicBus \<times> 'ty Publisher" where
  "advertise topic ty q b = (fst (ensure_topic topic ty b), \<lparr>has_bus = True, pub_topic = topic, pub_type = ty, pub_qos = q\<rparr>)"

definition set_qos_mismatch_handler :: "bool \<Rightarrow> ('ty, 'm) TopicBus \<Rightarrow> ('ty, 'm) TopicBus" where
  "set_qos_mismatch_handler installed b = b\<lparr>mismatch_handler := installed\<rparr>"

definition set_reliable_timeout :: "nanos \<Rightarrow> ('ty, 'm) TopicBus \<Rightarrow> ('ty, 'm) TopicBus" where
  "set_reliable_timeout t b = b\<lparr>reliable_timeout := t\<rparr>"

section \<open>Subscribing\<close>

text \<open>The locked part: the history to replay, or \<open>None\<close> on a type conflict. \<open>sid\<close> is the new object's address.\<close>

definition subscribe_locked :: "nat \<Rightarrow> string \<Rightarrow> 'ty \<Rightarrow> QoS \<Rightarrow> ('ty, 'm) TopicBus \<Rightarrow>
    ('ty, 'm) TopicBus \<times> ('ty, 'm) Envelope list option" where
  "subscribe_locked sid topic ty q b =
     (let (b, e) = ensure_topic topic ty b
      in if entry_type e \<noteq> ty then (b, None)
         else (set_sub sid (new_subscription topic ty q)
                 (set_entry topic (e\<lparr>entry_subs := entry_subs e @ [sid]\<rparr>) b),
               Some (if durability q = TransientLocal then entry_latched e else [])))"

definition replay :: "('ty, 'm) Envelope \<Rightarrow> ('ty, 'm) Subscription \<Rightarrow> ('ty, 'm) Subscription" where
  "replay env s = sub_pushed env (try_push (sub_queue s) env) s"

definition start_worker :: "('ty, 'm) Subscription \<Rightarrow> ('ty, 'm) Subscription" where
  "start_worker s = s\<lparr>sub_worker_at := At_pop\<rparr>"

text \<open>The whole call, when nothing interleaves with it.\<close>

definition subscribe :: "nat \<Rightarrow> string \<Rightarrow> 'ty \<Rightarrow> QoS \<Rightarrow> ('ty, 'm) TopicBus \<Rightarrow> ('ty, 'm) TopicBus \<times> nat option" where
  "subscribe sid topic ty q b =
     (case subscribe_locked sid topic ty q b of
        (b, None) \<Rightarrow> (b, None)
      | (b, Some backlog) \<Rightarrow>
          (b\<lparr>sub_objs := (sub_objs b)(sid := map_option (\<lambda>s. start_worker (fold replay backlog s)) (sub_objs b sid))\<rparr>,
           Some sid))"

section \<open>Publishing\<close>

fun trim :: "nat \<Rightarrow> 'a list \<Rightarrow> 'a list" where
  "trim n [] = []"
| "trim n (x # xs) = (if Suc (length xs) > n then trim n xs else x # xs)"

text \<open>The loop over the subscribers of a topic: updated objects, first-time mismatches, targets, mismatch count.\<close>

fun match_subs :: "QoS \<Rightarrow> nat list \<Rightarrow> (nat \<rightharpoonup> ('ty, 'm) Subscription) \<Rightarrow>
    (nat \<rightharpoonup> ('ty, 'm) Subscription) \<times> QosMismatch list \<times> nat list \<times> nat" where
  "match_subs pq [] objs = (objs, [], [], 0)"
| "match_subs pq (sid # sids) objs =
     (case objs sid of
        None \<Rightarrow> match_subs pq sids objs
      | Some s \<Rightarrow>
          (let m = check_compatible pq (sub_qos s)
           in if m \<noteq> NoMismatch
              then let s' = s\<lparr>qos_rejected := qos_rejected s + 1, mismatch_reported := True\<rparr>;
                       (objs', ms, ts, n) = match_subs pq sids (objs(sid \<mapsto> s'))
                   in (objs', (if mismatch_reported s then ms else m # ms), ts, Suc n)
              else let (objs', ms, ts, n) = match_subs pq sids objs
                   in (objs', ms, sid # ts, n)))"

definition publish_locked :: "string \<Rightarrow> 'ty \<Rightarrow> QoS \<Rightarrow> 'm \<Rightarrow> u64 \<Rightarrow> ('ty, 'm) TopicBus \<Rightarrow>
    ('ty, 'm) TopicBus \<times> (('ty, 'm) Envelope \<times> nat list \<times> QosMismatch list) option" where
  "publish_locked topic ty pq msg now b =
     (case map_of (topics b) topic of
        None \<Rightarrow> (b, None)
      | Some e \<Rightarrow>
          if entry_type e \<noteq> ty then (b\<lparr>type_mismatches := type_mismatches b + 1\<rparr>, None)
          else let e = e\<lparr>published := published e + 1\<rparr>;
                   env = \<lparr>payload = msg, seq = published e, publish_ns = now, made_as = ty\<rparr>;
                   e = e\<lparr>pub_log := pub_log e @ [env]\<rparr>;
                   e = (if durability pq = TransientLocal
                        then e\<lparr>entry_latched := trim (depth pq) (entry_latched e @ [env])\<rparr> else e);
                   (objs, ms, ts, n) = match_subs pq (entry_subs e) (sub_objs b)
               in ((set_entry topic e b)\<lparr>sub_objs := objs, qos_mismatches := qos_mismatches b + of_nat n\<rparr>,
                   Some (env, ts, ms)))"

text \<open>\<^verbatim>\<open>Publisher::publish\<close>, up to the end of the locked part.\<close>

definition publish :: "'ty Publisher \<Rightarrow> 'm \<Rightarrow> u64 \<Rightarrow> ('ty, 'm) TopicBus \<Rightarrow>
    ('ty, 'm) TopicBus \<times> (('ty, 'm) Envelope \<times> nat list \<times> QosMismatch list) option" where
  "publish p msg now b =
     (if has_bus p then publish_locked (pub_topic p) (pub_type p) (pub_qos p) msg now b else (b, None))"

definition report :: "string \<Rightarrow> QosMismatch list \<Rightarrow> ('ty, 'm) TopicBus \<Rightarrow> ('ty, 'm) TopicBus" where
  "report topic ms b =
     (if mismatch_handler b then b\<lparr>handler_calls := handler_calls b @ map (\<lambda>m. (topic, m)) ms\<rparr> else b)"

text \<open>The push to one target, at time \<open>now\<close> of the clock the queue's deadline is taken from.\<close>

definition push_target :: "nanos \<Rightarrow> nanos \<Rightarrow> ('ty, 'm) Envelope \<Rightarrow> ('ty, 'm) Subscription \<Rightarrow>
    ('ty, 'm) Envelope option \<times> ('ty, 'm) Envelope BoundedQueue \<times> PushStatus outcome \<times> signal list" where
  "push_target now timeout env s =
     (if reliability (sub_qos s) = Reliable then push_for (sub_queue s) env now timeout
      else push (sub_queue s) env)"

definition accepted_status :: "PushStatus \<Rightarrow> bool" where
  "accepted_status st \<longleftrightarrow> \<not> (st \<noteq> Ok \<and> st \<noteq> DroppedOldest)"

section \<open>Unsubscribing, shutting down, observing\<close>

definition unsubscribe_locked :: "nat \<Rightarrow> ('ty, 'm) TopicBus \<Rightarrow> ('ty, 'm) TopicBus" where
  "unsubscribe_locked sid b =
     (case sub_objs b sid of
        None \<Rightarrow> b
      | Some s \<Rightarrow>
          (case map_of (topics b) (sub_topic s) of
             None \<Rightarrow> b
           | Some e \<Rightarrow> set_entry (sub_topic s) (e\<lparr>entry_subs := remove1 sid (entry_subs e)\<rparr>) b))"

definition all_subs :: "('ty, 'm) TopicBus \<Rightarrow> nat list" where
  "all_subs b = concat (map (\<lambda>kv. entry_subs (snd kv)) (topics b))"

definition shutdown_locked :: "('ty, 'm) TopicBus \<Rightarrow> ('ty, 'm) TopicBus \<times> nat list" where
  "shutdown_locked b =
     (b\<lparr>topics := map (\<lambda>(k, e). (k, e\<lparr>entry_subs := [], entry_latched := []\<rparr>)) (topics b)\<rparr>, all_subs b)"

definition close_sub :: "('ty, 'm) Subscription \<Rightarrow> ('ty, 'm) Subscription" where
  "close_sub s = s\<lparr>sub_queue := close_locked (sub_queue s)\<rparr>"

definition subscriber_count :: "string \<Rightarrow> ('ty, 'm) TopicBus \<Rightarrow> nat" where
  "subscriber_count topic b = (case map_of (topics b) topic of None \<Rightarrow> 0 | Some e \<Rightarrow> length (entry_subs e))"

definition published_count :: "string \<Rightarrow> ('ty, 'm) TopicBus \<Rightarrow> u64" where
  "published_count topic b = (case map_of (topics b) topic of None \<Rightarrow> 0 | Some e \<Rightarrow> published e)"

definition publisher_subscriber_count :: "'ty Publisher \<Rightarrow> ('ty, 'm) TopicBus \<Rightarrow> nat" where
  "publisher_subscriber_count p b = (if has_bus p then subscriber_count (pub_topic p) b else 0)"

definition qos_mismatch_count :: "('ty, 'm) TopicBus \<Rightarrow> u64" where
  "qos_mismatch_count b = qos_mismatches b"

definition type_mismatch_count :: "('ty, 'm) TopicBus \<Rightarrow> u64" where
  "type_mismatch_count b = type_mismatches b"

text \<open>One round of \<^verbatim>\<open>wait_for_idle\<close>, and the loop over what successive rounds see, with the times they end at.\<close>

definition bus_idle :: "('ty, 'm) TopicBus \<Rightarrow> bool" where
  "bus_idle b \<longleftrightarrow>
     (\<forall>kv\<in>set (topics b). \<forall>sid\<in>set (entry_subs (snd kv)).
        case sub_objs b sid of None \<Rightarrow> True | Some s \<Rightarrow> queue_empty (sub_queue s))"

fun wait_for_idle :: "nanos \<Rightarrow> (('ty, 'm) TopicBus \<times> nanos) list \<Rightarrow> bool option" where
  "wait_for_idle dl [] = None"
| "wait_for_idle dl ((b, now) # rounds) =
     (if bus_idle b then Some True else if now \<ge> dl then Some False else wait_for_idle dl rounds)"

section \<open>A subscription on its own\<close>

text \<open>
  What is true of a subscription whatever else happens: its queue has the policy its reliability calls
  for; what arrived has left the queue, popped or evicted, in order, or is still in it; what was popped
  was processed in order or is held by the worker; the counters count these, deliveries when the callback has
  returned; and the worker of \<^verbatim>\<open>deliver_loop\<close>
  only returns from a closed and empty queue.
\<close>

fun held :: "('ty, 'm) sub_worker \<Rightarrow> ('ty, 'm) Envelope list" where
  "held (Holding env) = [env]"
| "held _ = []"

fun calling :: "('ty, 'm) sub_worker \<Rightarrow> ('ty, 'm) Envelope list" where
  "calling (In_callback env) = [env]"
| "calling _ = []"

definition sub_ok :: "('ty, 'm) Subscription \<Rightarrow> bool" where
  "sub_ok s \<longleftrightarrow>
     queue_inv (sub_queue s) \<and>
     policy (sub_queue s) = (if reliability (sub_qos s) = Reliable then Block else DropOldest) \<and>
     arrived s = map untag (departed s) @ items (sub_queue s) \<and>
     lefts (departed s) = map untag (processed s) @ held (sub_worker_at s) \<and>
     dropped (sub_queue s) = of_nat (length (rights (departed s))) \<and>
     delivered_n s + of_nat (length (calling (sub_worker_at s))) = of_nat (length (lefts (processed s))) \<and>
     expired_n s = of_nat (length (rights (processed s))) \<and>
     (sub_worker_at s \<in> {Returned, Thread_joined} \<longrightarrow> closed (sub_queue s) \<and> items (sub_queue s) = [])"

lemma new_subscription_ok [inv_intros]: "sub_ok (new_subscription topic ty q)"
  by (simp add: sub_ok_def new_subscription_def new_queue_inv)

lemma sub_pushed_ok [inv_intros]:
  assumes "sub_ok s" and "push_until (sub_queue s) env dl = r"
  shows "sub_ok (sub_pushed env r s)"
proof -
  obtain ev q oc sg where r: "r = (ev, q, oc, sg)" by (metis prod_cases4)
  with assms(2) have p: "push_until (sub_queue s) env dl = (ev, q, oc, sg)" by simp
  have inv: "queue_inv q" using push_until_inv [OF _ p] assms(1) by (simp add: sub_ok_def)
  have ne: "items (sub_queue s) = hd (items (sub_queue s)) # tl (items (sub_queue s))"
    if "capacity (sub_queue s) \<le> length (items (sub_queue s))"
    using that assms(1) by (cases "items (sub_queue s)") (auto simp: sub_ok_def queue_inv_def)
  from p show ?thesis
    by (cases rule: push_until_cases) (use assms(1) inv ne r in \<open>auto simp: sub_ok_def sub_pushed_def split: if_splits\<close>)
qed

lemma sub_woken_ok [inv_intros]:
  assumes "sub_ok s" and "push_wake (sub_queue s) env to = (q, oc, sg)"
  shows "sub_ok (sub_pushed env (None, q, oc, sg) s)"
proof -
  have "queue_inv q" using push_wake_inv [OF _ assms(2)] assms(1) by (simp add: sub_ok_def)
  with assms(2) show ?thesis
    by (cases rule: push_wake_cases) (use assms(1) in \<open>auto simp: sub_ok_def sub_pushed_def\<close>)
qed

lemma replay_ok [inv_intros]: "sub_ok s \<Longrightarrow> sub_ok (replay env s)"
  unfolding replay_def try_push_def by (rule sub_pushed_ok [OF _ refl])

lemma worker_take_cases [consumes 1, case_names Return Take]:
  assumes "worker_take s = Some s'"
  obtains (Return) "items (sub_queue s) = []" "closed (sub_queue s)" "s' = s\<lparr>sub_worker_at := Returned\<rparr>"
  | (Take) env envs where "items (sub_queue s) = env # envs"
      "s' = s\<lparr>sub_queue := (sub_queue s)\<lparr>items := envs\<rparr>, sub_worker_at := Holding env, departed := departed s @ [Inl env]\<rparr>"
proof -
  obtain q oc sg where p: "pop_until (sub_queue s) tp_max = (q, oc, sg)" by (metis prod_cases3)
  have "tp_max \<noteq> tp_min" by (simp add: tp_max_def tp_min_def)
  with p show ?thesis
    by (cases rule: pop_until_cases) (use assms p in \<open>auto simp: worker_take_def pop_def intro: that\<close>)
qed

lemma worker_take_ok [inv_intros]:
  assumes "sub_ok s" and "sub_worker_at s = At_pop" and "worker_take s = Some s'"
  shows "sub_ok s'"
  using assms(3)
  by (cases rule: worker_take_cases) (use assms(1,2) in \<open>auto simp: sub_ok_def queue_inv_def\<close>)

lemma deliver_call_frame [frame_simps]:
  "sub_queue (deliver_call now env s) = sub_queue s" "sub_qos (deliver_call now env s) = sub_qos s"
  "sub_type (deliver_call now env s) = sub_type s" "sub_topic (deliver_call now env s) = sub_topic s"
  "arrived (deliver_call now env s) = arrived s" "departed (deliver_call now env s) = departed s"
  "sub_worker_at (deliver_call now env s) = (if is_expired now (sub_qos s) env then At_pop else In_callback env)"
  "qos_rejected (deliver_call now env s) = qos_rejected s" "delivered_n (deliver_call now env s) = delivered_n s"
  "processed (deliver_call now env s) = processed s @ [if is_expired now (sub_qos s) env then Inr env else Inl env]"
  "expired_n (deliver_call now env s) = (if is_expired now (sub_qos s) env then expired_n s + 1 else expired_n s)"
  by (simp_all add: deliver_call_def Let_def)

lemma deliver_return_frame [frame_simps]:
  "sub_queue (deliver_return s) = sub_queue s" "sub_qos (deliver_return s) = sub_qos s"
  "sub_type (deliver_return s) = sub_type s" "sub_topic (deliver_return s) = sub_topic s"
  "arrived (deliver_return s) = arrived s" "departed (deliver_return s) = departed s"
  "sub_worker_at (deliver_return s) = At_pop" "qos_rejected (deliver_return s) = qos_rejected s"
  "delivered_n (deliver_return s) = delivered_n s + 1" "processed (deliver_return s) = processed s"
  "expired_n (deliver_return s) = expired_n s"
  by (simp_all add: deliver_return_def)

lemma deliver_frame [frame_simps]:
  "sub_queue (deliver now env s) = sub_queue s" "sub_qos (deliver now env s) = sub_qos s"
  "sub_type (deliver now env s) = sub_type s" "sub_topic (deliver now env s) = sub_topic s"
  "arrived (deliver now env s) = arrived s" "departed (deliver now env s) = departed s"
  "sub_worker_at (deliver now env s) = At_pop" "qos_rejected (deliver now env s) = qos_rejected s"
  "processed (deliver now env s) = processed s @ [if is_expired now (sub_qos s) env then Inr env else Inl env]"
  "delivered_n (deliver now env s) = (if is_expired now (sub_qos s) env then delivered_n s else delivered_n s + 1)"
  "expired_n (deliver now env s) = (if is_expired now (sub_qos s) env then expired_n s + 1 else expired_n s)"
  by (simp_all add: deliver_def Let_def frame_simps)

lemma deliver_call_ok [inv_intros]:
  assumes "sub_ok s" and "sub_worker_at s = Holding env"
  shows "sub_ok (deliver_call now env s)"
  using assms unfolding sub_ok_def frame_simps by auto

lemma deliver_return_ok [inv_intros]:
  assumes "sub_ok s" and "sub_worker_at s = In_callback env"
  shows "sub_ok (deliver_return s)"
  using assms unfolding sub_ok_def frame_simps by auto

lemma start_worker_ok [inv_intros]: "sub_ok s \<Longrightarrow> sub_worker_at s = Not_started \<Longrightarrow> sub_ok (start_worker s)"
  by (simp add: sub_ok_def start_worker_def)

lemma close_sub_ok [inv_intros]: "sub_ok s \<Longrightarrow> sub_ok (close_sub s)"
  by (simp add: sub_ok_def close_sub_def close_locked_def queue_inv_def)

section \<open>Routing\<close>

abbreviation mismatch_of :: "QoS \<Rightarrow> (nat \<rightharpoonup> ('ty, 'm) Subscription) \<Rightarrow> nat \<Rightarrow> QosMismatch" where
  "mismatch_of pq objs sid \<equiv> check_compatible pq (sub_qos (the (objs sid)))"

definition reject :: "('ty, 'm) Subscription \<Rightarrow> ('ty, 'm) Subscription" where
  "reject s = s\<lparr>qos_rejected := qos_rejected s + 1, mismatch_reported := True\<rparr>"

lemma match_subs_eq:
  assumes "distinct sids" and "\<forall>sid\<in>set sids. objs sid \<noteq> None"
  shows "match_subs pq sids objs =
    (\<lambda>x. if x \<in> set sids \<and> mismatch_of pq objs x \<noteq> NoMismatch then map_option reject (objs x) else objs x,
     map (mismatch_of pq objs)
       (filter (\<lambda>x. mismatch_of pq objs x \<noteq> NoMismatch \<and> \<not> mismatch_reported (the (objs x))) sids),
     filter (\<lambda>x. mismatch_of pq objs x = NoMismatch) sids,
     length (filter (\<lambda>x. mismatch_of pq objs x \<noteq> NoMismatch) sids))"
  using assms
proof (induction sids arbitrary: objs)
  case Nil
  then show ?case by simp
next
  case (Cons sid sids)
  obtain s where s: "objs sid = Some s" using Cons.prems(2) by auto
  let ?objs = "if mismatch_of pq objs sid \<noteq> NoMismatch then objs(sid \<mapsto> reject s) else objs"
  have other: "?objs x = objs x" if "x \<in> set sids" for x using that Cons.prems(1) by auto
  have IH: "match_subs pq sids ?objs =
    (\<lambda>x. if x \<in> set sids \<and> mismatch_of pq objs x \<noteq> NoMismatch then map_option reject (objs x) else ?objs x,
     map (mismatch_of pq objs)
       (filter (\<lambda>x. mismatch_of pq objs x \<noteq> NoMismatch \<and> \<not> mismatch_reported (the (objs x))) sids),
     filter (\<lambda>x. mismatch_of pq objs x = NoMismatch) sids,
     length (filter (\<lambda>x. mismatch_of pq objs x \<noteq> NoMismatch) sids))"
    using Cons.prems other by (subst Cons.IH) (auto simp: fun_eq_iff cong: filter_cong)
  show ?case
  proof (cases "mismatch_of pq objs sid = NoMismatch")
    case True
    then show ?thesis using s IH Cons.prems(1) by (auto simp: Let_def fun_eq_iff)
  next
    case False
    have "match_subs pq (sid # sids) objs =
      (let (objs', ms, ts, n) = match_subs pq sids ?objs
       in (objs', (if mismatch_reported s then ms else check_compatible pq (sub_qos s) # ms), ts, Suc n))"
      using s False by (simp add: Let_def reject_def)
    then show ?thesis using s False IH Cons.prems(1) by (auto simp: Let_def fun_eq_iff)
  qed
qed

lemma trim_eq: "trim n xs = drop (length xs - n) xs"
  by (induction xs) (auto simp: Suc_diff_le)

text \<open>
  C16: the locked part of a publication on a topic of the right type gives the message the next sequence
  number, keeps it, if the publisher is transient-local, among the last \<open>depth\<close> latched ones, and
  selects exactly the compatible subscribers, in order of subscription. Every incompatible one is
  counted, on itself and on the bus, and reported the first time; nothing else changes in a subscriber.
\<close>

theorem publish_routes:
  assumes "map_of (topics b) topic = Some e" and "entry_type e = ty"
    and "distinct (entry_subs e)" and "\<forall>sid\<in>set (entry_subs e). sub_objs b sid \<noteq> None"
  shows "\<exists>b' env ms.
    publish_locked topic ty pq msg now b =
      (b', Some (env, filter (\<lambda>x. mismatch_of pq (sub_objs b) x = NoMismatch) (entry_subs e), ms)) \<and>
    seq env = published e + 1 \<and> payload env = msg \<and> publish_ns env = now \<and>
    (\<exists>e'. map_of (topics b') topic = Some e' \<and> published e' = published e + 1 \<and> entry_subs e' = entry_subs e \<and>
       entry_latched e' = (if durability pq = TransientLocal
         then drop (Suc (length (entry_latched e)) - depth pq) (entry_latched e @ [env]) else entry_latched e)) \<and>
    (\<forall>sid. sub_objs b' sid = (if sid \<in> set (entry_subs e) \<and> mismatch_of pq (sub_objs b) sid \<noteq> NoMismatch
       then map_option reject (sub_objs b sid) else sub_objs b sid)) \<and>
    qos_mismatches b' = qos_mismatches b + of_nat (length (filter (\<lambda>x. mismatch_of pq (sub_objs b) x \<noteq> NoMismatch) (entry_subs e))) \<and>
    ms = map (mismatch_of pq (sub_objs b)) (filter (\<lambda>x. mismatch_of pq (sub_objs b) x \<noteq> NoMismatch \<and>
           \<not> mismatch_reported (the (sub_objs b x))) (entry_subs e))"
  using assms
  by (auto simp: publish_locked_def Let_def match_subs_eq set_entry_def trim_eq update_conv')

definition two_subs :: "(nat, nat) TopicBus" where
  "two_subs =
     (let b = fst (subscribe 1 ''imu'' 0 (sensor_data 5) new_bus) in fst (subscribe 2 ''imu'' 0 (command 5) b))"

theorem publish_routes_witness:
  "\<exists>b' env ms. publish_locked ''imu'' 0 (sensor_data 5) (42 :: nat) 9 two_subs = (b', Some (env, [1], ms)) \<and>
     ms = [ReliabilityMismatch]"
proof -
  let ?e = "\<lparr>entry_type = 0, entry_subs = [1, 2], entry_latched = [], published = 0, pub_log = []\<rparr> :: (nat, nat) TopicEntry"
  have "map_of (topics two_subs) ''imu'' = Some ?e" "sub_objs two_subs 1 \<noteq> None" "sub_objs two_subs 2 \<noteq> None"
    "mismatch_of (sensor_data 5) (sub_objs two_subs) 1 = NoMismatch"
    "mismatch_of (sensor_data 5) (sub_objs two_subs) 2 = ReliabilityMismatch"
    "\<not> mismatch_reported (the (sub_objs two_subs 2))"
    by code_simp+
  then show ?thesis using publish_routes [of two_subs "''imu''" ?e 0 "sensor_data 5" 42 9] by auto
qed



text \<open>
  C21: a topic belongs to the type that named it first. Advertising it with another type succeeds, but every
  publication of such a publisher is refused, counted as a type mismatch and otherwise without effect; and
  a subscription with another type is refused with an invalid handle and adds no subscriber.
\<close>

theorem topic_type_conflict:
  assumes "map_of (topics b) topic = Some e" and "entry_type e \<noteq> ty"
  shows "advertise topic ty q b = (b, \<lparr>has_bus = True, pub_topic = topic, pub_type = ty, pub_qos = q\<rparr>) \<and>
    publish (snd (advertise topic ty q b)) msg now b = (b\<lparr>type_mismatches := type_mismatches b + 1\<rparr>, None) \<and>
    subscribe sid topic ty q b = (b, None)"
  using assms by (simp add: advertise_def ensure_topic_def publish_def publish_locked_def subscribe_def subscribe_locked_def)

theorem topic_type_conflict_witness:
  "subscribe 3 ''imu'' 1 (command 5) two_subs = (two_subs, None)"
proof -
  let ?e = "\<lparr>entry_type = 0, entry_subs = [1, 2], entry_latched = [], published = 0, pub_log = []\<rparr> :: (nat, nat) TopicEntry"
  have "map_of (topics two_subs) ''imu'' = Some ?e" by code_simp
  then show ?thesis using topic_type_conflict [of two_subs "''imu''" ?e 1 "command 5" _ _ 3] by simp
qed

section \<open>Late joiners\<close>

lemma replay_frame [frame_simps]:
  "sub_qos (replay env s) = sub_qos s" "sub_worker_at (replay env s) = sub_worker_at s"
  "sub_type (replay env s) = sub_type s" "sub_topic (replay env s) = sub_topic s"
  by (auto simp: replay_def sub_pushed_def split: prod.splits)

lemma replay_queue: "sub_queue (fold replay backlog s) = push_all (sub_queue s) backlog"
  by (induction backlog arbitrary: s)
    (simp_all add: push_all_def replay_def sub_pushed_def case_prod_unfold)

text \<open>What the queue of a subscriber holds that joins undisturbed.\<close>

lemma late_joiner_items:
  assumes "map_of (topics b) topic = Some e" and "entry_type e = ty" and "durability q = TransientLocal"
  shows "\<exists>b' s. subscribe sid topic ty q b = (b', Some sid) \<and> sub_objs b' sid = Some s \<and> sub_worker_at s = At_pop \<and>
    (let n = (if depth q = 0 then 1 else depth q); h = entry_latched e
     in items (sub_queue s) = (if reliability q = Reliable then take n h else drop (length h - n) h))"
proof -
  let ?s = "new_subscription topic ty q"
  have k: "queue_inv (sub_queue ?s)" "\<not> closed (sub_queue ?s)"
    by (simp_all add: new_subscription_def new_queue_inv)
  have "items (sub_queue (fold replay (entry_latched e) ?s)) =
      (let n = (if depth q = 0 then 1 else depth q); h = entry_latched e
       in if reliability q = Reliable then take n h else drop (length h - n) h)"
    using push_all_keeps [OF k, of "entry_latched e"]
    by (simp add: replay_queue Let_def new_subscription_def)
  then show ?thesis using assms
    by (auto simp: subscribe_def subscribe_locked_def ensure_topic_def set_sub_def set_entry_def start_worker_def Let_def)
qed


definition two_latched :: "(nat, nat) TopicBus" where
  "two_latched =
     (let b = fst (advertise ''map'' 0 (latched 5) new_bus);
          b = fst (publish_locked ''map'' 0 (latched 5) 41 1 b)
      in fst (publish_locked ''map'' 0 (latched 5) 42 2 b))"

lemma two_latched_entry:
  obtains e where "map_of (topics two_latched) ''map'' = Some e" "entry_type e = 0" "map payload (entry_latched e) = [41, 42]"
  by (simp add: two_latched_def advertise_def ensure_topic_def publish_locked_def set_entry_def new_bus_def new_entry_def
      latched_def default_qos_def Let_def trim_eq)


text \<open>
  When the history does not fit, a reliable subscriber, whose queue refuses what it has no room for, keeps the oldest
  messages, and the newest are lost without being counted, although a depth is said to keep the most recent ones.
\<close>

theorem late_joiner_keeps_oldest:
  "\<exists>b' s. subscribe 1 ''map'' 0 (latched 1) two_latched = (b', Some 1) \<and> sub_objs b' 1 = Some s \<and>
     map payload (items (sub_queue s)) = [41] \<and> dropped (sub_queue s) = 0"
proof -
  obtain e where e: "map_of (topics two_latched) ''map'' = Some e" "entry_type e = 0" "map payload (entry_latched e) = [41, 42]"
    by (rule two_latched_entry)
  have q: "durability (latched 1) = TransientLocal" "reliability (latched 1) = Reliable" "depth (latched 1) = 1"
    by (simp_all add: latched_def default_qos_def)
  obtain b' s where s: "subscribe 1 ''map'' 0 (latched 1) two_latched = (b', Some 1)" "sub_objs b' 1 = Some s"
    "items (sub_queue s) = take 1 (entry_latched e)"
    using late_joiner_items [OF e(1,2) q(1), of 1] q(2,3) by auto
  have "dropped (sub_queue (the (sub_objs (fst (subscribe 1 ''map'' 0 (latched 1) two_latched)) 1))) = 0" by code_simp
  then show ?thesis using s e(3) by (auto simp: take_map [symmetric])
qed

section \<open>Delivery\<close>

text \<open>
  C19: the worker drops a message exactly if the subscriber has a lifespan and the message is older than it in
  true nanoseconds, whatever the unsigned subtraction would give; it then counts it as expired and
  calls nobody. Otherwise it passes it on, counts it, and counts a missed deadline exactly if a
  delivery came before and longer ago than the deadline.
\<close>

theorem deliver_outcome:
  assumes "lifespan (sub_qos s) < 2 ^ 63" and "deadline (sub_qos s) < 2 ^ 63" and "last_delivery_ns s \<le> now"
  shows "let late = (0 < lifespan (sub_qos s) \<and> uint (publish_ns env) + lifespan (sub_qos s) < uint now);
             slow = (0 < deadline (sub_qos s) \<and> last_delivery_ns s \<noteq> 0 \<and>
                     uint (last_delivery_ns s) + deadline (sub_qos s) < uint now);
             s' = deliver now env s
         in processed s' = processed s @ [if late then Inr env else Inl env] \<and>
            expired_n s' = (if late then expired_n s + 1 else expired_n s) \<and>
            delivered_n s' = (if late then delivered_n s else delivered_n s + 1) \<and>
            deadline_missed s' = (if \<not> late \<and> slow then deadline_missed s + 1 else deadline_missed s) \<and>
            last_delivery_ns s' = (if late then last_delivery_ns s else now)"
proof -
  have u: "uint (of_int k :: u64) = k" if "0 \<le> k" "k < 2 ^ 63" for k
  proof -
    have "take_bit 64 k = k" using that by (intro take_bit_int_eq_self) simp_all
    then show ?thesis using that by (simp add: uint_word_of_int take_bit_eq_mod)
  qed
  have older: "t < now - p \<longleftrightarrow> uint p + uint t < uint now" if "p \<le> now" for p t :: u64
  proof -
    have "unat (now - p) = unat now - unat p" using that by (rule unat_sub)
    then show ?thesis using that unfolding word_less_nat_alt word_le_nat_alt uint_nat by linarith
  qed
  have late: "is_expired now (sub_qos s) env \<longleftrightarrow>
      0 < lifespan (sub_qos s) \<and> uint (publish_ns env) + lifespan (sub_qos s) < uint now"
  proof (cases "0 < lifespan (sub_qos s) \<and> publish_ns env < now")
    case True
    have "(0 :: u64) < of_int (lifespan (sub_qos s))"
      using u [of "lifespan (sub_qos s)"] True assms(1) by (simp add: word_less_def)
    then show ?thesis
      using True older [OF less_imp_le, of "publish_ns env" "of_int (lifespan (sub_qos s))"]
        u [of "lifespan (sub_qos s)"] assms(1)
      by (simp add: is_expired_def)
  next
    case False
    then show ?thesis by (auto simp: is_expired_def word_less_def)
  qed
  have slow: "of_int (deadline (sub_qos s)) < now - last_delivery_ns s \<longleftrightarrow>
      uint (last_delivery_ns s) + deadline (sub_qos s) < uint now" if "0 < deadline (sub_qos s)"
    using older [OF assms(3), of "of_int (deadline (sub_qos s))"] u [of "deadline (sub_qos s)"] that assms(2) by simp
  show ?thesis unfolding Let_def late [symmetric] frame_simps using slow by (auto simp: deliver_def deliver_call_def deliver_return_def Let_def)
qed

theorem deliver_outcome_witness:
  "processed (deliver 100 \<lparr>payload = 5 :: nat, seq = 1, publish_ns = 10, made_as = 0 :: nat\<rparr>
      (new_subscription ''imu'' 0 (default_qos\<lparr>lifespan := 50\<rparr>))) =
   [Inr \<lparr>payload = 5, seq = 1, publish_ns = 10, made_as = 0\<rparr>]"
  using deliver_outcome [of "new_subscription ''imu'' (0 :: nat) (default_qos\<lparr>lifespan := 50\<rparr>) :: (nat, nat) Subscription" 100
      "\<lparr>payload = 5, seq = 1, publish_ns = 10, made_as = 0\<rparr>"]
  by (simp add: new_subscription_def default_qos_def Let_def)

text \<open>
  Publishing never waits for a best-effort subscriber, whose queue makes room by giving up its oldest
  message; and while a reliable subscriber's queue has room it does not wait for that one either.
\<close>

theorem publish_isolation:
  assumes "sub_ok s" and "push_target now timeout env s = (ev, q, oc, sg)"
    and "reliability (sub_qos s) = BestEffort \<or> length (items (sub_queue s)) < capacity (sub_queue s)"
  shows "\<exists>st. oc = Return st \<and> (closed (sub_queue s) \<or> accepted_status st \<and> last (items q) = env)"
proof -
  obtain dl where p: "push_until (sub_queue s) env dl = (ev, q, oc, sg)"
    using assms(2) by (auto simp: push_target_def push_for_def push_def split: if_splits)
  then show ?thesis
    by (cases rule: push_until_cases) (use assms(1,3) in \<open>auto simp: accepted_status_def sub_ok_def\<close>)
qed

theorem publish_isolation_witness:
  "\<exists>st. fst (snd (snd (push_target 0 1 \<lparr>payload = 5 :: nat, seq = 1, publish_ns = 10, made_as = 0 :: nat\<rparr>
      (new_subscription ''imu'' 0 (sensor_data 1))))) = Return st"
proof -
  let ?s = "new_subscription ''imu'' (0 :: nat) (sensor_data 1) :: (nat, nat) Subscription"
    and ?env = "\<lparr>payload = 5 :: nat, seq = 1, publish_ns = 10, made_as = 0 :: nat\<rparr>"
  obtain ev q oc sg where p: "push_target 0 1 ?env ?s = (ev, q, oc, sg)" by (metis prod_cases4)
  have "reliability (sub_qos ?s) = BestEffort" by (simp add: new_subscription_def sensor_data_def)
  then show ?thesis using publish_isolation [OF new_subscription_ok p] p by auto
qed

end
