(* ===== verification/Bus_Machine.thy ===== *)
theory Bus_Machine
  imports Topic_Bus
begin

text \<open>
  Any number of threads on one \<^verbatim>\<open>TopicBus\<close>, and the worker of every subscription. A step is a section under
  the bus mutex, one queue operation, the start of a worker, the test whether it is joinable, the return of its join,
  or a part of one turn of \<^verbatim>\<open>deliver_loop\<close>, which is cut where the callback is called and where it returns. A push or pop
  that would wait is taken up again when it no longer would, or when its deadline has passed. A publication
  reads the clock before it takes the mutex, so its time stamp may be older than the time of its locked section.

  Two calls that stop the same subscription at once both use its \<^verbatim>\<open>std::thread\<close>. That is a data race in C++; here the
  one whose \<^verbatim>\<open>join\<close> comes second fails with the error that \<^verbatim>\<open>join\<close> has for a thread that is not joinable, and its call
  ends in \<open>Join_failed\<close> with the rest of its subscriptions not stopped.

  What a step can do to the bus is put into five classes (\<open>bus_step_effect\<close>); over these classes two
  invariants are shown: every subscription keeps its books (\<open>starting\<close>), and topics list existing subscribers
  of their own type (\<open>wired\<close>). The guarantees to the users of the bus are in \<open>Bus_Guarantees\<close>.
\<close>

section \<open>Steps\<close>

datatype join_error = Invalid_argument

datatype ('ty, 'm) call =
    Idle_call
  | Publishing "('ty, 'm) Envelope" "nat list" "nat list" bool   \<comment> \<open>all targets, and those left; \<^verbatim>\<open>all_accepted\<close>\<close>
  | Push_waiting "('ty, 'm) Envelope" "nat list" nat "nat list" bool nanos  \<comment> \<open>blocked on a target, until\<close>
  | Subscribing nat "('ty, 'm) Envelope list"                    \<comment> \<open>history left to replay\<close>
  | Stopping "nat list"
  | Closed_sub nat "nat list"                                    \<comment> \<open>about to test whether its worker is joinable\<close>
  | Joining nat "nat list"                                       \<comment> \<open>in \<^verbatim>\<open>join\<close> of its worker\<close>
  | Join_failed join_error                                       \<comment> \<open>left with the exception of \<^verbatim>\<open>join\<close>\<close>

record ('ty, 'm) bus_sys =
  bus :: "('ty, 'm) TopicBus"
  calls :: "('ty, 'm) call list"
  time :: nanos
  returned :: "(('ty, 'm) Envelope \<times> nat list \<times> bool) list"  \<comment> \<open>results of publications, with their targets\<close>

definition call_at :: "('ty, 'm) bus_sys \<Rightarrow> nat \<Rightarrow> ('ty, 'm) call \<Rightarrow> bool" where
  "call_at s i c \<longleftrightarrow> i < length (calls s) \<and> calls s ! i = c"

definition go :: "nat \<Rightarrow> ('ty, 'm) call \<Rightarrow> ('ty, 'm) TopicBus \<Rightarrow> ('ty, 'm) bus_sys \<Rightarrow> ('ty, 'm) bus_sys" where
  "go i c b s = s\<lparr>bus := b, calls := (calls s)[i := c]\<rparr>"

fun after_target :: "('ty, 'm) Envelope \<Rightarrow> nat list \<Rightarrow> nat \<Rightarrow> nat list \<Rightarrow> bool \<Rightarrow> nanos \<Rightarrow> PushStatus outcome \<Rightarrow> ('ty, 'm) call" where
  "after_target env tg sid ts ok dl (Return st) = Publishing env tg ts (ok \<and> accepted_status st)"
| "after_target env tg sid ts ok dl Waiting = Push_waiting env tg sid ts ok dl"

text \<open>\<^verbatim>\<open>std::thread::joinable\<close>, and the result of \<^verbatim>\<open>std::thread::join\<close>; while the thread runs there is none.\<close>

fun joinable :: "('ty, 'm) sub_worker \<Rightarrow> bool" where
  "joinable Not_started = False"
| "joinable Thread_joined = False"
| "joinable _ = True"

fun join_worker :: "('ty, 'm) sub_worker \<Rightarrow> (join_error + ('ty, 'm) sub_worker) option" where
  "join_worker Returned = Some (Inr Thread_joined)"
| "join_worker Not_started = Some (Inl Invalid_argument)"
| "join_worker Thread_joined = Some (Inl Invalid_argument)"
| "join_worker _ = None"

abbreviation running :: "('ty, 'm) sub_worker \<Rightarrow> bool" where
  "running w \<equiv> join_worker w = None"

inductive bus_step :: "('ty, 'm) bus_sys \<Rightarrow> ('ty, 'm) bus_sys \<Rightarrow> bool" where
  advertise: "call_at s i Idle_call \<Longrightarrow> bus_step s (go i Idle_call (fst (advertise topic ty q (bus s))) s)"
| subscribe_conflict:
    "call_at s i Idle_call \<Longrightarrow> sub_objs (bus s) sid = None \<Longrightarrow>
     subscribe_locked sid topic ty q (bus s) = (b, None) \<Longrightarrow> bus_step s (go i Idle_call b s)"
| subscribe_lock:
    "call_at s i Idle_call \<Longrightarrow> sub_objs (bus s) sid = None \<Longrightarrow>
     subscribe_locked sid topic ty q (bus s) = (b, Some backlog) \<Longrightarrow> bus_step s (go i (Subscribing sid backlog) b s)"
| subscribe_replay:
    "call_at s i (Subscribing sid (env # rest)) \<Longrightarrow> sub_objs (bus s) sid = Some x \<Longrightarrow>
     bus_step s (go i (Subscribing sid rest) (set_sub sid (replay env x) (bus s)) s)"
| subscribe_start:
    "call_at s i (Subscribing sid []) \<Longrightarrow> sub_objs (bus s) sid = Some x \<Longrightarrow>
     bus_step s (go i Idle_call (set_sub sid (start_worker x) (bus s)) s)"
| publish_refused:
    "call_at s i Idle_call \<Longrightarrow> now \<le> time s \<Longrightarrow> publish_locked topic ty pq msg (of_int now) (bus s) = (b, None) \<Longrightarrow>
     bus_step s (go i Idle_call b s)"
| publish_lock:
    "call_at s i Idle_call \<Longrightarrow> now \<le> time s \<Longrightarrow> publish_locked topic ty pq msg (of_int now) (bus s) = (b, Some (env, ts, ms)) \<Longrightarrow>
     bus_step s (go i (Publishing env ts ts True) (report topic ms b) s)"
| publish_push:
    "call_at s i (Publishing env tg (sid # ts) ok) \<Longrightarrow> sub_objs (bus s) sid = Some x \<Longrightarrow>
     push_target (time s) (reliable_timeout (bus s)) env x = (ev, q, oc, sg) \<Longrightarrow>
     bus_step s (go i (after_target env tg sid ts ok (time s + reliable_timeout (bus s)) oc)
                   (set_sub sid (sub_pushed env (ev, q, oc, sg) x) (bus s)) s)"
| publish_wake:
    "call_at s i (Push_waiting env tg sid ts ok dl) \<Longrightarrow> sub_objs (bus s) sid = Some x \<Longrightarrow>
     (to \<longrightarrow> dl \<le> time s) \<Longrightarrow> push_wake (sub_queue x) env to = (q, oc, sg) \<Longrightarrow>
     bus_step s (go i (after_target env tg sid ts ok dl oc) (set_sub sid (sub_pushed env (None, q, oc, sg) x) (bus s)) s)"
| publish_return:
    "call_at s i (Publishing env tg [] ok) \<Longrightarrow>
     bus_step s ((go i Idle_call (bus s) s)\<lparr>returned := returned s @ [(env, tg, ok)]\<rparr>)"
| worker_take:
    "sub_objs (bus s) sid = Some x \<Longrightarrow> sub_worker_at x = At_pop \<Longrightarrow> worker_take x = Some x' \<Longrightarrow>
     bus_step s (s\<lparr>bus := set_sub sid x' (bus s)\<rparr>)"
| worker_deliver:
    "sub_objs (bus s) sid = Some x \<Longrightarrow> sub_worker_at x = Holding env \<Longrightarrow>
     bus_step s (s\<lparr>bus := set_sub sid (deliver_call (of_int (time s)) env x) (bus s)\<rparr>)"
| worker_return:
    "sub_objs (bus s) sid = Some x \<Longrightarrow> sub_worker_at x = In_callback env \<Longrightarrow>
     bus_step s (s\<lparr>bus := set_sub sid (deliver_return x) (bus s)\<rparr>)"
| unsubscribe_lock:
    "call_at s i Idle_call \<Longrightarrow> sub_objs (bus s) sid = Some x \<Longrightarrow>
     bus_step s (go i (Stopping [sid]) (unsubscribe_locked sid (bus s)) s)"
| shutdown_lock:
    "call_at s i Idle_call \<Longrightarrow> shutdown_locked (bus s) = (b, sids) \<Longrightarrow> bus_step s (go i (Stopping sids) b s)"
| stop_close:
    "call_at s i (Stopping (sid # sids)) \<Longrightarrow> sub_objs (bus s) sid = Some x \<Longrightarrow>
     bus_step s (go i (Closed_sub sid sids) (set_sub sid (close_sub x) (bus s)) s)"
| stop_test:
    "call_at s i (Closed_sub sid sids) \<Longrightarrow> sub_objs (bus s) sid = Some x \<Longrightarrow>
     bus_step s (go i (if joinable (sub_worker_at x) then Joining sid sids else Stopping sids) (bus s) s)"
| stop_join:
    "call_at s i (Joining sid sids) \<Longrightarrow> sub_objs (bus s) sid = Some x \<Longrightarrow> join_worker (sub_worker_at x) = Some (Inr w) \<Longrightarrow>
     bus_step s (go i (Stopping sids) (set_sub sid (x\<lparr>sub_worker_at := w\<rparr>) (bus s)) s)"
| stop_fail:
    "call_at s i (Joining sid sids) \<Longrightarrow> sub_objs (bus s) sid = Some x \<Longrightarrow> join_worker (sub_worker_at x) = Some (Inl e) \<Longrightarrow>
     bus_step s (go i (Join_failed e) (bus s) s)"
| stop_done: "call_at s i (Stopping []) \<Longrightarrow> bus_step s (go i Idle_call (bus s) s)"
| set_handler: "bus_step s (s\<lparr>bus := set_qos_mismatch_handler h (bus s)\<rparr>)"
| set_timeout: "bus_step s (s\<lparr>bus := set_reliable_timeout t (bus s)\<rparr>)"
| tick: "time s \<le> t \<Longrightarrow> bus_step s (s\<lparr>time := t\<rparr>)"

definition bus_init :: "nat \<Rightarrow> ('ty, 'm) bus_sys \<Rightarrow> bool" where
  "bus_init n s \<longleftrightarrow> bus s = new_bus \<and> calls s = replicate n Idle_call \<and> returned s = []"

abbreviation bus_reach :: "nat \<Rightarrow> ('ty, 'm) bus_sys \<Rightarrow> bool" where
  "bus_reach n \<equiv> reachable (bus_init n) bus_step"

section \<open>Every subscription on its own\<close>

definition subs_ok :: "('ty, 'm) bus_sys \<Rightarrow> bool" where
  "subs_ok s \<longleftrightarrow> (\<forall>sid x. sub_objs (bus s) sid = Some x \<longrightarrow> sub_ok x)"

text \<open>The loop of a publication leaves a subscriber as it is or rejects it.\<close>

lemma match_subs_keeps:
  assumes "match_subs pq sids objs = (objs', ms, ts, n)" and "objs' sid = Some x'"
  obtains x where "objs sid = Some x" "x' = x \<or> (\<exists>k. x' = x\<lparr>qos_rejected := k, mismatch_reported := True\<rparr>)"
  using assms
proof (induction sids arbitrary: objs objs' ms ts n thesis)
  case Nil
  then show ?case by auto
next
  case (Cons a sids)
  show ?case
  proof (cases "objs a")
    case None
    then show ?thesis using Cons.IH [OF Cons.prems(1)] Cons.prems(2,3) by simp
  next
    case (Some y)
    let ?y = "y\<lparr>qos_rejected := qos_rejected y + 1, mismatch_reported := True\<rparr>"
    let ?objs = "if check_compatible pq (sub_qos y) = NoMismatch then objs else objs(a \<mapsto> ?y)"
    obtain ms' ts' n' where m: "match_subs pq sids ?objs = (objs', ms', ts', n')"
      using Cons.prems(2) Some by (auto simp: Let_def split: if_splits prod.splits)
    obtain z where z: "?objs sid = Some z" "x' = z \<or> (\<exists>k. x' = z\<lparr>qos_rejected := k, mismatch_reported := True\<rparr>)"
      using Cons.IH [OF _ m Cons.prems(3)] by blast
    show ?thesis
    proof (cases "sid = a \<and> check_compatible pq (sub_qos y) \<noteq> NoMismatch")
      case True
      then have "z = ?y" using z(1) by simp
      then have "\<exists>k. x' = y\<lparr>qos_rejected := k, mismatch_reported := True\<rparr>" using z(2) by auto
      then show ?thesis using Cons.prems(1) Some True by blast
    next
      case False
      then have "objs sid = Some z" using z(1) by (auto split: if_splits)
      then show ?thesis using Cons.prems(1) z(2) by blast
    qed
  qed
qed

definition requalified :: "('ty, 'm) Subscription \<Rightarrow> ('ty, 'm) Subscription \<Rightarrow> bool" where
  "requalified x x' \<longleftrightarrow> x' = x \<or> (\<exists>k. x' = x\<lparr>qos_rejected := k, mismatch_reported := True\<rparr>)"

lemma requalified_fields:
  assumes "requalified x x'"
  shows "sub_topic x' = sub_topic x" "sub_type x' = sub_type x" "arrived x' = arrived x" "sub_ok x' = sub_ok x"
  using assms by (auto simp: requalified_def sub_ok_def)

lemma publish_locked_cases [consumes 1, case_names Absent Conflict Published]:
  assumes "publish_locked topic ty pq msg now b = (b', r)"
  obtains (Absent) "b' = b" "r = None"
  | (Conflict) "topics b' = topics b" "sub_objs b' = sub_objs b" "r = None"
  | (Published) e e' env ts ms n where
      "map_of (topics b) topic = Some e" "entry_type e = ty" "r = Some (env, ts, ms)"
      "made_as env = ty" "seq env = published e + 1"
      "entry_type e' = ty" "entry_subs e' = entry_subs e" "published e' = published e + 1" "pub_log e' = pub_log e @ [env]"
      "entry_latched e' = (if durability pq = TransientLocal then trim (depth pq) (entry_latched e @ [env]) else entry_latched e)"
      "map_of (topics b') = (map_of (topics b))(topic \<mapsto> e')"
      "match_subs pq (entry_subs e) (sub_objs b) = (sub_objs b', ms, ts, n)"
proof (cases "map_of (topics b) topic")
  case None
  then show ?thesis using assms that(1) by (simp add: publish_locked_def)
next
  case (Some e)
  obtain objs ms ts n where m: "match_subs pq (entry_subs e) (sub_objs b) = (objs, ms, ts, n)" by (metis prod_cases4)
  show ?thesis
  proof (cases "entry_type e = ty")
    case True
    let ?env = "\<lparr>payload = msg, seq = published e + 1, publish_ns = now, made_as = ty\<rparr>"
    let ?e = "e\<lparr>published := published e + 1, pub_log := pub_log e @ [?env]\<rparr>"
    let ?e' = "if durability pq = TransientLocal
      then ?e\<lparr>entry_latched := trim (depth pq) (entry_latched e @ [?env])\<rparr> else ?e"
    have "b' = (set_entry topic ?e' b)\<lparr>sub_objs := objs, qos_mismatches := qos_mismatches b + of_nat n\<rparr>"
      and "r = Some (?env, ts, ms)"
      using assms Some True m by (simp_all add: publish_locked_def Let_def split: if_splits)
    then show ?thesis using m True
      by (intro that(3) [of e ?env ts ms ?e' n, OF Some True]) (simp_all add: set_entry_def update_conv')
  next
    case False
    then show ?thesis using assms Some that(2) by (auto simp: publish_locked_def)
  qed
qed

lemma publish_locked_subs:
  assumes "publish_locked topic ty pq msg now b = (b', r)" and "sub_objs b' sid = Some x'"
  obtains x where "sub_objs b sid = Some x" "requalified x x'"
  using assms(1)
proof (cases rule: publish_locked_cases)
  case (Published e e' env ts ms n)
  then show ?thesis using match_subs_keeps [OF Published(12) assms(2)] that unfolding requalified_def by blast
qed (use assms(2) that in \<open>auto simp: requalified_def\<close>)

lemma match_subs_dom:
  "match_subs pq sids objs = (objs', ms, ts, n) \<Longrightarrow> dom objs' = dom objs"
proof (induction sids arbitrary: objs objs' ms ts n)
  case (Cons a sids)
  show ?case
  proof (cases "objs a")
    case None
    then show ?thesis using Cons by simp
  next
    case (Some y)
    let ?objs = "if check_compatible pq (sub_qos y) = NoMismatch then objs
      else objs(a \<mapsto> y\<lparr>qos_rejected := qos_rejected y + 1, mismatch_reported := True\<rparr>)"
    obtain ms' ts' n' where m: "match_subs pq sids ?objs = (objs', ms', ts', n')"
      using Cons.prems Some by (auto simp: Let_def split: if_splits prod.splits)
    show ?thesis using Cons.IH [OF m] Some by auto
  qed
qed simp

lemma publish_locked_dom:
  assumes "publish_locked topic ty pq msg now b = (b', r)"
  shows "sub_objs b sid = Some x \<Longrightarrow> \<exists>x'. sub_objs b' sid = Some x'"
proof -
  from assms have "dom (sub_objs b') = dom (sub_objs b)"
  proof (cases rule: publish_locked_cases)
    case (Published e e' env ts ms n)
    then show ?thesis using match_subs_dom [OF Published(12)] by simp
  qed simp_all
  then show "sub_objs b sid = Some x \<Longrightarrow> \<exists>x'. sub_objs b' sid = Some x'" by blast
qed

lemma bus_frames [frame_simps]:
  "sub_objs (fst (advertise topic ty q b)) = sub_objs b" "sub_objs (report topic ms b) = sub_objs b"
  "sub_objs (unsubscribe_locked sid b) = sub_objs b" "sub_objs (fst (shutdown_locked b)) = sub_objs b"
  "topics (report topic ms b) = topics b" "topics (set_sub sid x b) = topics b"
  "sub_objs (set_sub sid x b) = (sub_objs b)(sid \<mapsto> x)" "sub_objs (set_entry topic e b) = sub_objs b"
  "map_of (topics (set_entry topic e b)) = (map_of (topics b))(topic \<mapsto> e)"
  by (auto simp: advertise_def ensure_topic_def report_def unsubscribe_locked_def shutdown_locked_def set_sub_def
      set_entry_def update_conv' split: option.splits)

lemma subscribe_locked_subs:
  assumes "subscribe_locked sid topic ty q b = (b', r)"
  shows "sub_objs b' = (if r = None then sub_objs b else (sub_objs b)(sid \<mapsto> new_subscription topic ty q))"
  using assms by (auto simp: subscribe_locked_def ensure_topic_def set_sub_def set_entry_def Let_def
      split: option.splits if_splits prod.splits)

lemma subscribe_locked_ok:
  assumes "subscribe_locked sid topic ty q b = (b', Some bl)"
  obtains e where "map_of (topics b) topic = Some e \<or> map_of (topics b) topic = None \<and> e = new_entry ty"
    "entry_type e = ty" "map_of (topics b') = (map_of (topics b))(topic \<mapsto> e\<lparr>entry_subs := entry_subs e @ [sid]\<rparr>)"
    "sub_objs b' = (sub_objs b)(sid \<mapsto> new_subscription topic ty q)" "bl = entry_latched e \<or> bl = []"
proof -
  let ?e = "case map_of (topics b) topic of Some e \<Rightarrow> e | None \<Rightarrow> new_entry ty"
  have "entry_type ?e = ty"
    "map_of (topics b') = (map_of (topics b))(topic \<mapsto> ?e\<lparr>entry_subs := entry_subs ?e @ [sid]\<rparr>)"
    "sub_objs b' = (sub_objs b)(sid \<mapsto> new_subscription topic ty q)" "bl = entry_latched ?e \<or> bl = []"
    using assms by (auto simp: subscribe_locked_def ensure_topic_def Let_def set_sub_def set_entry_def update_conv'
        new_entry_def fun_eq_iff split: option.splits if_splits)
  then show ?thesis by (intro that [of ?e]) (auto split: option.splits)
qed

lemma go_fields [simp]:
  "bus (go i c b s) = b" "calls (go i c b s) = (calls s)[i := c]" "time (go i c b s) = time s"
  by (simp_all add: go_def)

lemma subs_ok_set: "subs_ok s \<Longrightarrow> sub_ok x \<Longrightarrow> bus s' = set_sub sid x (bus s) \<Longrightarrow> subs_ok s'"
  by (auto simp: subs_ok_def set_sub_def)

lemma subs_ok_same: "subs_ok s \<Longrightarrow> sub_objs (bus s') = sub_objs (bus s) \<Longrightarrow> subs_ok s'"
  by (simp add: subs_ok_def)

lemma push_target_until:
  assumes "push_target now timeout env x = r"
  obtains dl where "push_until (sub_queue x) env dl = r"
  using assms by (auto simp: push_target_def push_for_def push_def split: if_splits)

lemma sub_pushed_frame [frame_simps]:
  "sub_qos (sub_pushed env r x) = sub_qos x" "sub_worker_at (sub_pushed env r x) = sub_worker_at x"
  "sub_type (sub_pushed env r x) = sub_type x" "sub_topic (sub_pushed env r x) = sub_topic x"
  "arrived (sub_pushed env (ev, q, oc, sg) x) =
     arrived x @ (if oc = Return Ok \<or> oc = Return DroppedOldest then [env] else [])"
  by (auto simp: sub_pushed_def split: prod.splits)

section \<open>The effect of a step\<close>

text \<open>The pushes a call still has to make.\<close>

fun pushes_left :: "('ty, 'm) call \<Rightarrow> (nat \<times> ('ty, 'm) Envelope) list" where
  "pushes_left (Publishing env tg ts ok) = map (\<lambda>sid. (sid, env)) ts"
| "pushes_left (Push_waiting env tg sid ts ok dl) = (sid, env) # map (\<lambda>sid. (sid, env)) ts"
| "pushes_left (Subscribing sid bl) = map (\<lambda>env. (sid, env)) bl"
| "pushes_left _ = []"

fun subscribing :: "('ty, 'm) call \<Rightarrow> nat option" where
  "subscribing (Subscribing sid bl) = Some sid"
| "subscribing _ = None"

text \<open>One call changes from \<open>d\<close> to \<open>c\<close>, having made at most the first of its pending pushes, to \<open>sid\<close>.\<close>

definition advances :: "nat \<Rightarrow> ('ty, 'm) Envelope list \<Rightarrow> ('ty, 'm) call \<Rightarrow> ('ty, 'm) call \<Rightarrow> bool" where
  "advances sid E d c \<longleftrightarrow> subscribing c = subscribing d \<and>
     (E = [] \<and> pushes_left c = pushes_left d \<or> (\<exists>env. pushes_left d = (sid, env) # pushes_left c \<and> (E = [] \<or> E = [env])))"

definition calls_advance :: "nat \<Rightarrow> ('ty, 'm) Envelope list \<Rightarrow> ('ty, 'm) call list \<Rightarrow> ('ty, 'm) call list \<Rightarrow> bool" where
  "calls_advance sid E cs cs' \<longleftrightarrow>
     (\<exists>i c. i < length cs \<and> cs' = cs[i := c] \<and> advances sid E (cs ! i) c) \<or> cs' = cs \<and> E = []"

text \<open>How many turns the worker of a closed subscription can still take.\<close>

fun turns :: "('ty, 'm) sub_worker \<Rightarrow> nat" where
  "turns Not_started = 1"
| "turns At_pop = 1"
| "turns (Holding env) = 3"
| "turns (In_callback env) = 2"
| "turns _ = 0"

definition sub_work :: "('ty, 'm) Subscription \<Rightarrow> nat" where
  "sub_work x = 3 * length (items (sub_queue x)) + turns (sub_worker_at x)"

definition moved :: "('ty, 'm) Envelope list \<Rightarrow> ('ty, 'm) Subscription \<Rightarrow> ('ty, 'm) Subscription \<Rightarrow> bool" where
  "moved E x x' \<longleftrightarrow> sub_topic x' = sub_topic x \<and> sub_type x' = sub_type x \<and> arrived x' = arrived x @ E \<and>
     (sub_ok x \<longrightarrow> sub_ok x') \<and> (closed (sub_queue x) \<longrightarrow> closed (sub_queue x') \<and> sub_work x' \<le> sub_work x) \<and>
     (sub_worker_at x = Not_started \<longrightarrow> sub_worker_at x' = Not_started)"

text \<open>Topics are only added, or lose subscribers or their history.\<close>

definition narrowed :: "('ty, 'm) TopicEntry \<Rightarrow> ('ty, 'm) TopicEntry \<Rightarrow> bool" where
  "narrowed e e' \<longleftrightarrow> entry_type e' = entry_type e \<and> pub_log e' = pub_log e \<and> published e' = published e \<and>
     subseq (entry_subs e') (entry_subs e) \<and> subseq (entry_latched e') (entry_latched e)"

definition topics_narrow :: "('ty, 'm) TopicBus \<Rightarrow> ('ty, 'm) TopicBus \<Rightarrow> bool" where
  "topics_narrow b b' \<longleftrightarrow> sub_objs b' = sub_objs b \<and>
     (\<forall>t. case map_of (topics b') t of
            None \<Rightarrow> map_of (topics b) t = None
          | Some e' \<Rightarrow> (case map_of (topics b) t of None \<Rightarrow> \<exists>ty. e' = new_entry ty | Some e \<Rightarrow> narrowed e e'))"

lemma topics_narrow_entry:
  assumes "topics_narrow b b'" and "map_of (topics b') t = Some e'"
  obtains (Old) e where "map_of (topics b) t = Some e" "narrowed e e'"
  | (New) ty where "map_of (topics b) t = None" "e' = new_entry ty"
proof -
  note n = assms(1) [unfolded topics_narrow_def, THEN conjunct2, THEN spec, of t]
  show ?thesis
  proof (cases "map_of (topics b) t")
    case None
    then show ?thesis using n assms(2) New by auto
  next
    case (Some e)
    then show ?thesis using n assms(2) Old by simp
  qed
qed

lemma narrowed_refl [simp]: "narrowed e e"
  by (simp add: narrowed_def)

lemma topics_same: "sub_objs b' = sub_objs b \<Longrightarrow> topics b' = topics b \<Longrightarrow> topics_narrow b b'"
  by (auto simp: topics_narrow_def split: option.splits)

lemma ensure_topic_narrow: "topics_narrow b (fst (ensure_topic topic ty b))"
  by (auto simp: topics_narrow_def ensure_topic_def update_conv' split: option.splits)

lemma unsubscribe_narrow: "topics_narrow b (unsubscribe_locked sid b)"
proof -
  have "subseq (remove1 sid xs) xs" for xs :: "nat list" by (induction xs) auto
  then show ?thesis
    by (auto simp: topics_narrow_def unsubscribe_locked_def set_entry_def update_conv' narrowed_def split: option.splits)
qed

lemma shutdown_narrow: "topics_narrow b (fst (shutdown_locked b))"
  by (auto simp: topics_narrow_def shutdown_locked_def narrowed_def map_of_map split: option.splits)

lemma subscribe_conflict_narrow:
  assumes "subscribe_locked sid topic ty q b = (b', None)"
  shows "topics_narrow b b'"
  using assms ensure_topic_narrow [of b topic ty]
  by (auto simp: subscribe_locked_def Let_def split: prod.splits if_splits)

lemma publish_refused_narrow:
  assumes "publish_locked topic ty pq msg now b = (b', None)"
  shows "topics_narrow b b'"
  using assms by (cases rule: publish_locked_cases) (auto intro: topics_same)

lemma advances_simps [simp]:
  "advances sid (if oc = Return Ok \<or> oc = Return DroppedOldest then [env] else [])
     (Publishing env tg (sid # ts) ok) (after_target env tg sid ts ok dl oc)"
  "advances sid (if oc = Return Ok \<or> oc = Return DroppedOldest then [env] else [])
     (Push_waiting env tg sid ts ok dl') (after_target env tg sid ts ok dl oc)"
  "advances sid (if oc = Return Ok \<or> oc = Return DroppedOldest then [env] else [])
     (Subscribing sid (env # rest)) (Subscribing sid rest)"
  by (cases oc; auto simp: advances_def)+

lemma pushed_closed:
  assumes "push_until (sub_queue x) env dl = (ev, q, oc, sg)" and "closed (sub_queue x)"
  shows "sub_queue (sub_pushed env (ev, q, oc, sg) x) = sub_queue x"
  using assms(1) by (cases rule: push_until_cases) (use assms(2) in \<open>auto simp: sub_pushed_def\<close>)

lemma woken_closed:
  assumes "push_wake (sub_queue x) env to = (q, oc, sg)" and "closed (sub_queue x)"
  shows "sub_queue (sub_pushed env (None, q, oc, sg) x) = sub_queue x"
  using assms(1) by (cases rule: push_wake_cases) (use assms(2) in \<open>auto simp: sub_pushed_def\<close>)

lemma pushed_moved:
  assumes "push_until (sub_queue x) env dl = (ev, q, oc, sg)"
  shows "moved (if oc = Return Ok \<or> oc = Return DroppedOldest then [env] else []) x (sub_pushed env (ev, q, oc, sg) x)"
  using sub_pushed_ok [OF _ assms] pushed_closed [OF assms] by (simp add: moved_def frame_simps sub_work_def)

lemma woken_moved:
  assumes "push_wake (sub_queue x) env to = (q, oc, sg)"
  shows "moved (if oc = Return Ok \<or> oc = Return DroppedOldest then [env] else []) x (sub_pushed env (None, q, oc, sg) x)"
  using sub_woken_ok [OF _ assms] woken_closed [OF assms] by (simp add: moved_def frame_simps sub_work_def)

lemma taken_moved:
  assumes "sub_worker_at x = At_pop" and "worker_take x = Some x'"
  shows "moved [] x x'"
  using assms(2) by (cases rule: worker_take_cases)
    (use assms worker_take_ok [OF _ assms] in \<open>auto simp: moved_def sub_work_def\<close>)

lemma called_moved: "sub_worker_at x = Holding env \<Longrightarrow> moved [] x (deliver_call now env x)"
  by (simp add: moved_def frame_simps deliver_call_ok sub_work_def)

lemma returned_moved: "sub_worker_at x = In_callback env \<Longrightarrow> moved [] x (deliver_return x)"
  by (simp add: moved_def frame_simps deliver_return_ok sub_work_def)

lemma closed_moved: "moved [] x (close_sub x)"
  by (simp add: moved_def close_sub_ok [unfolded close_sub_def close_locked_def] close_sub_def close_locked_def sub_work_def)

lemma join_worker_Inr: "join_worker w = Some (Inr w') \<longleftrightarrow> w = Returned \<and> w' = Thread_joined"
  by (cases w) auto

lemma join_worker_Inl: "join_worker w = Some (Inl e) \<longleftrightarrow> \<not> joinable w"
  by (cases w; cases e) simp_all

lemma joined_moved: "join_worker (sub_worker_at x) = Some (Inr w) \<Longrightarrow> moved [] x (x\<lparr>sub_worker_at := w\<rparr>)"
  by (auto simp: join_worker_Inr moved_def sub_ok_def sub_work_def)

lemma bus_step_effect [consumes 1, case_names Sub Start Publish Subscribe Other]:
  assumes "bus_step s s'"
  obtains
    (Sub) sid x x' E where "sub_objs (bus s) sid = Some x" "moved E x x'" "bus s' = set_sub sid x' (bus s)"
      "calls_advance sid E (calls s) (calls s')"
  | (Start) i sid x where "call_at s i (Subscribing sid [])" "sub_objs (bus s) sid = Some x"
      "bus s' = set_sub sid (start_worker x) (bus s)" "calls s' = (calls s)[i := Idle_call]"
  | (Publish) i topic ty pq msg now b env ts ms where "call_at s i Idle_call"
      "publish_locked topic ty pq msg now (bus s) = (b, Some (env, ts, ms))"
      "bus s' = report topic ms b" "calls s' = (calls s)[i := Publishing env ts ts True]"
  | (Subscribe) i sid topic ty q b bl where "call_at s i Idle_call" "sub_objs (bus s) sid = None"
      "subscribe_locked sid topic ty q (bus s) = (b, Some bl)" "bus s' = b" "calls s' = (calls s)[i := Subscribing sid bl]"
  | (Other) "topics_narrow (bus s) (bus s')" "calls_advance 0 [] (calls s) (calls s')"
proof -
  have adv: "calls_advance sid E (calls s) ((calls s)[i := c])" if "call_at s i d" "advances sid E d c" for sid E i d c
    using that by (auto simp: calls_advance_def call_at_def)
  have idle: "advances 0 [] d c" if "pushes_left d = []" "pushes_left c = []" "subscribing d = None" "subscribing c = None" for d c
    using that by (simp add: advances_def)
  from assms show ?thesis
  proof cases
    case (subscribe_replay i sid env rest x)
    obtain ev q oc sg where p: "push_until (sub_queue x) env tp_min = (ev, q, oc, sg)" by (metis prod_cases4)
    show ?thesis using subscribe_replay adv [OF subscribe_replay(2) advances_simps(3) [of sid oc]]
      by (intro Sub [OF subscribe_replay(3) pushed_moved [OF p]]) (simp_all add: replay_def try_push_def p)
  next
    case (publish_push i env tg sid ts k x ev q oc sg)
    obtain dl where p: "push_until (sub_queue x) env dl = (ev, q, oc, sg)" using publish_push(4) by (rule push_target_until)
    show ?thesis using publish_push adv [OF publish_push(2) advances_simps(1)]
      by (intro Sub [OF publish_push(3) pushed_moved [OF p]]) simp_all
  next
    case (publish_wake i env tg sid ts k dl x to q oc sg)
    show ?thesis using publish_wake adv [OF publish_wake(2) advances_simps(2)]
      by (intro Sub [OF publish_wake(3) woken_moved [OF publish_wake(5)]]) simp_all
  next
    case (worker_take sid x x')
    then show ?thesis by (intro Sub [OF _ taken_moved]) (auto simp: calls_advance_def)
  next
    case (worker_deliver sid x env)
    then show ?thesis by (intro Sub [OF _ called_moved]) (auto simp: calls_advance_def)
  next
    case (worker_return sid x env)
    then show ?thesis by (intro Sub [OF _ returned_moved]) (auto simp: calls_advance_def)
  next
    case (stop_close i sid sids x)
    then show ?thesis using adv [of i _ sid "[]"] by (intro Sub [OF _ closed_moved]) (auto simp: advances_def)
  next
    case (stop_test i sid sids x)
    then show ?thesis using adv [OF stop_test(2) idle, of "if joinable (sub_worker_at x) then Joining sid sids else Stopping sids"]
      by (intro Other) (simp_all add: topics_same)
  next
    case (stop_fail i sid sids x e)
    then show ?thesis using adv [OF stop_fail(2) idle, of "Join_failed e"] by (intro Other) (simp_all add: topics_same)
  next
    case (stop_join i sid sids x w)
    then show ?thesis using adv [of i _ sid "[]"] by (intro Sub [OF _ joined_moved]) (auto simp: advances_def)
  next
    case (subscribe_lock i sid topic ty q b bl)
    then show ?thesis by (intro Subscribe) simp_all
  next
    case (subscribe_start i sid x)
    then show ?thesis by (intro Start) simp_all
  next
    case (publish_lock i now topic ty pq msg b env ts ms)
    then show ?thesis by (intro Publish) simp_all
  next
    case (advertise i topic ty q)
    then show ?thesis using adv [OF advertise(2) idle, of Idle_call]
      by (intro Other) (simp_all add: Topic_Bus.advertise_def ensure_topic_narrow)
  next
    case (subscribe_conflict i sid topic ty q b)
    then show ?thesis using adv [OF subscribe_conflict(2) idle, of Idle_call]
      by (intro Other) (simp_all add: subscribe_conflict_narrow)
  next
    case (publish_refused i now topic ty pq msg b)
    then show ?thesis using adv [OF publish_refused(2) idle, of Idle_call]
      by (intro Other) (simp_all add: publish_refused_narrow)
  next
    case (publish_return i env tg k)
    then show ?thesis using adv [OF publish_return(2) idle, of Idle_call]
      by (intro Other) (simp_all add: topics_same)
  next
    case (unsubscribe_lock i sid x)
    then show ?thesis using adv [OF unsubscribe_lock(2) idle, of "Stopping [sid]"]
      by (intro Other) (simp_all add: unsubscribe_narrow)
  next
    case (shutdown_lock i b sids)
    then show ?thesis using adv [OF shutdown_lock(2) idle, of "Stopping sids"] shutdown_narrow [of "bus s"]
      by (intro Other) simp_all
  next
    case (stop_done i)
    then show ?thesis using adv [OF stop_done(2) idle, of Idle_call]
      by (intro Other) (simp_all add: topics_same)
  qed (rule Other; auto simp: topics_same calls_advance_def set_qos_mismatch_handler_def set_reliable_timeout_def)+
qed

section \<open>Workers start once, subscriptions stay consistent\<close>

definition not_started :: "('ty, 'm) TopicBus \<Rightarrow> nat \<Rightarrow> bool" where
  "not_started b sid \<longleftrightarrow> (\<exists>x. sub_objs b sid = Some x \<and> sub_worker_at x = Not_started)"

text \<open>The subscriptions whose creating call is still running, as a multiset over the calls.\<close>

definition starters :: "('ty, 'm) call list \<Rightarrow> nat multiset" where
  "starters cs = sum_list (map (\<lambda>c. case subscribing c of None \<Rightarrow> {#} | Some sid \<Rightarrow> {#sid#}) cs)"

definition starting :: "('ty, 'm) bus_sys \<Rightarrow> bool" where
  "starting s \<longleftrightarrow> (\<forall>sid. count (starters (calls s)) sid \<le> (if not_started (bus s) sid then 1 else 0)) \<and> subs_ok s"

lemma starters_update:
  "i < length cs \<Longrightarrow> starters (cs[i := c]) + (case subscribing (cs ! i) of None \<Rightarrow> {#} | Some sid \<Rightarrow> {#sid#}) =
     starters cs + (case subscribing c of None \<Rightarrow> {#} | Some sid \<Rightarrow> {#sid#})"
  unfolding starters_def by (rule sum_list_replace)

lemma starters_in: "i < length cs \<Longrightarrow> subscribing (cs ! i) = Some sid \<Longrightarrow> sid \<in># starters cs"
proof -
  assume "i < length cs" "subscribing (cs ! i) = Some sid"
  then have "starters cs = add_mset sid (starters (cs[i := Idle_call]))" using starters_update [of i cs Idle_call] by simp
  then show ?thesis by simp
qed

lemma starters_advance: "calls_advance sid E cs cs' \<Longrightarrow> starters cs' = starters cs"
proof -
  assume adv: "calls_advance sid E cs cs'"
  show ?thesis
  proof (cases "cs' = cs")
    case False
    then obtain i c where i: "i < length cs" "cs' = cs[i := c]" "subscribing c = subscribing (cs ! i)"
      using adv by (auto simp: calls_advance_def advances_def)
    then show ?thesis using starters_update [OF i(1), of c] by simp
  qed simp
qed

lemma not_started_moved:
  assumes "sub_objs b sid = Some x" and "moved E x x'"
  shows "not_started b sid' \<Longrightarrow> not_started (set_sub sid x' b) sid'"
  using assms by (auto simp: not_started_def set_sub_def moved_def)

lemma not_started_published:
  assumes "publish_locked topic ty pq msg now b = (b', r)" and "not_started b sid"
  shows "not_started b' sid"
proof -
  obtain x where x: "sub_objs b sid = Some x" "sub_worker_at x = Not_started" using assms(2) by (auto simp: not_started_def)
  then obtain x' where x': "sub_objs b' sid = Some x'" using publish_locked_dom [OF assms(1)] by blast
  with assms(1) obtain y where "sub_objs b sid = Some y" "requalified y x'" by (rule publish_locked_subs)
  then show ?thesis using x x' by (auto simp: not_started_def requalified_def)
qed

lemma starting_mono:
  assumes "starting s" and "subs_ok s'" and "starters (calls s') = starters (calls s)"
    and "\<And>sid. not_started (bus s) sid \<Longrightarrow> not_started (bus s') sid"
  shows "starting s'"
  unfolding starting_def
proof (intro conjI allI)
  fix sid
  have "count (starters (calls s)) sid \<le> (if not_started (bus s) sid then 1 else 0)"
    using assms(1) by (simp add: starting_def)
  then show "count (starters (calls s')) sid \<le> (if not_started (bus s') sid then 1 else 0)"
    using assms(4) [of sid] by (simp add: assms(3) split: if_splits)
qed (rule assms(2))

lemma starting_step:
  assumes st: "starting s" and step: "bus_step s s'"
  shows "starting s'"
proof -
  have ok: "subs_ok s" and cnt: "count (starters (calls s)) sid \<le> (if not_started (bus s) sid then 1 else 0)" for sid
    using st by (simp_all add: starting_def)
  from step show ?thesis
  proof (cases rule: bus_step_effect)
    case (Sub sid x x' E)
    have "sub_ok x'" using ok Sub(1,2) by (auto simp: subs_ok_def moved_def)
    then have "subs_ok s'" using subs_ok_set [OF ok _ Sub(3)] by simp
    from st this starters_advance [OF Sub(4)] show ?thesis
      by (rule starting_mono) (simp add: Sub(3) not_started_moved [OF Sub(1,2)])
  next
    case (Start i sid x)
    have i: "i < length (calls s)" "calls s ! i = Subscribing sid []" using Start(1) by (simp_all add: call_at_def)
    have cs: "add_mset sid (starters (calls s')) = starters (calls s)"
      using starters_update [OF i(1), of Idle_call] i(2) Start(4) by simp
    then have one: "count (starters (calls s')) sid = 0" "not_started (bus s) sid"
      using cnt [of sid] by (auto simp flip: cs split: if_splits)
    then have "sub_ok (start_worker x)"
      using ok Start(2) by (auto simp: subs_ok_def not_started_def start_worker_ok)
    then have "subs_ok s'" using subs_ok_set [OF ok _ Start(3)] by simp
    moreover have "count (starters (calls s')) sid' \<le> (if not_started (bus s') sid' then 1 else 0)" for sid'
    proof (cases "sid' = sid")
      case False
      then have "count (starters (calls s')) sid' = count (starters (calls s)) sid'" by (simp flip: cs)
      moreover have "not_started (bus s') sid' = not_started (bus s) sid'"
        using False Start(3) by (simp add: not_started_def set_sub_def)
      ultimately show ?thesis using cnt [of sid'] by simp
    qed (use one in simp)
    ultimately show ?thesis by (simp add: starting_def)
  next
    case (Publish i topic ty pq msg now b env ts ms)
    have i: "i < length (calls s)" "calls s ! i = Idle_call" using Publish(1) by (simp_all add: call_at_def)
    have "subs_ok s'" unfolding subs_ok_def
    proof (intro allI impI)
      fix sid x assume "sub_objs (bus s') sid = Some x"
      then have "sub_objs b sid = Some x" using Publish(3) by (simp add: frame_simps)
      with Publish(2) obtain y where "sub_objs (bus s) sid = Some y" "requalified y x" by (rule publish_locked_subs)
      then show "sub_ok x" using ok requalified_fields(4) by (auto simp: subs_ok_def)
    qed
    moreover have "starters (calls s') = starters (calls s)"
      using starters_update [OF i(1), of "Publishing env ts ts True"] i(2) Publish(4) by simp
    ultimately show ?thesis
    proof (rule starting_mono [OF st])
      show "not_started (bus s') sid" if "not_started (bus s) sid" for sid
        using not_started_published [OF Publish(2) that] Publish(3) by (simp add: not_started_def frame_simps)
    qed
  next
    case (Subscribe i sid topic ty q b bl)
    have i: "i < length (calls s)" "calls s ! i = Idle_call" using Subscribe(1) by (simp_all add: call_at_def)
    have objs: "sub_objs (bus s') = (sub_objs (bus s))(sid \<mapsto> new_subscription topic ty q)"
      using subscribe_locked_subs [OF Subscribe(3)] Subscribe(4) by simp
    have cs: "starters (calls s') = add_mset sid (starters (calls s))"
      using starters_update [OF i(1), of "Subscribing sid bl"] i(2) Subscribe(5) by simp
    have "subs_ok s'" using ok new_subscription_ok by (auto simp: subs_ok_def objs)
    moreover have ns: "not_started (bus s') sid' = (sid' = sid \<or> not_started (bus s) sid')" for sid'
      using Subscribe(2) by (auto simp: not_started_def objs new_subscription_def)
    have "\<not> not_started (bus s) sid" using Subscribe(2) by (simp add: not_started_def)
    then have "count (starters (calls s')) sid' \<le> (if not_started (bus s') sid' then 1 else 0)" for sid'
      using cnt [of sid'] by (cases "sid' = sid") (simp_all add: cs ns)
    ultimately show ?thesis by (simp add: starting_def)
  next
    case Other
    have objs: "sub_objs (bus s') = sub_objs (bus s)" using Other(1) by (simp add: topics_narrow_def)
    then have "subs_ok s'" using ok by (simp add: subs_ok_def)
    from st this starters_advance [OF Other(2)] show ?thesis
      by (rule starting_mono) (simp add: not_started_def objs)
  qed
qed

lemma starters_idle [simp]: "starters (replicate n Idle_call) = {#}"
  by (induction n) (simp_all add: starters_def)

lemma starting_init: "bus_init n s \<Longrightarrow> starting s"
  by (simp add: bus_init_def starting_def subs_ok_def new_bus_def)

interpretation bus_subs: inductive_invariant "bus_init n" bus_step starting for n
  by unfold_locales (use starting_init starting_step in blast)+

section \<open>Wiring\<close>

text \<open>The subscribers listed at a topic exist, once each, with the topic's name and type.\<close>

definition wired :: "('ty, 'm) TopicBus \<Rightarrow> bool" where
  "wired b \<longleftrightarrow>
     (\<forall>t e. map_of (topics b) t = Some e \<longrightarrow> distinct (entry_subs e) \<and>
        (\<forall>sid\<in>set (entry_subs e). \<exists>x. sub_objs b sid = Some x \<and> sub_type x = entry_type e \<and> sub_topic x = t))"

definition keeps_subs :: "('ty, 'm) TopicBus \<Rightarrow> ('ty, 'm) TopicBus \<Rightarrow> bool" where
  "keeps_subs b b' \<longleftrightarrow>
     (\<forall>sid x. sub_objs b sid = Some x \<longrightarrow>
        (\<exists>x'. sub_objs b' sid = Some x' \<and> sub_type x' = sub_type x \<and> sub_topic x' = sub_topic x))"

lemma keeps_subs_set:
  "sub_objs b sid = Some x \<Longrightarrow> sub_type x' = sub_type x \<Longrightarrow> sub_topic x' = sub_topic x \<Longrightarrow> keeps_subs b (set_sub sid x' b)"
  by (auto simp: keeps_subs_def set_sub_def)

lemma keeps_subs_published:
  assumes "publish_locked topic ty pq msg now b = (b', r)"
  shows "keeps_subs b (report topic' ms b')"
  unfolding keeps_subs_def
proof (intro allI impI)
  fix sid x assume x: "sub_objs b sid = Some x"
  then obtain x' where x': "sub_objs b' sid = Some x'" using publish_locked_dom [OF assms] by blast
  with assms obtain y where "sub_objs b sid = Some y" "requalified y x'" by (rule publish_locked_subs)
  then show "\<exists>x'. sub_objs (report topic' ms b') sid = Some x' \<and> sub_type x' = sub_type x \<and> sub_topic x' = sub_topic x"
    using x x' by (auto simp: frame_simps requalified_def)
qed

lemma bus_step_keeps_subs:
  assumes "bus_step s s'"
  shows "keeps_subs (bus s) (bus s')"
  using assms
proof (cases rule: bus_step_effect)
  case (Sub sid x x' E)
  then show ?thesis by (simp add: keeps_subs_set moved_def)
next
  case (Start i sid x)
  then show ?thesis by (simp add: keeps_subs_set start_worker_def)
next
  case (Publish i topic ty pq msg now b env ts ms)
  then show ?thesis using keeps_subs_published by simp
next
  case (Subscribe i sid topic ty q b bl)
  then show ?thesis using subscribe_locked_subs [OF Subscribe(3)] by (auto simp: keeps_subs_def)
next
  case Other
  then show ?thesis by (simp add: topics_narrow_def keeps_subs_def)
qed

lemma wired_keep:
  assumes "wired b" and "keeps_subs b b'"
    and "\<And>t e'. map_of (topics b') t = Some e' \<Longrightarrow>
      entry_subs e' = [] \<or> (\<exists>e. map_of (topics b) t = Some e \<and> entry_type e' = entry_type e \<and> subseq (entry_subs e') (entry_subs e))"
  shows "wired b'"
  unfolding wired_def
proof (intro allI impI)
  fix t e' assume "map_of (topics b') t = Some e'"
  from assms(3) [OF this] show "distinct (entry_subs e') \<and>
    (\<forall>sid\<in>set (entry_subs e'). \<exists>x. sub_objs b' sid = Some x \<and> sub_type x = entry_type e' \<and> sub_topic x = t)"
  proof
    assume "\<exists>e. map_of (topics b) t = Some e \<and> entry_type e' = entry_type e \<and> subseq (entry_subs e') (entry_subs e)"
    then obtain e where e: "map_of (topics b) t = Some e" "entry_type e' = entry_type e" "subseq (entry_subs e') (entry_subs e)"
      by blast
    have w: "distinct (entry_subs e)"
      "\<forall>sid\<in>set (entry_subs e). \<exists>x. sub_objs b sid = Some x \<and> sub_type x = entry_type e \<and> sub_topic x = t"
      using assms(1) e(1) unfolding wired_def by blast+
    have "set (entry_subs e') \<subseteq> set (entry_subs e)" using e(3) by (auto dest: subseq_set)
    moreover have "distinct (entry_subs e')" using e(3) w(1) by (rule subseq_distinct)
    ultimately show ?thesis using w(2) e(2) assms(2) unfolding keeps_subs_def by (metis subsetD)
  qed simp
qed

lemma wired_step:
  assumes w: "wired (bus s)" and step: "bus_step s s'"
  shows "wired (bus s')"
proof -
  note keep = wired_keep [OF w bus_step_keeps_subs [OF step]]
  from step show ?thesis
  proof (cases rule: bus_step_effect)
    case (Sub sid x x' E)
    then show ?thesis by (intro keep) (auto simp: frame_simps)
  next
    case (Start i sid x)
    then show ?thesis by (intro keep) (auto simp: frame_simps)
  next
    case (Publish i topic ty pq msg now b env ts ms)
    from Publish(2) show ?thesis
    proof (cases rule: publish_locked_cases)
      case (Published e e' _ _ _ n)
      have "map_of (topics (bus s')) = (map_of (topics (bus s)))(topic \<mapsto> e')" using Published(11) Publish(3) by (simp add: frame_simps)
      then show ?thesis using Published(1,2,6,7) by (intro keep) (auto split: if_splits)
    qed simp_all
  next
    case (Subscribe i sid topic ty q b bl)
    from Subscribe(3) obtain e where e: "map_of (topics (bus s)) topic = Some e \<or> map_of (topics (bus s)) topic = None \<and> e = new_entry ty"
      "entry_type e = ty" "map_of (topics b) = (map_of (topics (bus s)))(topic \<mapsto> e\<lparr>entry_subs := entry_subs e @ [sid]\<rparr>)"
      "sub_objs b = (sub_objs (bus s))(sid \<mapsto> new_subscription topic ty q)"
      by (rule subscribe_locked_ok)
    have fresh: "sid \<notin> set (entry_subs e')" if "map_of (topics (bus s)) t = Some e'" for t e'
      using w that Subscribe(2) unfolding wired_def by (metis option.distinct(1))
    show ?thesis unfolding wired_def Subscribe(4)
    proof (intro allI impI)
      fix t e' assume e': "map_of (topics b) t = Some e'"
      have old: "distinct (entry_subs e) \<and> (\<forall>y\<in>set (entry_subs e). y \<noteq> sid \<and>
          (\<exists>x. sub_objs (bus s) y = Some x \<and> sub_type x = entry_type e \<and> sub_topic x = t))"
        if "map_of (topics (bus s)) t = Some e \<or> entry_subs e = []" for t e
        using that w fresh [of t e] by (auto simp: wired_def)
      have sid: "sub_type (new_subscription topic ty q) = ty" "sub_topic (new_subscription topic ty q) = topic"
        by (simp_all add: new_subscription_def)
      show "distinct (entry_subs e') \<and>
        (\<forall>sid\<in>set (entry_subs e'). \<exists>x. sub_objs b sid = Some x \<and> sub_type x = entry_type e' \<and> sub_topic x = t)"
      proof (cases "t = topic")
        case True
        have "map_of (topics (bus s)) topic = Some e \<or> entry_subs e = []" using e(1) by (auto simp: new_entry_def)
        from old [OF this] show ?thesis using True e' e(2-4) sid by auto
      next
        case False
        then have "map_of (topics (bus s)) t = Some e'" using e' e(3) by simp
        from old [OF disjI1 [OF this]] show ?thesis using e(4) by auto
      qed
    qed
  next
    case Other
    show ?thesis
    proof (rule keep)
      fix t e' assume "map_of (topics (bus s')) t = Some e'"
      with Other(1) show "entry_subs e' = [] \<or> (\<exists>e. map_of (topics (bus s)) t = Some e \<and> entry_type e' = entry_type e \<and>
          subseq (entry_subs e') (entry_subs e))"
        by (cases rule: topics_narrow_entry) (auto simp: narrowed_def new_entry_def)
    qed
  qed
qed

end
