(* ===== verification/Bus_Exec.thy ===== *)
theory Bus_Exec
  imports Bus_Machine
begin

text \<open>
  The step relation of \<open>Bus_Machine\<close> as a function of the choice a scheduler makes, so that concrete schedules
  can be evaluated. A choice that is not enabled has no result. Both descriptions allow the same steps.
\<close>

datatype ('ty, 'm) action =
    Do_advertise nat string 'ty QoS
  | Do_subscribe nat nat string 'ty QoS
  | Do_publish nat nanos string 'ty QoS 'm
  | Do_unsubscribe nat nat
  | Do_shutdown nat
  | Do_continue nat              \<comment> \<open>the next section of a running call\<close>
  | Do_wake nat bool             \<comment> \<open>a waiting push looks again; whether its deadline passed\<close>
  | Do_take nat
  | Do_deliver nat
  | Do_return nat                \<comment> \<open>a callback returns\<close>
  | Do_handler bool
  | Do_timeout nanos
  | Do_tick nanos

definition begin_call :: "nat \<Rightarrow> ('ty, 'm) call \<times> ('ty, 'm) TopicBus \<Rightarrow> ('ty, 'm) bus_sys \<Rightarrow> ('ty, 'm) bus_sys option" where
  "begin_call i r s = (if call_at s i Idle_call then Some (go i (fst r) (snd r) s) else None)"

definition with_sub :: "nat \<Rightarrow> (('ty, 'm) Subscription \<Rightarrow> ('ty, 'm) bus_sys option) \<Rightarrow> ('ty, 'm) bus_sys \<Rightarrow> ('ty, 'm) bus_sys option" where
  "with_sub sid f s = (case sub_objs (bus s) sid of None \<Rightarrow> None | Some x \<Rightarrow> f x)"

fun continue_call :: "nat \<Rightarrow> ('ty, 'm) call \<Rightarrow> ('ty, 'm) bus_sys \<Rightarrow> ('ty, 'm) bus_sys option" where
  "continue_call i (Publishing env tg [] ok) s = Some ((go i Idle_call (bus s) s)\<lparr>returned := returned s @ [(env, tg, ok)]\<rparr>)"
| "continue_call i (Publishing env tg (sid # ts) ok) s = with_sub sid (\<lambda>x.
     (case push_target (time s) (reliable_timeout (bus s)) env x of (ev, q, oc, sg) \<Rightarrow>
        Some (go i (after_target env tg sid ts ok (time s + reliable_timeout (bus s)) oc)
          (set_sub sid (sub_pushed env (ev, q, oc, sg) x) (bus s)) s))) s"
| "continue_call i (Subscribing sid []) s = with_sub sid (\<lambda>x. Some (go i Idle_call (set_sub sid (start_worker x) (bus s)) s)) s"
| "continue_call i (Subscribing sid (env # rest)) s = with_sub sid (\<lambda>x.
     Some (go i (Subscribing sid rest) (set_sub sid (replay env x) (bus s)) s)) s"
| "continue_call i (Stopping []) s = Some (go i Idle_call (bus s) s)"
| "continue_call i (Stopping (sid # sids)) s = with_sub sid (\<lambda>x.
     Some (go i (Closed_sub sid sids) (set_sub sid (close_sub x) (bus s)) s)) s"
| "continue_call i (Closed_sub sid sids) s = with_sub sid (\<lambda>x.
     Some (go i (if joinable (sub_worker_at x) then Joining sid sids else Stopping sids) (bus s) s)) s"
| "continue_call i (Joining sid sids) s = with_sub sid (\<lambda>x.
     case join_worker (sub_worker_at x) of
       None \<Rightarrow> None
     | Some (Inl e) \<Rightarrow> Some (go i (Join_failed e) (bus s) s)
     | Some (Inr w) \<Rightarrow> Some (go i (Stopping sids) (set_sub sid (x\<lparr>sub_worker_at := w\<rparr>) (bus s)) s)) s"
| "continue_call i (Join_failed e) s = None"
| "continue_call i Idle_call s = None"
| "continue_call i (Push_waiting env tg sid ts ok dl) s = None"

fun wake_call :: "nat \<Rightarrow> bool \<Rightarrow> ('ty, 'm) call \<Rightarrow> ('ty, 'm) bus_sys \<Rightarrow> ('ty, 'm) bus_sys option" where
  "wake_call i to (Push_waiting env tg sid ts ok dl) s = with_sub sid (\<lambda>x.
     if to \<and> time s < dl then None
     else (case push_wake (sub_queue x) env to of (q, oc, sg) \<Rightarrow>
        Some (go i (after_target env tg sid ts ok dl oc) (set_sub sid (sub_pushed env (None, q, oc, sg) x) (bus s)) s))) s"
| "wake_call i to _ s = None"

fun exec :: "('ty, 'm) action \<Rightarrow> ('ty, 'm) bus_sys \<Rightarrow> ('ty, 'm) bus_sys option" where
  "exec (Do_advertise i topic ty q) s = begin_call i (Idle_call, fst (advertise topic ty q (bus s))) s"
| "exec (Do_subscribe i sid topic ty q) s =
     (if sub_objs (bus s) sid \<noteq> None then None
      else case subscribe_locked sid topic ty q (bus s) of
             (b, None) \<Rightarrow> begin_call i (Idle_call, b) s
           | (b, Some backlog) \<Rightarrow> begin_call i (Subscribing sid backlog, b) s)"
| "exec (Do_publish i now topic ty pq msg) s =
     (if time s < now then None
      else case publish_locked topic ty pq msg (of_int now) (bus s) of
             (b, None) \<Rightarrow> begin_call i (Idle_call, b) s
           | (b, Some (env, ts, ms)) \<Rightarrow> begin_call i (Publishing env ts ts True, report topic ms b) s)"
| "exec (Do_unsubscribe i sid) s = with_sub sid (\<lambda>x. begin_call i (Stopping [sid], unsubscribe_locked sid (bus s)) s) s"
| "exec (Do_shutdown i) s = (case shutdown_locked (bus s) of (b, sids) \<Rightarrow> begin_call i (Stopping sids, b) s)"
| "exec (Do_continue i) s = (if i < length (calls s) then continue_call i (calls s ! i) s else None)"
| "exec (Do_wake i to) s = (if i < length (calls s) then wake_call i to (calls s ! i) s else None)"
| "exec (Do_take sid) s = with_sub sid (\<lambda>x.
     if sub_worker_at x = At_pop then map_option (\<lambda>x'. s\<lparr>bus := set_sub sid x' (bus s)\<rparr>) (worker_take x) else None) s"
| "exec (Do_deliver sid) s = with_sub sid (\<lambda>x.
     case sub_worker_at x of Holding env \<Rightarrow> Some (s\<lparr>bus := set_sub sid (deliver_call (of_int (time s)) env x) (bus s)\<rparr>) | _ \<Rightarrow> None) s"
| "exec (Do_return sid) s = with_sub sid (\<lambda>x.
     case sub_worker_at x of In_callback env \<Rightarrow> Some (s\<lparr>bus := set_sub sid (deliver_return x) (bus s)\<rparr>) | _ \<Rightarrow> None) s"
| "exec (Do_handler h) s = Some (s\<lparr>bus := set_qos_mismatch_handler h (bus s)\<rparr>)"
| "exec (Do_timeout t) s = Some (s\<lparr>bus := set_reliable_timeout t (bus s)\<rparr>)"
| "exec (Do_tick t) s = (if time s \<le> t then Some (s\<lparr>time := t\<rparr>) else None)"

fun run :: "('ty, 'm) action list \<Rightarrow> ('ty, 'm) bus_sys \<Rightarrow> ('ty, 'm) bus_sys option" where
  "run [] s = Some s"
| "run (a # as) s = Option.bind (exec a s) (run as)"

lemma with_subE:
  assumes "with_sub sid f s = Some s'"
  obtains x where "sub_objs (bus s) sid = Some x" "f x = Some s'"
  using assms by (auto simp: with_sub_def split: option.splits)

lemma begin_call_Some: "begin_call i r s = Some s' \<longleftrightarrow> call_at s i Idle_call \<and> s' = go i (fst r) (snd r) s"
  by (auto simp: begin_call_def)

lemma continue_step: "continue_call i c s = Some s' \<Longrightarrow> call_at s i c \<Longrightarrow> bus_step s s'"
  by (induction i c s rule: continue_call.induct)
    (auto elim!: with_subE split: prod.split_asm if_split_asm option.split_asm sum.split_asm intro: bus_step.intros)

lemma wake_step: "wake_call i to c s = Some s' \<Longrightarrow> call_at s i c \<Longrightarrow> bus_step s s'"
proof (induction i to c s rule: wake_call.induct)
  case (1 i to env tg sid ts ok dl s)
  from 1(1) obtain x q oc sg where x: "sub_objs (bus s) sid = Some x" "to \<longrightarrow> dl \<le> time s"
    "push_wake (sub_queue x) env to = (q, oc, sg)"
    "s' = go i (after_target env tg sid ts ok dl oc) (set_sub sid (sub_pushed env (None, q, oc, sg) x) (bus s)) s"
    by (auto elim!: with_subE simp: not_less split: prod.split_asm if_split_asm)
  show ?case unfolding x(4) by (rule publish_wake [OF 1(2) x(1-3)])
qed simp_all

lemma exec_step: "exec a s = Some s' \<Longrightarrow> bus_step s s'"
proof (induction a s rule: exec.induct)
  case (6 i s)
  then show ?case by (auto simp: call_at_def split: if_splits intro: continue_step)
next
  case (7 i to s)
  then show ?case by (auto simp: call_at_def split: if_splits intro: wake_step)
qed (auto simp: begin_call_Some not_less elim!: with_subE split: prod.split_asm option.split_asm if_split_asm
    sub_worker.split_asm intro: bus_step.intros)

lemma step_exec: "bus_step s s' \<Longrightarrow> \<exists>a. exec a s = Some s'"
proof (induction rule: bus_step.induct)
  case (subscribe_conflict s i sid topic ty q b)
  then show ?case by (intro exI [of _ "Do_subscribe i sid topic ty q"]) (simp add: begin_call_def)
next
  case (subscribe_lock s i sid topic ty q b bl)
  then show ?case by (intro exI [of _ "Do_subscribe i sid topic ty q"]) (simp add: begin_call_def)
next
  case (publish_refused s i now topic ty pq msg b)
  then show ?case by (intro exI [of _ "Do_publish i now topic ty pq msg"]) (simp add: begin_call_def)
next
  case (publish_lock s i now topic ty pq msg b env ts ms)
  then show ?case by (intro exI [of _ "Do_publish i now topic ty pq msg"]) (simp add: begin_call_def)
next
  case (advertise s i topic ty q)
  then show ?case by (intro exI [of _ "Do_advertise i topic ty q"]) (simp add: begin_call_def)
next
  case (unsubscribe_lock s i sid x)
  then show ?case by (intro exI [of _ "Do_unsubscribe i sid"]) (simp add: begin_call_def with_sub_def)
next
  case (shutdown_lock s i b sids)
  then show ?case by (intro exI [of _ "Do_shutdown i"]) (simp add: begin_call_def)
next
  case (publish_wake s i env tg sid ts k dl x to q oc sg)
  then show ?case by (intro exI [of _ "Do_wake i to"]) (auto simp: with_sub_def call_at_def)
next
  case (worker_take s sid x x')
  then show ?case by (intro exI [of _ "Do_take sid"]) (simp add: with_sub_def)
next
  case (worker_deliver s sid x env)
  then show ?case by (intro exI [of _ "Do_deliver sid"]) (simp add: with_sub_def)
next
  case (worker_return s sid x env)
  then show ?case by (intro exI [of _ "Do_return sid"]) (simp add: with_sub_def)
next
  case (set_handler s h)
  show ?case by (intro exI [of _ "Do_handler h"]) simp
next
  case (set_timeout s t)
  show ?case by (intro exI [of _ "Do_timeout t"]) simp
next
  case (tick s t)
  then show ?case by (intro exI [of _ "Do_tick t"]) simp
next
  case (subscribe_replay s i)
  then show ?case by (intro exI [of _ "Do_continue i"]) (auto simp: call_at_def with_sub_def)
next
  case (subscribe_start s i)
  then show ?case by (intro exI [of _ "Do_continue i"]) (auto simp: call_at_def with_sub_def)
next
  case (publish_push s i)
  then show ?case by (intro exI [of _ "Do_continue i"]) (auto simp: call_at_def with_sub_def)
next
  case (publish_return s i)
  then show ?case by (intro exI [of _ "Do_continue i"]) (auto simp: call_at_def with_sub_def)
next
  case (stop_close s i)
  then show ?case by (intro exI [of _ "Do_continue i"]) (auto simp: call_at_def with_sub_def)
next
  case (stop_test s i)
  then show ?case by (intro exI [of _ "Do_continue i"]) (auto simp: call_at_def with_sub_def)
next
  case (stop_fail s i)
  then show ?case by (intro exI [of _ "Do_continue i"]) (auto simp: call_at_def with_sub_def)
next
  case (stop_join s i)
  then show ?case by (intro exI [of _ "Do_continue i"]) (auto simp: call_at_def with_sub_def)
next
  case (stop_done s i)
  then show ?case by (intro exI [of _ "Do_continue i"]) (auto simp: call_at_def with_sub_def)
qed

text \<open>Evaluated schedules give reachable states, and every reachable state has a schedule.\<close>

lemma run_steps: "run as s = Some s' \<Longrightarrow> bus_step\<^sup>*\<^sup>* s s'"
  by (induction as arbitrary: s)
    (auto simp: bind_eq_Some_conv dest!: exec_step intro: converse_rtranclp_into_rtranclp)

definition idle_bus :: "nat \<Rightarrow> ('ty, 'm) bus_sys" where
  "idle_bus n = \<lparr>bus = new_bus, calls = replicate n Idle_call, time = 0, returned = []\<rparr>"

lemma run_append: "run (as @ bs) s = Option.bind (run as s) (run bs)"
  by (induction as arbitrary: s) (auto split: bind_splits)

lemma idle_bus_init: "bus_init n (idle_bus n)"
  by (simp add: bus_init_def idle_bus_def)

lemma run_reach: "run as (idle_bus n) = Some s \<Longrightarrow> bus_reach n s"
  by (rule reachable_trans [OF run_steps reachable.start [of "bus_init n", OF idle_bus_init]])

text \<open>That a schedule can be run is shown by evaluating this test; states, which hold functions, are not compared.\<close>

lemma runs: "\<not> Option.is_none r \<Longrightarrow> r = Some (the r)"
  by (cases r) simp_all

lemma steps_run: "bus_step\<^sup>*\<^sup>* s s' \<Longrightarrow> \<exists>as. run as s = Some s'"
proof (induction rule: rtranclp_induct)
  case base
  have "run [] s = Some s" by simp
  then show ?case by blast
next
  case (step s' s'')
  then obtain as a where "run as s = Some s'" "exec a s' = Some s''" using step_exec by blast
  then have "run (as @ [a]) s = Some s''" by (simp add: run_append)
  then show ?case by blast
qed

end
