(* ===== verification/Bus_Guarantees.thy ===== *)
theory Bus_Guarantees
  imports Bus_Exec
begin

text \<open>
  What every reachable state of the bus promises its users. The invariant \<open>sound\<close> says that what reached a
  subscriber, together with what is still on its way to it, is a sub-multiset of what was published on its
  topic; so callbacks get messages of their own type, only published ones, and none twice. The
  invariant \<open>promised\<close> gives the result of a publication its meaning. Concrete schedules show where promises
  made in the comments of the code fail.
\<close>

section \<open>Only what was published, and once\<close>

text \<open>The pushes still to be made to a subscriber, over all running calls.\<close>

definition owed_by :: "nat \<Rightarrow> ('ty, 'm) call \<Rightarrow> ('ty, 'm) Envelope multiset" where
  "owed_by sid c = mset (map snd (filter (\<lambda>p. fst p = sid) (pushes_left c)))"

definition owed :: "('ty, 'm) call list \<Rightarrow> nat \<Rightarrow> ('ty, 'm) Envelope multiset" where
  "owed cs sid = sum_list (map (owed_by sid) cs)"

definition log_ok :: "('ty, 'm) TopicEntry \<Rightarrow> bool" where
  "log_ok e \<longleftrightarrow> published e = of_nat (length (pub_log e)) \<and>
     (\<forall>k < length (pub_log e). seq (pub_log e ! k) = of_nat (Suc k) \<and> made_as (pub_log e ! k) = entry_type e) \<and>
     mset (entry_latched e) \<subseteq># mset (pub_log e)"

definition sound :: "('ty, 'm) bus_sys \<Rightarrow> bool" where
  "sound s \<longleftrightarrow> wired (bus s) \<and>
     (\<forall>t e. map_of (topics (bus s)) t = Some e \<longrightarrow> log_ok e) \<and>
     (\<forall>sid x. sub_objs (bus s) sid = Some x \<longrightarrow>
        (\<exists>e. map_of (topics (bus s)) (sub_topic x) = Some e \<and> entry_type e = sub_type x \<and>
             mset (arrived x) + owed (calls s) sid \<subseteq># mset (pub_log e))) \<and>
     (\<forall>sid. sub_objs (bus s) sid = None \<longrightarrow> owed (calls s) sid = {#})"

lemma owed_update: "i < length cs \<Longrightarrow> owed (cs[i := c]) sid + owed_by sid (cs ! i) = owed cs sid + owed_by sid c"
  unfolding owed_def by (rule sum_list_replace)

lemma mset_exchange:
  fixes a :: "'a multiset"
  assumes "a + b = c + d" and "d + e \<subseteq># b"
  shows "a + e \<subseteq># c"
proof (rule mset_subset_eqI)
  fix x
  have "count a x + count b x = count c x + count d x" using arg_cong [OF assms(1), of "\<lambda>m. count m x"] by simp
  moreover have "count d x + count e x \<le> count b x" using mset_subset_eq_count [OF assms(2), of x] by simp
  ultimately show "count (a + e) x \<le> count c x" by simp
qed

lemma owed_advance:
  assumes "calls_advance sid E cs cs'"
  shows "owed cs' k + (if k = sid then mset E else {#}) \<subseteq># owed cs k"
proof (cases "cs' = cs \<and> E = []")
  case False
  then obtain i c where i: "i < length cs" "cs' = cs[i := c]" "advances sid E (cs ! i) c"
    using assms by (auto simp: calls_advance_def)
  have "owed_by k c + (if k = sid then mset E else {#}) \<subseteq># owed_by k (cs ! i)"
    using i(3) by (auto simp: advances_def owed_by_def)
  then show ?thesis using mset_exchange [OF owed_update [OF i(1), of c k]] i(2) by simp
qed simp

lemma owed_publishing:
  "distinct ts \<Longrightarrow> owed_by sid (Publishing env tg ts k) = (if sid \<in> set ts then {#env#} else {#})"
  by (induction ts) (auto simp: owed_by_def)

lemma owed_subscribing: "owed_by k (Subscribing sid bl) = (if k = sid then mset bl else {#})"
  by (simp add: owed_by_def filter_map comp_def)

lemma owed_idle [simp]: "owed_by sid Idle_call = {#}"
  by (simp add: owed_by_def)

lemma match_subs_targets: "match_subs pq sids objs = (objs', ms, ts, n) \<Longrightarrow> subseq ts sids"
proof (induction sids arbitrary: objs objs' ms ts n)
  case (Cons a sids)
  then show ?case
    by (auto simp: Let_def split: option.splits if_splits prod.splits)
qed simp

lemma soundD:
  assumes "sound s"
  shows "wired (bus s)" and "map_of (topics (bus s)) t = Some e \<Longrightarrow> log_ok e"
    and "sub_objs (bus s) sid = None \<Longrightarrow> owed (calls s) sid = {#}"
  using assms unfolding sound_def by blast+

lemma sound_sub:
  assumes "sound s" and "sub_objs (bus s) sid = Some x"
  obtains e where "map_of (topics (bus s)) (sub_topic x) = Some e" "entry_type e = sub_type x"
    "mset (arrived x) + owed (calls s) sid \<subseteq># mset (pub_log e)"
  using assms unfolding sound_def by blast

text \<open>Steps that leave the logs alone keep soundness if subscribers gain at most what they are owed.\<close>

lemma sound_keep:
  assumes s: "sound s" and step: "bus_step s s'"
    and logs: "\<And>t e. map_of (topics (bus s)) t = Some e \<Longrightarrow>
      \<exists>e'. map_of (topics (bus s')) t = Some e' \<and> pub_log e' = pub_log e \<and> entry_type e' = entry_type e"
    and entries: "\<And>t e. map_of (topics (bus s')) t = Some e \<Longrightarrow> log_ok e"
    and subs: "\<And>sid x'. sub_objs (bus s') sid = Some x' \<Longrightarrow> \<exists>x. sub_objs (bus s) sid = Some x \<and>
      sub_topic x' = sub_topic x \<and> sub_type x' = sub_type x \<and>
      mset (arrived x') + owed (calls s') sid \<subseteq># mset (arrived x) + owed (calls s) sid"
    and none: "\<And>sid. sub_objs (bus s') sid = None \<Longrightarrow> owed (calls s') sid \<subseteq># owed (calls s) sid"
  shows "sound s'"
  unfolding sound_def
proof (intro conjI allI impI)
  show "wired (bus s')" using soundD(1) [OF s] step by (rule wired_step)
  show "log_ok e" if "map_of (topics (bus s')) t = Some e" for t e using that by (rule entries)
  show "owed (calls s') sid = {#}" if "sub_objs (bus s') sid = None" for sid
  proof -
    have "sub_objs (bus s) sid = None"
      using bus_step_keeps_subs [OF step] that unfolding keeps_subs_def by (metis option.exhaust option.distinct(1))
    then have "owed (calls s) sid = {#}" by (rule soundD(3) [OF s])
    then show ?thesis using none [OF that] by simp
  qed
  show "\<exists>e. map_of (topics (bus s')) (sub_topic x') = Some e \<and> entry_type e = sub_type x' \<and>
      mset (arrived x') + owed (calls s') sid \<subseteq># mset (pub_log e)" if x': "sub_objs (bus s') sid = Some x'" for sid x'
  proof -
    from subs [OF x'] obtain x where x: "sub_objs (bus s) sid = Some x" "sub_topic x' = sub_topic x"
      "sub_type x' = sub_type x" "mset (arrived x') + owed (calls s') sid \<subseteq># mset (arrived x) + owed (calls s) sid" by blast
    obtain e where e: "map_of (topics (bus s)) (sub_topic x) = Some e" "entry_type e = sub_type x"
      "mset (arrived x) + owed (calls s) sid \<subseteq># mset (pub_log e)" using sound_sub [OF s x(1)] .
    obtain e' where "map_of (topics (bus s')) (sub_topic x) = Some e'" "pub_log e' = pub_log e" "entry_type e' = entry_type e"
      using logs [OF e(1)] by blast
    moreover have "mset (arrived x') + owed (calls s') sid \<subseteq># mset (pub_log e)"
      using x(4) e(3) by (rule subset_mset.order_trans)
    ultimately show ?thesis using x(2,3) e(2) by simp
  qed
qed

lemma log_ok_publish:
  assumes "log_ok e" and "entry_type e' = entry_type e" "published e' = published e + 1" "pub_log e' = pub_log e @ [env]"
    and "seq env = published e + 1" "made_as env = entry_type e"
    and "entry_latched e' = (if latch then trim d (entry_latched e @ [env]) else entry_latched e)"
  shows "log_ok e'"
  unfolding log_ok_def
proof (intro conjI allI impI)
  show "published e' = of_nat (length (pub_log e'))" using assms(1,3,4) by (simp add: log_ok_def)
  fix k assume "k < length (pub_log e')"
  then show "seq (pub_log e' ! k) = of_nat (Suc k)" "made_as (pub_log e' ! k) = entry_type e'"
    using assms(1,2,4-6) by (auto simp: log_ok_def nth_append less_Suc_eq)
next
  have l: "mset (entry_latched e @ [env]) \<subseteq># mset (pub_log e')" using assms(1,4) by (simp add: log_ok_def)
  have "mset (trim d (entry_latched e @ [env])) \<subseteq># mset (entry_latched e @ [env])"
    unfolding trim_eq by (rule subseq_mset) (rule suffix_imp_subseq [OF suffix_drop])
  then have "mset (entry_latched e') \<subseteq># mset (entry_latched e @ [env])" using assms(7) by simp
  then show "mset (entry_latched e') \<subseteq># mset (pub_log e')" using l by (rule subset_mset.order_trans)
qed

lemma sound_publish:
  assumes s: "sound s" and p: "publish_locked topic ty pq msg now (bus s) = (b, Some (env, ts, ms))" and step: "bus_step s s'"
    and i: "call_at s i Idle_call" and s': "bus s' = report topic ms b" "calls s' = (calls s)[i := Publishing env ts ts True]"
  shows "sound s'"
  using p
proof (cases rule: publish_locked_cases)
  case (Published e e' env' _ _ n)
  then have P: "env' = env" "match_subs pq (entry_subs e) (sub_objs (bus s)) = (sub_objs b, ms, ts, n)" by simp_all
  note e' = Published(4-10) [unfolded P(1)]
  have top: "map_of (topics (bus s')) = (map_of (topics (bus s)))(topic \<mapsto> e')" and objs: "sub_objs (bus s') = sub_objs b"
    using Published(11) s'(1) by (simp_all add: frame_simps)
  have sub: "subseq ts (entry_subs e)" using P(2) by (rule match_subs_targets)
  have w: "distinct (entry_subs e)"
    "\<forall>sid\<in>set (entry_subs e). \<exists>x. sub_objs (bus s) sid = Some x \<and> sub_type x = entry_type e \<and> sub_topic x = topic"
    using soundD(1) [OF s] Published(1) unfolding wired_def by blast+
  have ts: "sub_objs (bus s) sid = Some x \<Longrightarrow> sub_topic x = topic" "sub_objs (bus s) sid \<noteq> None" if "sid \<in> set ts" for sid x
    using w(2) subseq_set [OF sub] that by fastforce+
  have owed: "owed (calls s') k = owed (calls s) k + (if k \<in> set ts then {#env#} else {#})" for k
    using owed_update [of i "calls s" "Publishing env ts ts True" k] i s'(2)
    by (simp add: call_at_def owed_publishing [OF subseq_distinct [OF sub w(1)]])
  have log: "log_ok e'"
    using soundD(2) [OF s Published(1)] Published(2) e' by (intro log_ok_publish [of e e' env "durability pq = TransientLocal" "depth pq"]) simp_all
  have one: "\<exists>e. map_of (topics (bus s')) (sub_topic x') = Some e \<and> entry_type e = sub_type x' \<and>
      mset (arrived x') + owed (calls s') sid \<subseteq># mset (pub_log e)" if x': "sub_objs (bus s') sid = Some x'" for sid x'
  proof -
    obtain x where x: "sub_objs (bus s) sid = Some x" "requalified x x'" using publish_locked_subs [OF p x' [unfolded objs]] .
    obtain d where d: "map_of (topics (bus s)) (sub_topic x) = Some d" "entry_type d = sub_type x"
      "mset (arrived x) + owed (calls s) sid \<subseteq># mset (pub_log d)" using sound_sub [OF s x(1)] .
    show ?thesis
    proof (cases "sub_topic x = topic")
      case True
      then have "d = e" using d(1) Published(1) by simp
      have "(mset (arrived x) + owed (calls s) sid) + (if sid \<in> set ts then {#env#} else {#}) \<subseteq># mset (pub_log d) + {#env#}"
        by (rule subset_mset.add_mono [OF d(3)]) simp
      moreover have "mset (pub_log e') = mset (pub_log d) + {#env#}" using e'(6) \<open>d = e\<close> by simp
      ultimately have "mset (arrived x) + owed (calls s') sid \<subseteq># mset (pub_log e')" by (simp only: owed add.assoc)
      then show ?thesis using True Published(2) d(2) \<open>d = e\<close> e'(3) by (simp add: top requalified_fields [OF x(2)])
    next
      case False
      then have "sid \<notin> set ts" using ts(1) x(1) by blast
      then show ?thesis using False d by (simp add: top owed requalified_fields [OF x(2)])
    qed
  qed
  have none: "owed (calls s') sid = {#}" if "sub_objs (bus s') sid = None" for sid
  proof -
    have "sub_objs (bus s) sid = None" using publish_locked_dom [OF p] that objs by (metis option.exhaust option.distinct(1))
    then show ?thesis using ts(2) [of sid] soundD(3) [OF s, of sid] by (auto simp: owed)
  qed
  show ?thesis unfolding sound_def
    using wired_step [OF soundD(1) [OF s] step] soundD(2) [OF s] log one none by (auto simp: top split: if_splits)
qed simp_all

lemma sound_subscribe:
  assumes s: "sound s" and step: "bus_step s s'" and p: "subscribe_locked sid topic ty q (bus s) = (b, Some bl)"
    and new: "sub_objs (bus s) sid = None"
    and i: "call_at s i Idle_call" and s': "bus s' = b" "calls s' = (calls s)[i := Subscribing sid bl]"
  shows "sound s'"
proof -
  from p obtain e where e: "map_of (topics (bus s)) topic = Some e \<or> map_of (topics (bus s)) topic = None \<and> e = new_entry ty"
    "entry_type e = ty" "map_of (topics b) = (map_of (topics (bus s)))(topic \<mapsto> e\<lparr>entry_subs := entry_subs e @ [sid]\<rparr>)"
    "sub_objs b = (sub_objs (bus s))(sid \<mapsto> new_subscription topic ty q)" "bl = entry_latched e \<or> bl = []"
    by (rule subscribe_locked_ok)
  have log: "log_ok e" using e(1) soundD(2) [OF s] by (auto simp: log_ok_def new_entry_def)
  have owed: "owed (calls s') k = owed (calls s) k + (if k = sid then mset bl else {#})" for k
    using owed_update [of i "calls s" "Subscribing sid bl" k] i s'(2) by (simp add: call_at_def owed_subscribing)
  have "\<exists>e. map_of (topics (bus s')) (sub_topic x) = Some e \<and> entry_type e = sub_type x \<and>
      mset (arrived x) + owed (calls s') k \<subseteq># mset (pub_log e)" if x: "sub_objs (bus s') k = Some x" for k x
  proof (cases "k = sid")
    case True
    then have "x = new_subscription topic ty q" using x by (simp add: s' e(4))
    moreover have "mset bl \<subseteq># mset (pub_log e)" using e(5) log by (auto simp: log_ok_def)
    ultimately show ?thesis using True soundD(3) [OF s new] e(2) by (simp add: s'(1) e(3) owed new_subscription_def)
  next
    case False
    then have "sub_objs (bus s) k = Some x" using x by (simp add: s' e(4))
    then obtain d where "map_of (topics (bus s)) (sub_topic x) = Some d" "entry_type d = sub_type x"
      "mset (arrived x) + owed (calls s) k \<subseteq># mset (pub_log d)" by (rule sound_sub [OF s])
    then show ?thesis using False e(1) by (cases "sub_topic x = topic") (auto simp: s'(1) e(3) owed)
  qed
  moreover have "log_ok d" if "map_of (topics (bus s')) t = Some d" for t d
    using that soundD(2) [OF s] log by (auto simp: s'(1) e(3) log_ok_def split: if_splits)
  moreover have "owed (calls s') k = {#}" if "sub_objs (bus s') k = None" for k
    using that soundD(3) [OF s] by (auto simp: s'(1) e(4) owed split: if_splits)
  ultimately show ?thesis using wired_step [OF soundD(1) [OF s] step] unfolding sound_def by blast
qed

lemma sound_step:
  assumes s: "sound s" and step: "bus_step s s'"
  shows "sound s'"
  using step
proof (cases rule: bus_step_effect)
  case (Sub sid x x' E)
  show ?thesis
  proof (rule sound_keep [OF s step])
    show "\<exists>e'. map_of (topics (bus s')) t = Some e' \<and> pub_log e' = pub_log e \<and> entry_type e' = entry_type e"
      if "map_of (topics (bus s)) t = Some e" for t e using that by (simp add: Sub(3) frame_simps)
    show "log_ok e" if "map_of (topics (bus s')) t = Some e" for t e
      using that soundD(2) [OF s] by (simp add: Sub(3) frame_simps)
    show "owed (calls s') k \<subseteq># owed (calls s) k" for k
      using owed_advance [OF Sub(4), of k] by (meson mset_subset_eq_add_left subset_mset.order_trans)
    show "\<exists>y. sub_objs (bus s) k = Some y \<and> sub_topic y' = sub_topic y \<and> sub_type y' = sub_type y \<and>
        mset (arrived y') + owed (calls s') k \<subseteq># mset (arrived y) + owed (calls s) k"
      if "sub_objs (bus s') k = Some y'" for k y'
      using that owed_advance [OF Sub(4), of k] Sub(1-3)
      by (auto simp: frame_simps moved_def add.assoc add.commute split: if_splits)
  qed
next
  case (Start i sid x)
  have "owed (calls s') k = owed (calls s) k" for k
    using owed_update [of i "calls s" Idle_call k] Start(1,4) by (simp add: call_at_def owed_subscribing split: if_splits)
  then show ?thesis using Start(2,3) soundD(2) [OF s]
    by (intro sound_keep [OF s step]) (auto simp: frame_simps start_worker_def split: if_splits)
next
  case Publish
  then show ?thesis using sound_publish [OF s _ step] by blast
next
  case Subscribe
  then show ?thesis using sound_subscribe [OF s step] by blast
next
  case Other
  have objs: "sub_objs (bus s') = sub_objs (bus s)" using Other(1) by (simp add: topics_narrow_def)
  have owed: "owed (calls s') k \<subseteq># owed (calls s) k" for k using owed_advance [OF Other(2), of k] by (simp split: if_splits)
  show ?thesis
  proof (rule sound_keep [OF s step])
    show "\<exists>e'. map_of (topics (bus s')) t = Some e' \<and> pub_log e' = pub_log e \<and> entry_type e' = entry_type e"
      if "map_of (topics (bus s)) t = Some e" for t e
    proof -
      note n = Other(1) [unfolded topics_narrow_def, THEN conjunct2, THEN spec, of t]
      show ?thesis using n that by (cases "map_of (topics (bus s')) t") (simp_all add: narrowed_def)
    qed
    show "log_ok e'" if "map_of (topics (bus s')) t = Some e'" for t e'
      using Other(1) that
    proof (cases rule: topics_narrow_entry)
      case (Old e)
      then show ?thesis using soundD(2) [OF s Old(1)] subset_mset.order_trans [OF subseq_mset]
        by (auto simp: log_ok_def narrowed_def)
    qed (simp add: log_ok_def new_entry_def)
    show "owed (calls s') k \<subseteq># owed (calls s) k" for k by (rule owed)
    show "\<exists>y. sub_objs (bus s) k = Some y \<and> sub_topic y' = sub_topic y \<and> sub_type y' = sub_type y \<and>
        mset (arrived y') + owed (calls s') k \<subseteq># mset (arrived y) + owed (calls s) k"
      if "sub_objs (bus s') k = Some y'" for k y'
      using that owed [of k] by (simp add: objs)
  qed
qed

lemma sound_init: "bus_init n s \<Longrightarrow> sound s"
proof -
  have idle: "owed (replicate n Idle_call) sid = {#}" for sid by (induction n) (simp_all add: owed_def)
  show "bus_init n s \<Longrightarrow> sound s" by (simp add: bus_init_def sound_def wired_def new_bus_def idle)
qed

interpretation bus_sound: inductive_invariant "bus_init n" bus_step sound for n
  by unfold_locales (use sound_init sound_step in blast)+

lemma processed_subseq: "sub_ok x \<Longrightarrow> subseq (lefts (processed x)) (arrived x)"
proof -
  assume k: "sub_ok x"
  have "subseq (lefts (processed x)) (map untag (processed x))" by (rule lefts_subseq)
  also have "subseq (map untag (processed x)) (lefts (departed x))" using k by (simp add: sub_ok_def subseq_rev_drop_many)
  also have "subseq (lefts (departed x)) (map untag (departed x))" by (rule lefts_subseq)
  also have "subseq (map untag (departed x)) (arrived x)" using k by (simp add: sub_ok_def subseq_rev_drop_many)
  finally show ?thesis .
qed

lemma reach_sub_ok: "bus_reach n s \<Longrightarrow> sub_objs (bus s) sid = Some x \<Longrightarrow> sub_ok x"
  using bus_subs.reachable_inv [of n s] by (simp add: starting_def subs_ok_def)

lemma reach_published:
  assumes "bus_reach n s" and "sub_objs (bus s) sid = Some x"
  obtains e where "map_of (topics (bus s)) (sub_topic x) = Some e" "entry_type e = sub_type x" "log_ok e"
    "mset (lefts (processed x)) \<subseteq># mset (pub_log e)"
proof -
  have s: "sound s" using assms(1) by (rule bus_sound.reachable_inv)
  then obtain e where e: "map_of (topics (bus s)) (sub_topic x) = Some e" "entry_type e = sub_type x"
    "mset (arrived x) + owed (calls s) sid \<subseteq># mset (pub_log e)" using assms(2) by (rule sound_sub)
  have "mset (lefts (processed x)) \<subseteq># mset (arrived x)"
    using processed_subseq [OF reach_sub_ok [OF assms]] by (rule subseq_mset)
  also have "\<dots> \<subseteq># mset (pub_log e)" using e(3) by (meson mset_subset_eq_add_left subset_mset.order_trans)
  finally show ?thesis using that [OF e(1,2) soundD(2) [OF s e(1)]] by blast
qed

section \<open>A late joiner can see history after news\<close>

text \<open>
  One thread publishes two latched messages, another one subscribes in between. The second message is
  pushed after the subscriber was listed and before its history is replayed.
\<close>

definition late_join :: "(nat, nat) action list" where
  "late_join =
     [Do_advertise 1 ''map'' 0 (latched 5), Do_publish 1 0 ''map'' 0 (latched 5) 41, Do_continue 1,
      Do_subscribe 0 7 ''map'' 0 (latched 5),
      Do_publish 1 0 ''map'' 0 (latched 5) 42, Do_continue 1, Do_continue 1,
      Do_continue 0, Do_continue 0, Do_take 7, Do_deliver 7, Do_return 7,
      Do_take 7, Do_deliver 7, Do_return 7]"

definition after_late_join :: "(nat, nat) bus_sys" where
  "after_late_join = the (run late_join (idle_bus 2))"

definition late_joiner :: "(nat, nat) Subscription" where
  "late_joiner = the (sub_objs (bus after_late_join) 7)"

lemma late_join_reach: "bus_reach 2 after_late_join"
  unfolding after_late_join_def by (rule run_reach, rule runs) code_simp

lemma late_joiner_there: "sub_objs (bus after_late_join) 7 = Some late_joiner"
  unfolding late_joiner_def by (rule runs) code_simp

text \<open>
  The replay of history comes after the subscriber was listed and outside the lock: a
  subscriber that joins while another thread publishes can be called with message 2 before message 1.
\<close>

theorem late_joiner_out_of_order:
  "\<exists>s x. bus_reach 2 s \<and> sub_objs (bus s) 7 = Some (x :: (nat, nat) Subscription) \<and>
     map seq (lefts (processed x)) = [2, 1] \<and> map payload (lefts (processed x)) = [42, 41]"
proof (intro exI conjI)
  show "map seq (lefts (processed late_joiner)) = [2, 1]" by code_simp
  show "map payload (lefts (processed late_joiner)) = [42, 41]" by code_simp
qed (rule late_join_reach late_joiner_there)+

section \<open>Type safety and at-most-once delivery\<close>

text \<open>
  C7: a callback is only ever called with a payload of the type it was registered for, whatever
  calls interleave: the erased pointer that \<^verbatim>\<open>subscribe\<close> casts back to \<^verbatim>\<open>const T\<close> was published as a \<^verbatim>\<open>T\<close>.
\<close>

theorem callback_type_safe:
  assumes "bus_reach n s" and "sub_objs (bus s) sid = Some x" and "env \<in> set (lefts (processed x))"
  shows "made_as env = sub_type x"
proof -
  obtain e where e: "entry_type e = sub_type x" "log_ok e" "mset (lefts (processed x)) \<subseteq># mset (pub_log e)"
    using assms(1,2) by (rule reach_published)
  then have "env \<in> set (pub_log e)" using assms(3) by (metis mset_subset_eqD set_mset_mset)
  then show ?thesis using e(1,2) by (auto simp: log_ok_def in_set_conv_nth)
qed

theorem callback_type_safe_witness:
  "made_as (hd (lefts (processed late_joiner))) = sub_type late_joiner"
proof (rule callback_type_safe [OF late_join_reach late_joiner_there])
  have "lefts (processed late_joiner) \<noteq> []" by code_simp
  then show "hd (lefts (processed late_joiner)) \<in> set (lefts (processed late_joiner))" by simp
qed

text \<open>
  C8: whatever calls interleave, the callback of a subscription only sees messages published on its
  topic, each publication at most once, and the sequence number of a message is its place among the
  publications of the topic, modulo the counter's width; the topic's counter counts them.
\<close>

theorem delivered_at_most_once:
  assumes "bus_reach n s" and "sub_objs (bus s) sid = Some x"
  shows "\<exists>e. map_of (topics (bus s)) (sub_topic x) = Some e \<and>
    mset (lefts (processed x)) \<subseteq># mset (pub_log e) \<and>
    (\<forall>k < length (pub_log e). seq (pub_log e ! k) = of_nat (Suc k)) \<and>
    published_count (sub_topic x) (bus s) = of_nat (length (pub_log e))"
  using reach_published [OF assms] by (force simp: published_count_def log_ok_def)

theorem delivered_at_most_once_witness:
  "\<exists>e. map_of (topics (bus after_late_join)) (sub_topic late_joiner) = Some e \<and>
    mset (lefts (processed late_joiner)) \<subseteq># mset (pub_log e)"
  using delivered_at_most_once [OF late_join_reach late_joiner_there] by blast

section \<open>Accounting\<close>

text \<open>
  C17: in every reachable state the books of every subscription balance. What its queue accepted is, in
  order, what was popped or evicted followed by what is queued; what the worker popped is, in order, what
  was passed on or had expired, and at most one message in the worker's hands; the callback saw a
  subsequence of what was accepted; and the counters \<^verbatim>\<open>stats\<close> reports count evictions, calls of the callback that have
  returned and expiries, modulo the width of the counters.
\<close>

theorem subscriber_books_balance:
  assumes "bus_reach n s" and "sub_objs (bus s) sid = Some x"
  shows "arrived x = map untag (departed x) @ items (sub_queue x) \<and>
    lefts (departed x) = map untag (processed x) @ held (sub_worker_at x) \<and>
    subseq (lefts (processed x)) (arrived x) \<and>
    length (items (sub_queue x)) \<le> capacity (sub_queue x) \<and>
    st_dropped (stats (Some x)) = of_nat (length (rights (departed x))) \<and>
    st_delivered (stats (Some x)) + of_nat (length (calling (sub_worker_at x))) = of_nat (length (lefts (processed x))) \<and>
    st_expired (stats (Some x)) = of_nat (length (rights (processed x))) \<and>
    st_dropped (stats (Some x)) + st_delivered (stats (Some x)) + st_expired (stats (Some x)) +
      of_nat (length (calling (sub_worker_at x)) + length (held (sub_worker_at x)) + length (items (sub_queue x))) =
      of_nat (length (arrived x))"
proof -
  have k: "sub_ok x" using assms by (rule reach_sub_ok)
  have "length (arrived x) = length (rights (departed x)) + length (lefts (processed x)) + length (rights (processed x)) +
      (length (held (sub_worker_at x)) + length (items (sub_queue x)))"
    using k length_untag [of "departed x"] length_untag [of "processed x"] by (simp add: sub_ok_def)
  moreover have "delivered_n x + of_nat (length (calling (sub_worker_at x))) = of_nat (length (lefts (processed x)))"
    using k by (simp add: sub_ok_def)
  ultimately show ?thesis using k processed_subseq [OF k]
    by (simp add: sub_ok_def stats_def queue_inv_def algebra_simps)
qed

theorem subscriber_books_balance_witness:
  "st_delivered (stats (Some late_joiner)) + of_nat (length (calling (sub_worker_at late_joiner))) =
     of_nat (length (lefts (processed late_joiner)))"
  using subscriber_books_balance [OF late_join_reach late_joiner_there] by blast

section \<open>What a publication's result means\<close>

definition got :: "('ty, 'm) TopicBus \<Rightarrow> ('ty, 'm) Envelope \<Rightarrow> nat \<Rightarrow> bool" where
  "got b env sid \<longleftrightarrow> (\<exists>x. sub_objs b sid = Some x \<and> env \<in> set (arrived x))"

fun kept :: "('ty, 'm) TopicBus \<Rightarrow> ('ty, 'm) call \<Rightarrow> bool" where
  "kept b (Publishing env tg ts ok) = (\<exists>ds. tg = ds @ ts \<and> (ok \<longrightarrow> (\<forall>sid\<in>set ds. got b env sid)))"
| "kept b (Push_waiting env tg sid ts ok dl) = (\<exists>ds. tg = ds @ sid # ts \<and> (ok \<longrightarrow> (\<forall>sid\<in>set ds. got b env sid)))"
| "kept b _ = True"

definition promised :: "('ty, 'm) bus_sys \<Rightarrow> bool" where
  "promised s \<longleftrightarrow> (\<forall>c\<in>set (calls s). kept (bus s) c) \<and>
     (\<forall>(env, tg, ok)\<in>set (returned s). ok \<longrightarrow> (\<forall>sid\<in>set tg. got (bus s) env sid))"

lemma promised_call: "promised s \<Longrightarrow> call_at s i c \<Longrightarrow> kept (bus s) c"
  unfolding promised_def call_at_def using nth_mem by blast

lemma got_step:
  assumes "bus_step s s'" and "got (bus s) env sid"
  shows "got (bus s') env sid"
proof -
  obtain y where y: "sub_objs (bus s) sid = Some y" "env \<in> set (arrived y)" using assms(2) by (auto simp: got_def)
  from assms(1) show ?thesis
  proof (cases rule: bus_step_effect)
    case (Sub k x x' E)
    then show ?thesis using y by (auto simp: got_def frame_simps moved_def)
  next
    case (Start i k x)
    then show ?thesis using y by (auto simp: got_def frame_simps start_worker_def)
  next
    case (Publish i topic ty pq msg now b env' ts ms)
    then obtain x' where x': "sub_objs b sid = Some x'" using publish_locked_dom [OF Publish(2) y(1)] by blast
    obtain x where "sub_objs (bus s) sid = Some x" "requalified x x'" using publish_locked_subs [OF Publish(2) x'] .
    then show ?thesis using y x' Publish(3) by (simp add: got_def frame_simps requalified_fields)
  next
    case (Subscribe i k topic ty q b bl)
    then show ?thesis using y subscribe_locked_subs [OF Subscribe(3)] by (auto simp: got_def)
  next
    case Other
    then show ?thesis using y by (simp add: got_def topics_narrow_def)
  qed
qed

lemma kept_mono: "kept b c \<Longrightarrow> (\<And>env sid. got b env sid \<Longrightarrow> got b' env sid) \<Longrightarrow> kept b' c"
  by (cases c) fastforce+

lemma promised_keep:
  assumes p: "promised s" and step: "bus_step s s'"
    and new: "\<And>c. c \<in> set (calls s') \<Longrightarrow> c \<notin> set (calls s) \<Longrightarrow> kept (bus s') c"
    and ret: "returned s' = returned s"
  shows "promised s'"
  unfolding promised_def
proof (intro conjI ballI)
  note mono = got_step [OF step]
  show "kept (bus s') c" if "c \<in> set (calls s')" for c
    using that new [of c] p kept_mono [of "bus s" c "bus s'", OF _ mono] by (cases "c \<in> set (calls s)") (auto simp: promised_def)
  show "case r of (env, tg, ok) \<Rightarrow> ok \<longrightarrow> (\<forall>sid\<in>set tg. got (bus s') env sid)" if "r \<in> set (returned s')" for r
    using that p mono unfolding ret promised_def by fastforce
qed

text \<open>The call after a push to one target: if that was accepted, the target has the message.\<close>

lemma kept_after_target:
  assumes "tg = ds @ sid # ts" and "k \<longrightarrow> (\<forall>sid\<in>set ds. got b env sid)"
    and "oc = Return Ok \<or> oc = Return DroppedOldest \<Longrightarrow> got b env sid"
  shows "kept b (after_target env tg sid ts k dl oc)"
proof (cases oc)
  case (Return st)
  have "kept b (Publishing env tg ts (k \<and> accepted_status st))"
    using assms Return by (auto simp: accepted_status_def intro!: exI [of _ "ds @ [sid]"])
  then show ?thesis using Return by simp
qed (use assms(1,2) in auto)

lemma promised_push:
  assumes "promised s" and "bus_step s s'" and "s' = go i (after_target env tg sid ts k dl oc) b s" and "call_at s i c"
    and c: "c = Publishing env tg (sid # ts) k \<or> (\<exists>dl. c = Push_waiting env tg sid ts k dl)"
    and b: "sub_objs b sid = Some (sub_pushed env (ev, q, oc, sg) x)"
  shows "promised s'"
proof (rule promised_keep [OF assms(1,2)])
  have "kept (bus s) c" using assms(1,4) by (rule promised_call)
  then obtain ds where ds: "tg = ds @ sid # ts" "k \<longrightarrow> (\<forall>sid\<in>set ds. got (bus s) env sid)" using c by auto
  have "kept b (after_target env tg sid ts k dl oc)"
  proof (rule kept_after_target [OF ds(1)])
    show "k \<longrightarrow> (\<forall>sid\<in>set ds. got b env sid)" using ds(2) got_step [OF assms(2)] by (auto simp: assms(3))
    show "oc = Return Ok \<or> oc = Return DroppedOldest \<Longrightarrow> got b env sid" using b by (auto simp: got_def frame_simps)
  qed
  then show "kept (bus s') d" if "d \<in> set (calls s')" "d \<notin> set (calls s)" for d
    using that assms(3) by (auto dest!: set_update_subset_insert [THEN subsetD])
  show "returned s' = returned s" by (simp add: assms(3) go_def)
qed

lemma promised_step:
  assumes p: "promised s" and step: "bus_step s s'"
  shows "promised s'"
  using step
proof cases
  case (publish_push i env tg sid ts k x ev q oc sg)
  show ?thesis by (rule promised_push [OF p step publish_push(1,2)]) (simp_all add: frame_simps)
next
  case (publish_wake i env tg sid ts k dl x to q oc sg)
  show ?thesis by (rule promised_push [OF p step publish_wake(1,2)]) (simp_all add: frame_simps)
next
  case (publish_return i env tg k)
  have "kept (bus s) (Publishing env tg [] k)" using p publish_return(2) by (rule promised_call)
  then have "k \<longrightarrow> (\<forall>sid\<in>set tg. got (bus s) env sid)" by simp
  then show ?thesis using p set_update_subset_insert [of "calls s" i Idle_call] unfolding promised_def publish_return(1)
    by (auto simp: go_def)
qed (rule promised_keep [OF p step]; auto simp: go_def dest!: set_update_subset_insert [THEN subsetD])+

lemma promised_init: "bus_init n s \<Longrightarrow> promised s"
  by (simp add: bus_init_def promised_def)

interpretation bus_promises: inductive_invariant "bus_init n" bus_step promised for n
  by unfold_locales (use promised_init promised_step in blast)+

text \<open>
  C10: when a call of \<^verbatim>\<open>publish\<close> has returned true, the message has entered the queue of every subscriber that was listed on the
  topic when the call took the lock and whose request the publisher's QoS satisfies, whatever was published, unsubscribed or
  shut down between the lock and the return.
\<close>

theorem publish_true_reaches_all:
  assumes "bus_reach n s" and "exec (Do_publish i now topic ty pq msg) s = Some s'" and "call_at s' i (Publishing env tg ts True)"
    and "bus_step\<^sup>*\<^sup>* s' t" and "(env, tg, True) \<in> set (returned t)"
    and "map_of (topics (bus s)) topic = Some e" and "sid \<in> set (entry_subs e)"
    and "sub_objs (bus s) sid = Some x" and "check_compatible pq (sub_qos x) = NoMismatch"
  shows "\<exists>y. sub_objs (bus t) sid = Some y \<and> env \<in> set (arrived y)"
proof -
  obtain b ms where p: "publish_locked topic ty pq msg (of_int now) (bus s) = (b, Some (env, tg, ms))"
    using assms(2,3) by (auto simp: begin_call_Some call_at_def split: if_splits prod.split_asm option.split_asm)
  have w: "distinct (entry_subs e)" "\<forall>sid\<in>set (entry_subs e). sub_objs (bus s) sid \<noteq> None"
    using soundD(1) [OF bus_sound.reachable_inv [OF assms(1)]] assms(6) by (fastforce simp: wired_def)+
  have "tg = filter (\<lambda>x. mismatch_of pq (sub_objs (bus s)) x = NoMismatch) (entry_subs e)"
    using p by (cases rule: publish_locked_cases) (use assms(6) w in \<open>auto simp: match_subs_eq\<close>)
  then have "sid \<in> set tg" using assms(7-9) by simp
  moreover have "bus_reach n t"
    using assms(4) reachable.move [where step = bus_step, OF assms(1) exec_step [OF assms(2)]] by (rule reachable_trans)
  ultimately show ?thesis using bus_promises.reachable_inv assms(5) by (fastforce simp: promised_def got_def)
qed

definition before_news :: "(nat, nat) bus_sys" where
  "before_news = the (run (take 4 late_join) (idle_bus 2))"

definition news :: "(nat, nat) bus_sys" where
  "news = the (exec (late_join ! 4) before_news)"

theorem publish_true_reaches_all_witness:
  "\<exists>y. sub_objs (bus after_late_join) 7 = Some y \<and> fst (last (returned after_late_join)) \<in> set (arrived y)"
proof -
  let ?c = "calls news ! 1" let ?r = "last (returned after_late_join)"
  let ?e = "the (map_of (topics (bus before_news)) ''map'')" let ?x = "the (sub_objs (bus before_news) 7)"
  have r: "bus_reach 2 before_news" unfolding before_news_def by (rule run_reach, rule runs) code_simp
  have p: "exec (Do_publish 1 0 ''map'' 0 (latched 5) 42) before_news = Some news"
  proof -
    have "late_join ! 4 = Do_publish 1 0 ''map'' 0 (latched 5) 42" by (simp add: late_join_def)
    moreover have "exec (late_join ! 4) before_news = Some news" unfolding news_def by (rule runs) code_simp
    ultimately show ?thesis by simp
  qed
  have run: "bus_step\<^sup>*\<^sup>* news after_late_join"
  proof -
    have "run (take 4 late_join) (idle_bus 2) = Some before_news" unfolding before_news_def by (rule runs) code_simp
    moreover have "run late_join (idle_bus 2) = Some after_late_join" unfolding after_late_join_def by (rule runs) code_simp
    moreover have "late_join = take 4 late_join @ late_join ! 4 # drop 5 late_join" by (simp add: late_join_def)
    moreover have "exec (late_join ! 4) before_news = Some news" unfolding news_def by (rule runs) code_simp
    ultimately have "run (drop 5 late_join) news = Some after_late_join"
      by (metis bind.bind_lunit run.simps(2) run_append)
    then show ?thesis by (rule run_steps)
  qed
  have "?c = Publishing (fst ?r) (fst (snd ?r)) (fst (snd ?r)) True" "1 < length (calls news)" by code_simp+
  then have c: "call_at news 1 (Publishing (fst ?r) (fst (snd ?r)) (fst (snd ?r)) True)" by (simp add: call_at_def)
  have "returned after_late_join \<noteq> []" "snd (snd ?r)" by code_simp+
  then have ret: "(fst ?r, fst (snd ?r), True) \<in> set (returned after_late_join)" by (metis last_in_set prod.collapse)
  have e: "map_of (topics (bus before_news)) ''map'' = Some ?e" and x: "sub_objs (bus before_news) 7 = Some ?x" by (rule runs, code_simp)+
  have "7 \<in> set (entry_subs ?e)" "check_compatible (latched 5) (sub_qos ?x) = NoMismatch" by code_simp+
  then show ?thesis using publish_true_reaches_all [OF r p c run ret e _ x] by blast
qed

section \<open>Stopping a subscription\<close>

text \<open>
  C18: when \<^verbatim>\<open>unsubscribe\<close> or \<^verbatim>\<open>shutdown\<close> has joined the worker of a subscription, everything its queue ever
  accepted has been evicted, delivered or found expired: nothing is left behind.
\<close>

theorem stopped_sub_drained:
  assumes "bus_reach n s" and "sub_objs (bus s) sid = Some x" and "sub_worker_at x = Thread_joined"
  shows "closed (sub_queue x) \<and> arrived x = map untag (departed x) \<and> lefts (departed x) = map untag (processed x)"
  using reach_sub_ok [OF assms(1,2)] assms(3) by (simp add: sub_ok_def)

definition after_close :: "(nat, nat) bus_sys" where
  "after_close = the (run (late_join @ [Do_unsubscribe 0 7, Do_continue 0]) (idle_bus 2))"

definition after_join :: "(nat, nat) bus_sys" where
  "after_join = the (run [Do_take 7, Do_continue 0, Do_continue 0] after_close)"

lemma after_close_reach: "bus_reach 2 after_close"
  unfolding after_close_def by (rule run_reach, rule runs) code_simp

lemma after_join_run: "run [Do_take 7, Do_continue 0, Do_continue 0] after_close = Some after_join"
  unfolding after_join_def by (rule runs) code_simp

lemma after_join_reach: "bus_reach 2 after_join"
  using reachable_trans [OF run_steps [OF after_join_run] after_close_reach] .

theorem stopped_sub_drained_witness:
  "arrived (the (sub_objs (bus after_join) 7)) = map untag (departed (the (sub_objs (bus after_join) 7)))"
proof -
  have x: "sub_objs (bus after_join) 7 = Some (the (sub_objs (bus after_join) 7))" by (rule runs) code_simp
  have "sub_worker_at (the (sub_objs (bus after_join) 7)) = Thread_joined" by code_simp
  then show ?thesis using stopped_sub_drained [OF after_join_reach x] by blast
qed

lemma closed_step:
  assumes r: "starting s" and step: "bus_step s s'" and x: "sub_objs (bus s) sid = Some x" "closed (sub_queue x)"
  shows "\<exists>x'. sub_objs (bus s') sid = Some x' \<and> closed (sub_queue x') \<and> sub_work x' \<le> sub_work x"
  using step
proof (cases rule: bus_step_effect)
  case (Sub k y y' E)
  then show ?thesis using x by (auto simp: frame_simps moved_def)
next
  case (Start i k y)
  have "not_started (bus s) k"
    using r Start(1) starters_in [of i "calls s" k] unfolding starting_def call_at_def
    by (metis count_eq_zero_iff le_zero_eq subscribing.simps(1))
  then show ?thesis using Start(2,3) x by (auto simp: frame_simps start_worker_def sub_work_def not_started_def)
next
  case (Publish i topic ty pq msg now b env ts ms)
  then obtain x' where x': "sub_objs b sid = Some x'" using publish_locked_dom [OF Publish(2) x(1)] by blast
  obtain y where "sub_objs (bus s) sid = Some y" "requalified y x'" using publish_locked_subs [OF Publish(2) x'] .
  then show ?thesis using x x' Publish(3) by (auto simp: frame_simps requalified_def sub_work_def)
next
  case (Subscribe i k topic ty q b bl)
  then show ?thesis using x subscribe_locked_subs [OF Subscribe(3)] by auto
next
  case Other
  then show ?thesis using x by (simp add: topics_narrow_def)
qed

abbreviation worker_turn :: "nat \<Rightarrow> ('ty, 'm) action \<Rightarrow> bool" where
  "worker_turn sid a \<equiv> a = Do_take sid \<or> a = Do_deliver sid \<or> a = Do_return sid"

lemma worker_turn_work:
  assumes "worker_turn sid a" and "exec a s = Some s'" and "sub_objs (bus s) sid = Some x"
  shows "\<exists>x'. sub_objs (bus s') sid = Some x' \<and> sub_work x' < sub_work x"
proof -
  consider "a = Do_take sid" | "a = Do_deliver sid" | "a = Do_return sid" using assms(1) by blast
  then show ?thesis
  proof cases
    case 1
    then obtain x' where x': "worker_take x = Some x'" "sub_worker_at x = At_pop" "s' = s\<lparr>bus := set_sub sid x' (bus s)\<rparr>"
      using assms(2,3) by (auto simp: with_sub_def split: if_splits)
    from x'(1) have "sub_work x' < sub_work x"
      by (cases rule: worker_take_cases) (use x'(2) in \<open>auto simp: sub_work_def\<close>)
    then show ?thesis using x'(3) by (simp add: frame_simps)
  qed (use assms(2,3) in \<open>auto simp: with_sub_def frame_simps sub_work_def split: sub_worker.splits\<close>)
qed

lemma worker_turn_enabled:
  assumes "sub_objs (bus s) sid = Some x" and "closed (sub_queue x)" and "running (sub_worker_at x)"
  shows "\<exists>a. worker_turn sid a \<and> exec a s \<noteq> None"
proof (cases "sub_worker_at x")
  case At_pop
  have "worker_take x \<noteq> None"
    using assms(2) by (cases "items (sub_queue x)") (simp_all add: worker_take_def pop_def pop_until_def pop_front_def)
  then show ?thesis using At_pop assms(1) by (intro exI [of _ "Do_take sid"]) (simp add: with_sub_def)
next
  case (Holding env)
  then show ?thesis using assms(1) by (intro exI [of _ "Do_deliver sid"]) (simp add: with_sub_def)
next
  case (In_callback env)
  then show ?thesis using assms(1) by (intro exI [of _ "Do_return sid"]) (simp add: with_sub_def)
qed (use assms(3) in simp_all)

text \<open>
  Joining the worker of a closed subscription ends. Whatever other threads do, the worker takes at
  most \<open>sub_work\<close> more turns, three for each queued message and at most three besides, and until the join can
  return it always has a turn to take.
\<close>

theorem stop_join_bounded:
  assumes "bus_reach n s" and "sub_objs (bus s) sid = Some x" and "closed (sub_queue x)" and "run as s = Some s'"
  shows "length (filter (worker_turn sid) as) \<le> sub_work x \<and> sub_work x \<le> 3 * length (items (sub_queue x)) + 3 \<and>
    (\<exists>x'. sub_objs (bus s') sid = Some x' \<and> closed (sub_queue x') \<and>
       (running (sub_worker_at x') \<longrightarrow> (\<exists>a. worker_turn sid a \<and> exec a s' \<noteq> None)))"
proof -
  have "starting s" using assms(1) by (rule bus_subs.reachable_inv)
  from assms(4) this assms(2,3) have "\<exists>x'. sub_objs (bus s') sid = Some x' \<and> closed (sub_queue x') \<and>
    length (filter (worker_turn sid) as) + sub_work x' \<le> sub_work x"
  proof (induction as arbitrary: s x)
    case (Cons a as)
    obtain t where t: "exec a s = Some t" "run as t = Some s'" using Cons.prems(1) by (auto simp: bind_eq_Some_conv)
    have step: "bus_step s t" using t(1) by (rule exec_step)
    obtain y where y: "sub_objs (bus t) sid = Some y" "closed (sub_queue y)" "sub_work y \<le> sub_work x"
      using closed_step [OF Cons.prems(2) step Cons.prems(3,4)] by blast
    have "length (filter (worker_turn sid) [a]) + sub_work y \<le> sub_work x"
    proof (cases "worker_turn sid a")
      case True
      then show ?thesis using worker_turn_work [OF True t(1) Cons.prems(3)] y(1) by auto
    next
      case False
      then have "filter (worker_turn sid) [a] = []" by simp
      then show ?thesis using y(3) by simp
    qed
    moreover obtain x' where "sub_objs (bus s') sid = Some x'" "closed (sub_queue x')"
      "length (filter (worker_turn sid) as) + sub_work x' \<le> sub_work y"
      using Cons.IH [OF t(2) starting_step [OF Cons.prems(2) step] y(1,2)] by blast
    ultimately show ?case by (intro exI [of _ x']) (auto split: if_splits)
  qed simp
  then obtain x' where x': "sub_objs (bus s') sid = Some x'" "closed (sub_queue x')"
    "length (filter (worker_turn sid) as) + sub_work x' \<le> sub_work x" by blast
  have "sub_work x \<le> 3 * length (items (sub_queue x)) + 3" by (cases "sub_worker_at x") (simp_all add: sub_work_def)
  then show ?thesis using x' worker_turn_enabled [OF x'(1,2)] by auto
qed

theorem stop_join_bounded_witness:
  "\<exists>x'. sub_objs (bus after_join) 7 = Some x' \<and> closed (sub_queue x') \<and> \<not> running (sub_worker_at x')"
proof -
  have x: "sub_objs (bus after_close) 7 = Some (the (sub_objs (bus after_close) 7))" by (rule runs) code_simp
  have c: "closed (sub_queue (the (sub_objs (bus after_close) 7)))" by code_simp
  have "Option.is_none (exec (Do_take 7) after_join)" "Option.is_none (exec (Do_deliver 7) after_join)"
    "Option.is_none (exec (Do_return 7) after_join)" by code_simp+
  then show ?thesis using stop_join_bounded [OF after_close_reach x c after_join_run]
    by (auto simp: Option.is_none_def simp del: exec.simps)
qed

section \<open>Shutdown during a subscription\<close>

text \<open>
  \<^verbatim>\<open>shutdown\<close> takes a subscriber off the bus while the thread that subscribes has listed it and not yet
  started its worker. There is no thread to join; the worker is started afterwards, and nobody joins it.
\<close>

definition shutdown_race :: "(nat, nat) action list" where
  "shutdown_race = [Do_subscribe 0 7 ''map'' 0 (latched 5), Do_shutdown 1, Do_continue 1, Do_continue 1, Do_continue 1, Do_continue 0]"

theorem shutdown_leaves_worker:
  "\<exists>s x. bus_reach 2 s \<and> calls s = [Idle_call, Idle_call] \<and> all_subs (bus s) = [] \<and>
     sub_objs (bus s) 7 = Some (x :: (nat, nat) Subscription) \<and> sub_worker_at x = At_pop"
proof -
  let ?s = "the (run shutdown_race (idle_bus 2))"
  have "bus_reach 2 ?s" by (rule run_reach, rule runs) code_simp
  moreover have "calls ?s = [Idle_call, Idle_call]" "all_subs (bus ?s) = []" by code_simp+
  moreover have "sub_objs (bus ?s) 7 = Some (the (sub_objs (bus ?s) 7))" by (rule runs) code_simp
  moreover have "sub_worker_at (the (sub_objs (bus ?s) 7)) = At_pop" by code_simp
  ultimately show ?thesis by blast
qed

section \<open>A subscription stopped twice\<close>

text \<open>
  \<^verbatim>\<open>unsubscribe\<close> of a handle while \<^verbatim>\<open>shutdown\<close>, which has taken the same subscription off the bus, is stopping it: both find the worker joinable
  and both join it. At most one of the two joins can succeed.
\<close>

definition stopped_twice :: "(nat, nat) action list" where
  "stopped_twice = [Do_subscribe 0 7 ''map'' 0 (latched 5), Do_continue 0, Do_shutdown 1, Do_unsubscribe 0 7,
     Do_continue 1, Do_continue 0, Do_continue 1, Do_continue 0, Do_take 7, Do_continue 1, Do_continue 0]"

theorem second_join_fails:
  "\<exists>s. bus_reach 2 (s :: (nat, nat) bus_sys) \<and> calls s = [Join_failed Invalid_argument, Stopping []]"
proof -
  let ?s = "the (run stopped_twice (idle_bus 2))"
  have "bus_reach 2 ?s" by (rule run_reach, rule runs) code_simp
  moreover have "calls ?s = [Join_failed Invalid_argument, Stopping []]" by code_simp
  ultimately show ?thesis by blast
qed

section \<open>A mismatch reported to nobody\<close>

text \<open>
  A mismatch met before a handler is installed marks the subscriber as reported: a handler installed
  later never hears of it, although two publications were withheld.
\<close>

definition unheard :: "(nat, nat) action list" where
  "unheard = [Do_subscribe 0 7 ''imu'' 0 (command 5), Do_continue 0, Do_publish 1 0 ''imu'' 0 (sensor_data 5) 41, Do_continue 1,
     Do_handler True, Do_publish 1 0 ''imu'' 0 (sensor_data 5) 42, Do_continue 1]"

theorem late_handler_hears_nothing:
  "\<exists>s. bus_reach 2 (s :: (nat, nat) bus_sys) \<and> mismatch_handler (bus s) \<and> qos_mismatches (bus s) = 2 \<and> handler_calls (bus s) = []"
proof -
  let ?s = "the (run unheard (idle_bus 2))"
  have "bus_reach 2 ?s" by (rule run_reach, rule runs) code_simp
  moreover have "mismatch_handler (bus ?s)" "qos_mismatches (bus ?s) = 2" "handler_calls (bus ?s) = []" by code_simp+
  ultimately show ?thesis by blast
qed

section \<open>Waiting for idle queues\<close>

text \<open>
  \<^verbatim>\<open>wait_for_idle\<close> returns as soon as a round sees every queue empty or ends at or after the deadline, and
  the answer is what that round saw; before the deadline it never gives up.
\<close>

theorem wait_for_idle_decides:
  assumes "dl \<le> now" and "rs = rounds @ [(seen, now)]"
  shows "\<exists>k < length rs. wait_for_idle dl rs = Some (bus_idle (fst (rs ! k))) \<and>
    (bus_idle (fst (rs ! k)) \<or> dl \<le> snd (rs ! k)) \<and> (\<forall>j<k. \<not> bus_idle (fst (rs ! j)) \<and> snd (rs ! j) < dl)"
  unfolding assms(2)
proof (induction rounds)
  case Nil
  show ?case using assms(1) by simp
next
  case (Cons r rounds)
  let ?rs = "rounds @ [(seen, now)]"
  show ?case
  proof (cases "bus_idle (fst r) \<or> dl \<le> snd r")
    case True
    then show ?thesis by (intro exI [of _ 0]) (cases r, auto)
  next
    case False
    obtain k where "k < length ?rs" "wait_for_idle dl ?rs = Some (bus_idle (fst (?rs ! k)))"
      "bus_idle (fst (?rs ! k)) \<or> dl \<le> snd (?rs ! k)" "\<forall>j<k. \<not> bus_idle (fst (?rs ! j)) \<and> snd (?rs ! j) < dl"
      using Cons.IH by blast
    then show ?thesis using False by (intro exI [of _ "Suc k"]) (cases r, auto simp: less_Suc_eq_0_disj not_le)
  qed
qed

theorem wait_for_idle_decides_witness:
  "wait_for_idle 10 [(bus after_close, 9), (new_bus, 10)] = Some (bus_idle (bus after_close)) \<or>
   wait_for_idle 10 [(bus after_close, 9), (new_bus, 10)] = Some (bus_idle (new_bus :: (nat, nat) TopicBus))"
  using wait_for_idle_decides [of 10 10 _ "[(bus after_close, 9)]" new_bus] by (auto simp: less_Suc_eq)

end
