(* ===== verification/Bus_Order.thy ===== *)
theory Bus_Order
  imports Bus_Guarantees
begin

text \<open>
  The order in which a subscriber hears messages. Pushes to a subscriber are made outside the bus mutex, so two
  publications, or a publication and the replay of history, can overtake each other
  (\<open>late_joiner_out_of_order\<close>). As long as no two calls have pushes to a subscriber outstanding at the same time, it hears
  what it hears in the order of publication, history included.
\<close>

section \<open>Undisturbed subscribers\<close>

lemma subseq_same: "subseq ys zs \<Longrightarrow> subseq (xs @ ys) (xs @ zs)" "subseq ys zs \<Longrightarrow> subseq (ys @ xs) (zs @ xs)"
  by (simp_all add: list_emb_append_mono)

definition owes :: "nat \<Rightarrow> ('ty, 'm) call \<Rightarrow> ('ty, 'm) Envelope list" where
  "owes sid c = map snd (filter (\<lambda>p. fst p = sid) (pushes_left c))"

definition due :: "nat \<Rightarrow> ('ty, 'm) call list \<Rightarrow> ('ty, 'm) Envelope list" where
  "due sid cs = concat (map (owes sid) cs)"

definition alone :: "nat \<Rightarrow> ('ty, 'm) call list \<Rightarrow> bool" where
  "alone sid cs \<longleftrightarrow> (\<forall>i < length cs. \<forall>j < length cs. owes sid (cs ! i) \<noteq> [] \<longrightarrow> owes sid (cs ! j) \<noteq> [] \<longrightarrow> i = j)"

definition solo_step :: "nat \<Rightarrow> ('ty, 'm) bus_sys \<Rightarrow> ('ty, 'm) bus_sys \<Rightarrow> bool" where
  "solo_step sid s s' \<longleftrightarrow> bus_step s s' \<and> alone sid (calls s')"

lemma due_split:
  assumes "i < length cs"
  shows "due sid cs = due sid (take i cs) @ owes sid (cs ! i) @ due sid (drop (Suc i) cs)"
    and "due sid (cs[i := c]) = due sid (take i cs) @ owes sid c @ due sid (drop (Suc i) cs)"
proof -
  have "cs = take i cs @ cs ! i # drop (Suc i) cs" using assms by (rule id_take_nth_drop)
  then have "due sid cs = due sid (take i cs @ cs ! i # drop (Suc i) cs)" by (rule arg_cong)
  then show "due sid cs = due sid (take i cs) @ owes sid (cs ! i) @ due sid (drop (Suc i) cs)" by (simp add: due_def)
  show "due sid (cs[i := c]) = due sid (take i cs) @ owes sid c @ due sid (drop (Suc i) cs)"
    using assms by (simp add: due_def upd_conv_take_nth_drop)
qed

lemma due_mset: "mset (due sid cs) = owed cs sid"
  by (induction cs) (simp_all add: due_def owed_def owes_def owed_by_def)

text \<open>Who owes something alone owes everything.\<close>

lemma alone_due:
  assumes "alone sid cs" and "i < length cs" and "owes sid (cs ! i) \<noteq> []"
  shows "due sid cs = owes sid (cs ! i)" and "due sid (cs[i := c]) = owes sid c"
proof -
  have "owes sid (cs ! j) = []" if "j < length cs" "j \<noteq> i" for j using assms that by (auto simp: alone_def)
  then have "owes sid c = []" if "c \<in> set (take i cs) \<or> c \<in> set (drop (Suc i) cs)" for c
    using that assms(2) by (fastforce simp: in_set_conv_nth)
  then have "due sid (take i cs) = []" "due sid (drop (Suc i) cs) = []" by (auto simp: due_def)
  then show "due sid cs = owes sid (cs ! i)" "due sid (cs[i := c]) = owes sid c"
    using due_split [OF assms(2)] by simp_all
qed

lemma due_advance:
  assumes "calls_advance sid E cs cs'" and "alone k cs"
  shows "subseq ((if k = sid then E else []) @ due k cs') (due k cs)"
proof (cases "cs' = cs \<and> E = []")
  case False
  then obtain i c where i: "i < length cs" "cs' = cs[i := c]" "advances sid E (cs ! i) c"
    using assms(1) by (auto simp: calls_advance_def)
  have less: "subseq ((if k = sid then E else []) @ owes k c) (owes k (cs ! i))"
    using i(3) by (auto simp: advances_def owes_def)
  show ?thesis
  proof (cases "owes k (cs ! i) = []")
    case True
    then have "(if k = sid then E else []) @ owes k c = []" using less list_emb_Nil2 by metis
    then show ?thesis using True due_split [OF i(1), of k] i(2) by simp
  next
    case False
    then show ?thesis using alone_due [OF assms(2) i(1) False] less i(2) by simp
  qed
qed simp

section \<open>Order\<close>

definition history_ordered :: "('ty, 'm) TopicBus \<Rightarrow> bool" where
  "history_ordered b \<longleftrightarrow> (\<forall>t e. map_of (topics b) t = Some e \<longrightarrow> subseq (entry_latched e) (pub_log e))"

definition in_order :: "nat \<Rightarrow> ('ty, 'm) bus_sys \<Rightarrow> bool" where
  "in_order sid s \<longleftrightarrow> sound s \<and> alone sid (calls s) \<and> history_ordered (bus s) \<and>
     (\<forall>x. sub_objs (bus s) sid = Some x \<longrightarrow>
        (\<exists>e. map_of (topics (bus s)) (sub_topic x) = Some e \<and> subseq (arrived x @ due sid (calls s)) (pub_log e)))"

lemma owes_simps [simp]: "owes sid Idle_call = []" "owes sid (Subscribing sid' bl) = (if sid' = sid then bl else [])"
  by (simp_all add: owes_def filter_map comp_def)

lemma owes_publishing: "distinct ts \<Longrightarrow> owes sid (Publishing env tg ts k) = (if sid \<in> set ts then [env] else [])"
  by (induction ts) (auto simp: owes_def)

lemma history_step:
  assumes h: "history_ordered (bus s)" and step: "bus_step s s'"
  shows "history_ordered (bus s')"
  using step
proof (cases rule: bus_step_effect)
  case (Publish i topic ty pq msg now b env ts ms)
  from Publish(2) show ?thesis
  proof (cases rule: publish_locked_cases)
    case (Published e e' env' _ _ n)
    have "subseq (entry_latched e) (pub_log e)" using h Published(1) by (auto simp: history_ordered_def)
    then have l: "subseq (entry_latched e @ [env']) (pub_log e')" using Published(9) by simp
    have "subseq (trim (depth pq) (entry_latched e @ [env'])) (entry_latched e @ [env'])"
      unfolding trim_eq by (rule suffix_imp_subseq [OF suffix_drop])
    then have "subseq (entry_latched e') (entry_latched e @ [env'])"
      using Published(10) by (simp add: subseq_rev_drop_many)
    then have "subseq (entry_latched e') (pub_log e')" using l by (rule subseq_order.trans)
    then show ?thesis using h Published(11) Publish(3) by (auto simp: history_ordered_def frame_simps)
  qed simp_all
next
  case (Subscribe i sid topic ty q b bl)
  from Subscribe(3) obtain e where "map_of (topics (bus s)) topic = Some e \<or> map_of (topics (bus s)) topic = None \<and> e = new_entry ty"
    "map_of (topics b) = (map_of (topics (bus s)))(topic \<mapsto> e\<lparr>entry_subs := entry_subs e @ [sid]\<rparr>)" by (rule subscribe_locked_ok)
  then show ?thesis using h Subscribe(4) by (auto simp: history_ordered_def new_entry_def)
next
  case Other
  show ?thesis unfolding history_ordered_def
  proof (intro allI impI)
    fix t e' assume "map_of (topics (bus s')) t = Some e'"
    with Other(1) show "subseq (entry_latched e') (pub_log e')"
    proof (cases rule: topics_narrow_entry)
      case (Old e)
      have "subseq (entry_latched e) (pub_log e)" using h Old(1) by (auto simp: history_ordered_def)
      moreover have "subseq (entry_latched e') (entry_latched e)" "pub_log e' = pub_log e" using Old(2) by (simp_all add: narrowed_def)
      ultimately show ?thesis using subseq_order.trans by metis
    qed (simp add: new_entry_def)
  qed
qed (use h in \<open>simp_all add: history_ordered_def frame_simps\<close>)

text \<open>The entry of a topic keeps its log, or a publication appends to it.\<close>

lemma in_order_publish:
  assumes s: "in_order sid s" and p: "publish_locked topic ty pq msg now (bus s) = (b, Some (env, ts, ms))"
    and i: "call_at s i Idle_call" and s': "bus s' = report topic ms b" "calls s' = (calls s)[i := Publishing env ts ts True]"
    and alone: "alone sid (calls s')" and x': "sub_objs (bus s') sid = Some x'"
  shows "\<exists>e. map_of (topics (bus s')) (sub_topic x') = Some e \<and> subseq (arrived x' @ due sid (calls s')) (pub_log e)"
  using p
proof (cases rule: publish_locked_cases)
  case (Published e e' env' _ _ n)
  then have P: "env' = env" "match_subs pq (entry_subs e) (sub_objs (bus s)) = (sub_objs b, ms, ts, n)" by simp_all
  have top: "map_of (topics (bus s')) = (map_of (topics (bus s)))(topic \<mapsto> e')" and objs: "sub_objs (bus s') = sub_objs b"
    and log: "pub_log e' = pub_log e @ [env]" using Published(9,11) s'(1) P(1) by (simp_all add: frame_simps)
  obtain x where x: "sub_objs (bus s) sid = Some x" "requalified x x'" using publish_locked_subs [OF p x' [unfolded objs]] .
  obtain d where d: "map_of (topics (bus s)) (sub_topic x) = Some d" "subseq (arrived x @ due sid (calls s)) (pub_log d)"
    using s x(1) by (auto simp: in_order_def)
  have w: "wired (bus s)" using s soundD(1) by (auto simp: in_order_def)
  then have dist: "distinct (entry_subs e)" and subs: "\<And>k. k \<in> set (entry_subs e) \<Longrightarrow> \<exists>y. sub_objs (bus s) k = Some y \<and> sub_topic y = topic"
    using Published(1) unfolding wired_def by blast+
  have ts: "subseq ts (entry_subs e)" using P(2) by (rule match_subs_targets)
  have mine: "sub_topic x = topic" if "sid \<in> set ts" using subs [of sid] subseq_set [OF ts] that x(1) by auto
  have il: "i < length (calls s)" "owes sid (calls s ! i) = []" using i by (simp_all add: call_at_def)
  note split = due_split [OF il(1), of sid]
  have new: "owes sid (Publishing env ts ts True) = (if sid \<in> set ts then [env] else [])"
    by (rule owes_publishing [OF subseq_distinct [OF ts dist]])
  have due: "due sid (calls s') = (if sid \<in> set ts then due sid (calls s) @ [env] else due sid (calls s))"
  proof (cases "sid \<in> set ts")
    case True
    have l: "i < length (calls s')" "owes sid (calls s' ! i) = [env]" using il(1) new True s'(2) by simp_all
    have "due sid (calls s') = [env]" using alone_due(1) [OF alone l(1)] l(2) by simp
    moreover have "due sid (calls s) = []" using alone_due(2) [OF alone l(1), of "calls s ! i"] l(2) il(2) s'(2) by simp
    ultimately show ?thesis using True by simp
  qed (use split new il(2) s'(2) in simp)
  show ?thesis
  proof (cases "sub_topic x = topic")
    case True
    then have "d = e" using d(1) Published(1) by simp
    then have "subseq (arrived x @ due sid (calls s')) (pub_log e @ [env])"
      using d(2) due subseq_same(2) [OF d(2), of "[env]"] by (simp add: subseq_rev_drop_many)
    then show ?thesis using True by (simp add: top log requalified_fields [OF x(2)])
  next
    case False
    then have "sid \<notin> set ts" using mine by blast
    then show ?thesis using False d due by (simp add: top requalified_fields [OF x(2)])
  qed
qed simp_all

lemma in_order_step:
  assumes s: "in_order sid s" and solo: "solo_step sid s s'"
  shows "in_order sid s'"
proof -
  have step: "bus_step s s'" and alone': "alone sid (calls s')" using solo by (simp_all add: solo_step_def)
  have sd: "sound s" and alone: "alone sid (calls s)" and h: "history_ordered (bus s)" using s by (simp_all add: in_order_def)
  have old: "\<exists>e. map_of (topics (bus s)) (sub_topic x) = Some e \<and> subseq (arrived x @ due sid (calls s)) (pub_log e)"
    if "sub_objs (bus s) sid = Some x" for x using s that by (simp add: in_order_def)
  have "\<exists>e. map_of (topics (bus s')) (sub_topic x') = Some e \<and> subseq (arrived x' @ due sid (calls s')) (pub_log e)"
    if x': "sub_objs (bus s') sid = Some x'" for x'
    using step
  proof (cases rule: bus_step_effect)
    case (Sub k x y E)
    have adv: "subseq ((if sid = k then E else []) @ due sid (calls s')) (due sid (calls s))" using Sub(4) alone by (rule due_advance)
    show ?thesis
    proof (cases "sid = k")
      case True
      then have "x' = y" using x' Sub(3) by (simp add: frame_simps)
      obtain e where e: "map_of (topics (bus s)) (sub_topic x) = Some e" "subseq (arrived x @ due sid (calls s)) (pub_log e)"
        using old Sub(1) True by blast
      have "subseq (arrived x @ E @ due sid (calls s')) (arrived x @ due sid (calls s))" using subseq_same(1) [OF adv] True by simp
      then have "subseq (arrived x @ E @ due sid (calls s')) (pub_log e)" using e(2) by (rule subseq_order.trans)
      then show ?thesis using e(1) Sub(2,3) \<open>x' = y\<close> by (simp add: frame_simps moved_def)
    next
      case False
      then have "sub_objs (bus s) sid = Some x'" using x' Sub(3) by (simp add: frame_simps)
      then obtain e where e: "map_of (topics (bus s)) (sub_topic x') = Some e" "subseq (arrived x' @ due sid (calls s)) (pub_log e)"
        using old by blast
      have "subseq (arrived x' @ due sid (calls s')) (arrived x' @ due sid (calls s))" using subseq_same(1) [OF adv] False by simp
      then have "subseq (arrived x' @ due sid (calls s')) (pub_log e)" using e(2) by (rule subseq_order.trans)
      then show ?thesis using e(1) Sub(3) by (simp add: frame_simps)
    qed
  next
    case (Start i k x)
    have i: "i < length (calls s)" "owes sid (calls s ! i) = []" using Start(1) by (simp_all add: call_at_def)
    have "due sid (calls s') = due sid (calls s)" using due_split [OF i(1), of sid] i(2) Start(4) by simp
    then show ?thesis using x' Start(2,3) old by (auto simp: frame_simps start_worker_def split: if_splits)
  next
    case (Publish i topic ty pq msg now b env ts ms)
    then show ?thesis using in_order_publish [OF s Publish(2,1) Publish(3,4) alone' x'] by simp
  next
    case (Subscribe i k topic ty q b bl)
    from Subscribe(3) obtain e where e: "map_of (topics (bus s)) topic = Some e \<or> map_of (topics (bus s)) topic = None \<and> e = new_entry ty"
      "map_of (topics b) = (map_of (topics (bus s)))(topic \<mapsto> e\<lparr>entry_subs := entry_subs e @ [k]\<rparr>)"
      "sub_objs b = (sub_objs (bus s))(k \<mapsto> new_subscription topic ty q)" "bl = entry_latched e \<or> bl = []"
      by (rule subscribe_locked_ok)
    have i: "i < length (calls s)" "owes sid (calls s ! i) = []" using Subscribe(1) by (simp_all add: call_at_def)
    note split = due_split [OF i(1), of sid]
    show ?thesis
    proof (cases "k = sid")
      case True
      have "due sid (calls s) = []" using soundD(3) [OF sd, of sid] Subscribe(2) True by (simp flip: due_mset)
      then have "due sid (calls s') = bl" using split(1) split(2) [of "Subscribing k bl"] i(2) True Subscribe(5) by simp
      moreover have "subseq bl (pub_log e)" using e(1,4) h by (auto simp: history_ordered_def new_entry_def)
      moreover have "x' = new_subscription topic ty q" using x' True e(3) Subscribe(4) by simp
      then have "sub_topic x' = topic" "arrived x' = []" by (simp_all add: new_subscription_def)
      ultimately show ?thesis using e(2) Subscribe(4) by simp
    next
      case False
      have "due sid (calls s') = due sid (calls s)" using split(1) split(2) [of "Subscribing k bl"] i(2) False Subscribe(5) by simp
      moreover have "sub_objs (bus s) sid = Some x'" using x' False e(3) Subscribe(4) by simp
      ultimately show ?thesis using old e(1,2) Subscribe(4) by (cases "sub_topic x' = topic") auto
    qed
  next
    case Other
    have "sub_objs (bus s) sid = Some x'" using Other(1) x' by (simp add: topics_narrow_def)
    then obtain e where e: "map_of (topics (bus s)) (sub_topic x') = Some e" "subseq (arrived x' @ due sid (calls s)) (pub_log e)"
      using old by blast
    note n = Other(1) [unfolded topics_narrow_def, THEN conjunct2, THEN spec, of "sub_topic x'"]
    obtain e' where "map_of (topics (bus s')) (sub_topic x') = Some e'" "pub_log e' = pub_log e"
      using n e(1) by (cases "map_of (topics (bus s')) (sub_topic x')") (simp_all add: narrowed_def)
    moreover have "subseq (due sid (calls s')) (due sid (calls s))" using due_advance [OF Other(2) alone] by (simp split: if_splits)
    then have "subseq (arrived x' @ due sid (calls s')) (pub_log e)" using e(2) subseq_order.trans [OF subseq_same(1)] by blast
    ultimately show ?thesis by simp
  qed
  then show ?thesis using sound_step [OF sd step] alone' history_step [OF h step] by (simp add: in_order_def)
qed

lemma in_order_init: "bus_init n s \<Longrightarrow> in_order sid s"
  using sound_init by (auto simp: in_order_def bus_init_def new_bus_def history_ordered_def alone_def)

interpretation bus_solo: inductive_invariant "bus_init n" "solo_step sid" "in_order sid" for n sid
  by unfold_locales (use in_order_init in_order_step in blast)+

lemma solo_bus_reach: "reachable (bus_init n) (solo_step sid) s \<Longrightarrow> bus_reach n s"
proof (induction rule: reachable.induct)
  case (move s t)
  then show ?case by (auto simp: solo_step_def intro: reachable.move [where step = bus_step])
qed (rule reachable.start)

lemma log_ok_increasing:
  assumes "log_ok e" and "length (pub_log e) < 2 ^ 64"
  shows "sorted_wrt (\<lambda>a b. seq a < seq b) (pub_log e)"
  unfolding sorted_wrt_iff_nth_less
proof (intro allI impI)
  fix i j assume ij: "i < j" "j < length (pub_log e)"
  then have u: "unat (seq (pub_log e ! i)) = Suc i" "unat (seq (pub_log e ! j)) = Suc j"
    using assms unat_of_nat_small [of "Suc i"] unat_of_nat_small [of "Suc j"] by (simp_all add: log_ok_def del: of_nat_Suc)
  show "seq (pub_log e ! i) < seq (pub_log e ! j)" using ij(1) by (simp add: word_less_nat_alt u)
qed

lemma subseq_sorted_wrt: "subseq xs ys \<Longrightarrow> sorted_wrt P ys \<Longrightarrow> sorted_wrt P xs"
  by (induction rule: list_emb.induct) (auto dest: subseq_set)

lemma solo_delivered:
  assumes r: "reachable (bus_init n) (solo_step sid) s" and x: "sub_objs (bus s) sid = Some x"
  obtains e where "map_of (topics (bus s)) (sub_topic x) = Some e" "log_ok e" "subseq (lefts (processed x)) (pub_log e)"
proof -
  have o: "in_order sid s" using r by (rule bus_solo.reachable_inv)
  then obtain e where e: "map_of (topics (bus s)) (sub_topic x) = Some e" "subseq (arrived x @ due sid (calls s)) (pub_log e)"
    using x by (auto simp: in_order_def)
  have "subseq (lefts (processed x)) (arrived x)" using processed_subseq [OF reach_sub_ok [OF solo_bus_reach [OF r] x]] .
  also have "subseq (arrived x) (arrived x @ due sid (calls s))" by (simp add: subseq_rev_drop_many)
  also note e(2)
  finally have "subseq (lefts (processed x)) (pub_log e)" .
  moreover have "log_ok e" using o soundD(2) e(1) by (auto simp: in_order_def)
  ultimately show ?thesis using that e(1) by blast
qed

text \<open>
  C9: messages are heard in order. If no two calls ever have pushes to a subscriber outstanding at the same time (in
  particular if one thread publishes and subscribes), then, whatever else is interleaved, what its callback has
  heard, replayed history included, is a subsequence of what was published on its topic, and the sequence
  numbers it sees increase strictly.
\<close>

theorem delivered_in_order:
  assumes "reachable (bus_init n) (solo_step sid) s" and "sub_objs (bus s) sid = Some x"
  shows "\<exists>e. map_of (topics (bus s)) (sub_topic x) = Some e \<and> subseq (lefts (processed x)) (pub_log e) \<and>
    (length (pub_log e) < 2 ^ 64 \<longrightarrow> sorted_wrt (<) (map seq (lefts (processed x))))"
proof -
  obtain e where e: "map_of (topics (bus s)) (sub_topic x) = Some e" "log_ok e" "subseq (lefts (processed x)) (pub_log e)"
    using assms by (rule solo_delivered)
  have "sorted_wrt (<) (map seq (lefts (processed x)))" if "length (pub_log e) < 2 ^ 64"
    using subseq_sorted_wrt [OF e(3) log_ok_increasing [OF e(2) that]] by (simp add: sorted_wrt_map)
  then show ?thesis using e by blast
qed

text \<open>A single client is never disturbed.\<close>

lemma bus_step_calls: "bus_step s s' \<Longrightarrow> length (calls s') = length (calls s)"
  by (erule bus_step_effect) (auto simp: calls_advance_def)

lemma bus_reach_calls: "bus_reach n s \<Longrightarrow> length (calls s) = n"
  by (induction rule: reachable.induct) (use bus_step_calls in \<open>fastforce simp: bus_init_def\<close>)+

lemma one_client:
  assumes "bus_reach 1 s"
  shows "reachable (bus_init 1) (solo_step sid) s"
proof -
  have "reachable (bus_init 1) (solo_step sid) s \<and> length (calls s) = 1"
    using assms
  proof (induction rule: reachable.induct)
    case (start s)
    then show ?case by (auto simp: bus_init_def intro: reachable.start)
  next
    case (move s t)
    then have "length (calls t) = 1" using bus_step_calls by fastforce
    moreover have "alone sid (calls t)" using calculation by (auto simp: alone_def)
    ultimately have "solo_step sid s t" using move(2) by (simp add: solo_step_def)
    with move(3) show ?case using \<open>length (calls t) = 1\<close> reachable.move [where step = "solo_step sid"] by blast
  qed
  then show ?thesis ..
qed

text \<open>A client that publishes, subscribes with history, and publishes again.\<close>

definition replay_run :: "(nat, nat) bus_sys option" where
  "replay_run = run
     [Do_advertise 0 ''map'' 0 (latched 5), Do_publish 0 0 ''map'' 0 (latched 5) 41, Do_continue 0,
      Do_subscribe 0 7 ''map'' 0 (latched 5), Do_continue 0, Do_continue 0,
      Do_publish 0 0 ''map'' 0 (latched 5) 42, Do_continue 0, Do_continue 0,
      Do_take 7, Do_deliver 7, Do_return 7, Do_take 7, Do_deliver 7, Do_return 7] (idle_bus 1)"

theorem delivered_in_order_witness:
  "\<exists>s x. reachable (bus_init 1) (solo_step 7) s \<and> sub_objs (bus s) 7 = Some (x :: (nat, nat) Subscription) \<and>
     map payload (lefts (processed x)) = [41, 42] \<and> sorted_wrt (<) (map seq (lefts (processed x)))"
proof -
  let ?s = "the replay_run" let ?x = "the (sub_objs (bus ?s) 7)"
  have r: "replay_run = Some ?s" and x: "sub_objs (bus ?s) 7 = Some ?x" by (rule runs, code_simp)+
  have "bus_reach 1 ?s" using r unfolding replay_run_def by (rule run_reach)
  then have solo: "reachable (bus_init 1) (solo_step 7) ?s" by (rule one_client)
  have len: "length (pub_log (the (map_of (topics (bus ?s)) (sub_topic ?x)))) = 2" by code_simp
  obtain e where "map_of (topics (bus ?s)) (sub_topic ?x) = Some e"
    "length (pub_log e) < 2 ^ 64 \<longrightarrow> sorted_wrt (<) (map seq (lefts (processed ?x)))"
    using delivered_in_order [OF solo x] by blast
  then have "sorted_wrt (<) (map seq (lefts (processed ?x)))" using len by simp
  moreover have "map payload (lefts (processed ?x)) = [41, 42]" by code_simp
  ultimately show ?thesis using solo x by (intro exI [of _ ?s] exI [of _ ?x] conjI)
qed

end
