(* ===== verification/Fairness.thy ===== *)
theory Fairness
  imports Prelude
begin

text \<open>
  Infinite runs and weak fairness: a thread that can go on at all times from some time on does so. Positions of a
  run are numbers; \<open>enabled\<close> and \<open>taken\<close> say at which of them the thread can take a step and takes one. The
  rule \<open>fair_descent\<close> is how progress is shown: every step a fair thread takes brings it closer, nobody else
  takes it further away, and so it arrives.
\<close>

definition weakly_fair :: "(nat \<Rightarrow> bool) \<Rightarrow> (nat \<Rightarrow> bool) \<Rightarrow> bool" where
  "weakly_fair enabled taken \<longleftrightarrow> (\<forall>k. (\<forall>j\<ge>k. enabled j) \<longrightarrow> (\<exists>j\<ge>k. taken j))"

lemma weakly_fairD: "weakly_fair enabled taken \<Longrightarrow> (\<And>j. k \<le> j \<Longrightarrow> enabled j) \<Longrightarrow> \<exists>j\<ge>k. taken j"
  by (simp add: weakly_fair_def)

text \<open>A thread that cannot go on at some time after every time is treated fairly.\<close>

lemma weakly_fairI: "(\<And>k. \<exists>j\<ge>k. \<not> enabled j) \<Longrightarrow> weakly_fair enabled taken"
  by (auto simp: weakly_fair_def)

text \<open>A finite run as a list of states, and the infinite one that then rests.\<close>

lemma reachable_successively:
  "successively step (x # xs) \<Longrightarrow> reachable init step x \<Longrightarrow> y \<in> set (x # xs) \<Longrightarrow> reachable init step y"
  by (induction xs arbitrary: x) (auto dest: reachable.move [where step = step])

definition resting :: "'s list \<Rightarrow> nat \<Rightarrow> 's" where
  "resting xs k = (if k < length xs then xs ! k else last xs)"

lemma resting_step:
  "successively step xs \<Longrightarrow> xs \<noteq> [] \<Longrightarrow> resting xs (Suc k) = resting xs k \<or> step (resting xs k) (resting xs (Suc k))"
proof -
  assume *: "successively step xs" "xs \<noteq> []"
  then consider "Suc k < length xs" | "Suc k = length xs" | "length xs \<le> k" by linarith
  then show ?thesis
  proof cases
    case 2
    then have "k = length xs - 1" by simp
    then show ?thesis using * by (simp add: resting_def last_conv_nth)
  qed (use * in \<open>auto simp: resting_def successively_conv_nth\<close>)
qed

lemma resting_last: "length xs \<le> k \<Longrightarrow> resting xs k = last xs"
  by (simp add: resting_def)

text \<open>What every step keeps holds from then on.\<close>

lemma onwards:
  assumes "P k" and "\<And>j. k \<le> j \<Longrightarrow> P j \<Longrightarrow> P (Suc j)" and "k \<le> j"
  shows "P j"
  using assms(3,1,2) by (induction rule: dec_induct) auto

lemma fair_descent:
  fixes rank :: "nat \<Rightarrow> nat"
  assumes fair: "weakly_fair enabled taken" and start: "P k"
    and stay: "\<And>j. k \<le> j \<Longrightarrow> P j \<Longrightarrow> P (Suc j) \<or> Q (Suc j)"
    and en: "\<And>j. k \<le> j \<Longrightarrow> P j \<Longrightarrow> enabled j"
    and keep: "\<And>j. k \<le> j \<Longrightarrow> P j \<Longrightarrow> rank (Suc j) \<le> rank j \<or> Q (Suc j)"
    and fall: "\<And>j. k \<le> j \<Longrightarrow> P j \<Longrightarrow> taken j \<Longrightarrow> rank (Suc j) < rank j \<or> Q (Suc j)"
  shows "\<exists>j\<ge>k. Q j"
proof (rule ccontr)
  assume "\<not> ?thesis"
  then have no: "\<not> Q (Suc j)" if "k \<le> j" for j using that by simp
  have P: "P j" if "k \<le> j" for j
    using start _ that by (rule onwards) (use stay no in blast)
  have mono: "rank i \<le> rank m" if "k \<le> m" "m \<le> i" for m i
    using that(2) by (induction rule: dec_induct) (use that(1) keep P no in \<open>meson le_trans order_refl\<close>)+
  have "\<exists>j\<ge>k. rank j + n \<le> rank k" for n
  proof (induction n)
    case (Suc n)
    then obtain j where j: "k \<le> j" "rank j + n \<le> rank k" by blast
    obtain i where i: "j \<le> i" "taken i" using weakly_fairD [OF fair, of j] en P j(1) by (meson le_trans)
    then have "k \<le> i" using j(1) by simp
    then have "rank (Suc i) < rank i" using fall P no i(2) by blast
    then show ?case using mono [OF j(1) i(1)] j(2) \<open>k \<le> i\<close> by (intro exI [of _ "Suc i"]) simp
  qed auto
  from this [of "Suc (rank k)"] show False by simp
qed

end
