(* ===== verification/Bus_Shutdown.thy ===== *)
theory Bus_Shutdown
  imports Bus_Guarantees Fairness
begin

text \<open>
  That \<^verbatim>\<open>shutdown\<close> and \<^verbatim>\<open>unsubscribe\<close> return. Both close the queues of a list of subscriptions and join their
  workers, one after the other, while other threads go on using the bus. A schedule is weakly fair
  (\<open>fair_run\<close>) if no thread that can go on from some time on is passed over for ever. Under every such schedule
  the call comes to its end, and the workers it found running have then drained their queues and ended. This
  is so if no other call stops one of the same subscriptions at the same time, which would be a data race on its \<^verbatim>\<open>std::thread\<close>.
\<close>

section \<open>Fair schedules\<close>

definition worker_enabled :: "nat \<Rightarrow> ('ty, 'm) bus_sys \<Rightarrow> bool" where
  "worker_enabled sid s \<longleftrightarrow> (\<exists>a. worker_turn sid a \<and> exec a s \<noteq> None)"

definition fair_run :: "(nat \<Rightarrow> ('ty, 'm) bus_sys) \<Rightarrow> (nat \<Rightarrow> ('ty, 'm) action) \<Rightarrow> bool" where
  "fair_run \<sigma> acts \<longleftrightarrow>
     (\<forall>k. exec (acts k) (\<sigma> k) = Some (\<sigma> (Suc k))) \<and>
     (\<forall>i. weakly_fair (\<lambda>k. exec (Do_continue i) (\<sigma> k) \<noteq> None) (\<lambda>k. acts k = Do_continue i)) \<and>
     (\<forall>sid. weakly_fair (\<lambda>k. worker_enabled sid (\<sigma> k)) (\<lambda>k. worker_turn sid (acts k)))"

lemma fair_runD:
  assumes "fair_run \<sigma> acts"
  shows "exec (acts k) (\<sigma> k) = Some (\<sigma> (Suc k))"
    and "(\<And>j. k \<le> j \<Longrightarrow> exec (Do_continue i) (\<sigma> j) \<noteq> None) \<Longrightarrow> \<exists>j\<ge>k. acts j = Do_continue i"
    and "(\<And>j. k \<le> j \<Longrightarrow> worker_enabled sid (\<sigma> j)) \<Longrightarrow> \<exists>j\<ge>k. worker_turn sid (acts j)"
  using assms unfolding fair_run_def weakly_fair_def by blast+

lemma fair_run_step: "fair_run \<sigma> acts \<Longrightarrow> bus_step (\<sigma> k) (\<sigma> (Suc k))"
  by (rule exec_step [OF fair_runD(1)])

section \<open>A stopping call keeps its place\<close>

fun stopping :: "('ty, 'm) call \<Rightarrow> bool" where
  "stopping (Stopping sids) = True"
| "stopping (Closed_sub sid sids) = True"
| "stopping (Joining sid sids) = True"
| "stopping (Join_failed e) = True"
| "stopping _ = False"

text \<open>The subscriptions a call is stopping or has still to stop, and that no other call has one of them too.\<close>

fun stops :: "('ty, 'm) call \<Rightarrow> nat set" where
  "stops (Stopping sids) = set sids"
| "stops (Closed_sub sid sids) = insert sid (set sids)"
| "stops (Joining sid sids) = insert sid (set sids)"
| "stops _ = {}"

definition stops_alone :: "nat \<Rightarrow> ('ty, 'm) bus_sys \<Rightarrow> bool" where
  "stops_alone i s \<longleftrightarrow> (\<forall>j<length (calls s). j \<noteq> i \<longrightarrow> stops (calls s ! j) \<inter> stops (calls s ! i) = {})"

lemma continue_other: "continue_call j d s = Some t \<Longrightarrow> i \<noteq> j \<Longrightarrow> call_at s i c \<Longrightarrow> call_at t i c"
  by (induction j d s rule: continue_call.induct)
    (auto elim!: with_subE simp: call_at_def go_def split: prod.split_asm if_split_asm option.split_asm sum.split_asm)

lemma wake_other: "wake_call j to d s = Some t \<Longrightarrow> i \<noteq> j \<Longrightarrow> call_at s i c \<Longrightarrow> call_at t i c"
  by (induction j to d s rule: wake_call.induct)
    (auto elim!: with_subE simp: call_at_def go_def split: prod.split_asm if_split_asm)

lemma wake_stopping: "stopping c \<Longrightarrow> wake_call i to c s = None"
  by (cases c) simp_all

lemma begin_other: "begin_call j r s = Some t \<Longrightarrow> call_at s i c \<Longrightarrow> stopping c \<Longrightarrow> call_at t i c"
  by (auto simp: begin_call_Some call_at_def nth_list_update)

text \<open>Beginning a call needs an idle one; workers, handlers and the clock leave the calls alone.\<close>

lemma starts_other:
  assumes "exec a s = Some t" and "call_at s i c" and "stopping c"
    and "\<forall>j. a \<noteq> Do_continue j" and "\<forall>j to. a \<noteq> Do_wake j to"
  shows "call_at t i c"
proof -
  have same: "call_at t i c" if "calls t = calls s" using assms(2) that by (simp add: call_at_def)
  have "(\<exists>j r. begin_call j r s = Some t) \<or> calls t = calls s"
    using assms(1,4,5) by (cases a) (auto elim!: with_subE split: prod.split_asm option.split_asm if_split_asm sub_worker.split_asm)
  then show ?thesis using begin_other assms(2,3) same by blast
qed

lemma stopping_stays:
  assumes "exec a s = Some t" and "call_at s i c" and "stopping c" and "a \<noteq> Do_continue i"
  shows "call_at t i c"
proof -
  consider j where "a = Do_continue j" | j to where "a = Do_wake j to" | "\<forall>j. a \<noteq> Do_continue j" "\<forall>j to. a \<noteq> Do_wake j to"
    by blast
  then show ?thesis
  proof cases
    case 1
    then show ?thesis using assms by (auto split: if_splits intro: continue_other)
  next
    case (2 j to)
    have "j \<noteq> i" using assms 2 wake_stopping [OF assms(3)] by (auto simp: call_at_def split: if_splits)
    then show ?thesis using assms 2 by (auto split: if_splits intro: wake_other)
  next
    case 3
    show ?thesis by (rule starts_other [OF assms(1-3) 3])
  qed
qed

section \<open>The workers\<close>

text \<open>A step leaves a worker alone, starts it, joins it, if \<open>joins\<close> allows, or is a turn of it, which lowers the work left.\<close>

definition worker_next :: "bool \<Rightarrow> ('ty, 'm) Subscription \<Rightarrow> ('ty, 'm) Subscription \<Rightarrow> bool" where
  "worker_next joins x y \<longleftrightarrow> sub_worker_at y = sub_worker_at x \<or>
     sub_worker_at x = Not_started \<and> sub_worker_at y = At_pop \<or>
     joins \<and> sub_worker_at x = Returned \<and> sub_worker_at y = Thread_joined \<or>
     running (sub_worker_at x) \<and> joinable (sub_worker_at y) \<and> sub_work y < sub_work x"

lemma worker_next_refl [simp]: "worker_next joins x x"
  by (simp add: worker_next_def)

lemma taken_next: "sub_worker_at x = At_pop \<Longrightarrow> worker_take x = Some y \<Longrightarrow> worker_next joins x y"
  by (erule worker_take_cases) (auto simp: worker_next_def sub_work_def)

lemma worker_step:
  assumes st: "starting s" and step: "bus_step s t" and x: "sub_objs (bus s) sid = Some x"
  shows "\<exists>y. sub_objs (bus t) sid = Some y \<and> worker_next (\<exists>j sids. call_at s j (Joining sid sids) \<and> call_at t j (Stopping sids)) x y"
    (is "\<exists>y. _ \<and> worker_next ?joins x y")
proof -
  have one: ?thesis if "sub_objs (bus s) k = Some z" "sub_objs (bus t) = (sub_objs (bus s))(k \<mapsto> z')" "k = sid \<Longrightarrow> worker_next ?joins z z'" for k z z'
    using that x by (cases "k = sid") auto
  have kept: ?thesis if "sub_worker_at z' = sub_worker_at z" "sub_objs (bus s) k = Some z"
      "sub_objs (bus t) = (sub_objs (bus s))(k \<mapsto> z')" for k z z'
    using one [OF that(2,3)] that(1) by (simp add: worker_next_def)
  have same: ?thesis if "sub_objs (bus t) = sub_objs (bus s)" using that x by simp
  from step show ?thesis
  proof cases
    case (worker_take k z z')
    then show ?thesis by (intro one [of k z z'] taken_next) (simp_all add: frame_simps)
  next
    case (worker_deliver k z env)
    then show ?thesis by (intro one [of k z "deliver_call (of_int (time s)) env z"]) (simp_all add: frame_simps worker_next_def sub_work_def)
  next
    case (worker_return k z env)
    then show ?thesis by (intro one [of k z "deliver_return z"]) (simp_all add: frame_simps worker_next_def sub_work_def)
  next
    case (stop_join i k ks z w)
    have "call_at t i (Stopping ks)" using stop_join(1,2) by (simp add: call_at_def)
    then have "worker_next ?joins z (z\<lparr>sub_worker_at := w\<rparr>)" if "k = sid"
      using stop_join(2,4) that unfolding worker_next_def join_worker_Inr by auto
    then show ?thesis using stop_join by (intro one [of k z]) (simp_all add: frame_simps)
  next
    case (subscribe_start i k z)
    have "not_started (bus s) k"
      using st subscribe_start(2) starters_in [of i "calls s" k] unfolding starting_def call_at_def
      by (metis count_eq_zero_iff le_zero_eq subscribing.simps(1))
    then show ?thesis using subscribe_start
      by (intro one [of k z "start_worker z"]) (auto simp: frame_simps worker_next_def start_worker_def not_started_def)
  next
    case (subscribe_replay i k env rest z)
    then show ?thesis by (intro kept [of "replay env z" z k]) (simp_all add: frame_simps)
  next
    case (publish_push i env tg k ts ok z ev q oc sg)
    then show ?thesis by (intro kept [of "sub_pushed env (ev, q, oc, sg) z" z k]) (simp_all add: frame_simps)
  next
    case (publish_wake i env tg k ts ok dl z to q oc sg)
    then show ?thesis by (intro kept [of "sub_pushed env (None, q, oc, sg) z" z k]) (simp_all add: frame_simps)
  next
    case (stop_close i k ks z)
    then show ?thesis by (intro kept [of "close_sub z" z k]) (simp_all add: frame_simps close_sub_def)
  next
    case (publish_lock i now topic ty pq msg b env ts ms)
    obtain y where y: "sub_objs b sid = Some y" using publish_locked_dom [OF publish_lock(4) x] by blast
    obtain z where "sub_objs (bus s) sid = Some z" "requalified z y" using publish_locked_subs [OF publish_lock(4) y] .
    then show ?thesis using x y publish_lock(1) by (auto simp: frame_simps requalified_def worker_next_def)
  next
    case (publish_refused i now topic ty pq msg b)
    then show ?thesis using publish_refused_narrow [OF publish_refused(4)] by (intro same) (simp add: topics_narrow_def)
  next
    case (subscribe_lock i k topic ty q b bl)
    then show ?thesis using x subscribe_locked_subs [OF subscribe_lock(4)] by (intro exI [of _ x]) auto
  next
    case (subscribe_conflict i k topic ty q b)
    then show ?thesis using subscribe_locked_subs [OF subscribe_conflict(4)] by (intro same) simp
  next
    case (shutdown_lock i b sids)
    then show ?thesis using bus_frames(4) [of "bus s"] by (intro same) simp
  qed (rule same; simp add: frame_simps set_qos_mismatch_handler_def set_reliable_timeout_def)+
qed

section \<open>What a stopping call finds\<close>

text \<open>The subscriptions a call has to stop exist, and the one whose worker it joins is closed.\<close>

fun stop_ok :: "('ty, 'm) TopicBus \<Rightarrow> ('ty, 'm) call \<Rightarrow> bool" where
  "stop_ok b (Stopping sids) \<longleftrightarrow> (\<forall>sid\<in>set sids. sub_objs b sid \<noteq> None)"
| "stop_ok b (Closed_sub sid sids) \<longleftrightarrow>
     (\<forall>sid\<in>set sids. sub_objs b sid \<noteq> None) \<and> (\<exists>x. sub_objs b sid = Some x \<and> closed (sub_queue x))"
| "stop_ok b (Joining sid sids) \<longleftrightarrow>
     (\<forall>sid\<in>set sids. sub_objs b sid \<noteq> None) \<and> (\<exists>x. sub_objs b sid = Some x \<and> closed (sub_queue x))"
| "stop_ok b _ \<longleftrightarrow> True"

lemma stop_ok_after_target [simp]: "stop_ok b (after_target env tg sid ts ok dl oc)"
  by (cases oc) simp_all

definition stop_inv :: "('ty, 'm) bus_sys \<Rightarrow> bool" where
  "stop_inv s \<longleftrightarrow> starting s \<and> wired (bus s) \<and> distinct (map fst (topics (bus s))) \<and> (\<forall>c\<in>set (calls s). stop_ok (bus s) c)"

lemma keys_step:
  assumes "distinct (map fst (topics (bus s)))" and "bus_step s t"
  shows "distinct (map fst (topics (bus t)))"
  using assms(2)
proof cases
  case (publish_lock i now topic ty pq msg b env ts ms)
  then show ?thesis using assms(1)
    by (auto simp: publish_locked_def Let_def set_entry_def frame_simps distinct_update split: option.splits if_splits prod.splits)
next
  case (publish_refused i now topic ty pq msg b)
  then show ?thesis using assms(1) by (auto simp: publish_locked_def Let_def split: option.splits if_splits prod.splits)
qed (use assms(1) in \<open>auto simp: Topic_Bus.advertise_def ensure_topic_def subscribe_locked_def set_sub_def set_entry_def Let_def
    unsubscribe_locked_def shutdown_locked_def set_qos_mismatch_handler_def set_reliable_timeout_def distinct_update comp_def
    case_prod_unfold split: option.splits if_splits prod.splits\<close>)

lemma all_subs_exist:
  assumes "wired b" and "distinct (map fst (topics b))" and "sid \<in> set (all_subs b)"
  shows "sub_objs b sid \<noteq> None"
proof -
  obtain t e where e: "(t, e) \<in> set (topics b)" "sid \<in> set (entry_subs e)" using assms(3) by (auto simp: all_subs_def)
  then have "map_of (topics b) t = Some e" using assms(2) by simp
  then show ?thesis using assms(1) e(2) unfolding wired_def by fastforce
qed

lemma subs_stay: "bus_step s t \<Longrightarrow> sub_objs (bus s) sid \<noteq> None \<Longrightarrow> sub_objs (bus t) sid \<noteq> None"
  using bus_step_keeps_subs unfolding keeps_subs_def by fastforce

lemma stop_ok_step:
  assumes "starting s" and "bus_step s t" and "stop_ok (bus s) c"
  shows "stop_ok (bus t) c"
  using assms(3) subs_stay [OF assms(2)] closed_step [OF assms(1,2)] by (cases c) (auto, blast+)

lemma stop_inv_step:
  assumes inv: "stop_inv s" and step: "bus_step s t"
  shows "stop_inv t"
proof -
  have i: "starting s" "wired (bus s)" "distinct (map fst (topics (bus s)))" "\<forall>c\<in>set (calls s). stop_ok (bus s) c"
    using inv by (simp_all add: stop_inv_def)
  have old: "stop_ok (bus t) c" if "c \<in> set (calls s)" for c using stop_ok_step [OF i(1) step] i(4) that by blast
  have upd: "\<forall>d\<in>set (calls t). stop_ok (bus t) d" if "calls t = (calls s)[k := c]" "stop_ok (bus t) c" for k c
    using that old set_update_subset_insert [of "calls s" k c] by auto
  have at: "stop_ok (bus t) c" if "call_at s k c" for k c using old [of c] that by (auto simp: call_at_def)
  from step have "\<forall>c\<in>set (calls t). stop_ok (bus t) c"
  proof cases
    case (shutdown_lock k b sids)
    have "sub_objs (bus t) sid \<noteq> None" if "sid \<in> set sids" for sid
      using all_subs_exist [OF i(2,3)] that shutdown_lock(3) subs_stay [OF step] by (auto simp: shutdown_locked_def)
    then show ?thesis using shutdown_lock(1) by (intro upd [of k "Stopping sids"]) simp_all
  next
    case (unsubscribe_lock k sid x)
    then show ?thesis by (intro upd [of k "Stopping [sid]"]) (simp_all add: frame_simps)
  next
    case (stop_close k sid sids x)
    then show ?thesis using at [OF stop_close(2)]
      by (intro upd [of k "Closed_sub sid sids"]) (simp_all add: frame_simps close_sub_def close_locked_def)
  next
    case (stop_test k sid sids x)
    then show ?thesis using at [OF stop_test(2)]
      by (intro upd [of k "if joinable (sub_worker_at x) then Joining sid sids else Stopping sids"]) simp_all
  next
    case (stop_join k sid sids x w)
    then show ?thesis using at [OF stop_join(2)] by (intro upd [of k "Stopping sids"]) simp_all
  qed (rule upd, simp, simp; fail | use old in simp)+
  then show ?thesis unfolding stop_inv_def
    using starting_step [OF i(1) step] wired_step [OF i(2) step] keys_step [OF i(3) step] by blast
qed

lemma stop_inv_init: "bus_init n s \<Longrightarrow> stop_inv s"
  using starting_init [of n s] by (auto simp: stop_inv_def bus_init_def wired_def new_bus_def)

interpretation bus_stops: inductive_invariant "bus_init n" bus_step stop_inv for n
  by unfold_locales (use stop_inv_init stop_inv_step in blast)+

lemma stop_inv_call: "stop_inv s \<Longrightarrow> call_at s i c \<Longrightarrow> stop_ok (bus s) c"
  by (auto simp: stop_inv_def call_at_def)

section \<open>Progress\<close>

lemma fair_run_inv:
  assumes "bus_reach n (\<sigma> 0)" and "fair_run \<sigma> acts"
  shows "stop_inv (\<sigma> k)"
proof (induction k)
  case 0
  show ?case using assms(1) by (rule bus_stops.reachable_inv)
next
  case (Suc k)
  show ?case using Suc fair_run_step [OF assms(2)] by (rule stop_inv_step)
qed

text \<open>A stopping call that can always go on does so.\<close>

lemma stopping_continues:
  assumes run: "fair_run \<sigma> acts" and c: "call_at (\<sigma> k) i c" "stopping c"
    and en: "\<And>j. k \<le> j \<Longrightarrow> call_at (\<sigma> j) i c \<Longrightarrow> exec (Do_continue i) (\<sigma> j) \<noteq> None"
  shows "\<exists>j\<ge>k. call_at (\<sigma> j) i c \<and> acts j = Do_continue i"
proof (rule ccontr)
  assume no: "\<not> ?thesis"
  have stay: "call_at (\<sigma> j) i c" if "k \<le> j" for j
    using c(1) _ that by (rule onwards) (use no stopping_stays [OF fair_runD(1) [OF run] _ c(2)] in blast)
  then show False using no en fair_runD(2) [OF run, of k i] by blast
qed

definition work_at :: "nat \<Rightarrow> ('ty, 'm) bus_sys \<Rightarrow> nat" where
  "work_at sid s = sub_work (the (sub_objs (bus s) sid))"

definition worker_at :: "nat \<Rightarrow> ('ty, 'm) bus_sys \<Rightarrow> ('ty, 'm) sub_worker" where
  "worker_at sid s = sub_worker_at (the (sub_objs (bus s) sid))"

text \<open>
  Joining the worker of a closed subscription ends: the work left never grows. Once it no longer falls, either
  the worker has ended, and the join can return for ever, or it has a turn to take for ever.
\<close>

lemma joining_continues:
  assumes run: "fair_run \<sigma> acts" and inv: "\<And>j. stop_inv (\<sigma> j)" and c: "call_at (\<sigma> k) i (Joining sid sids)"
  shows "\<exists>j\<ge>k. acts j = Do_continue i"
  using c
proof (induction "work_at sid (\<sigma> k)" arbitrary: k rule: less_induct)
  case less
  show ?case
  proof (rule ccontr)
    assume no: "\<not> ?case"
    let ?c = "Joining sid sids :: ('a, 'b) call"
    have stay: "call_at (\<sigma> j) i ?c" if "k \<le> j" for j
      using less.prems _ that by (rule onwards) (use no stopping_stays [OF fair_runD(1) [OF run]] in auto)
    have sub: "\<exists>x. sub_objs (bus (\<sigma> j)) sid = Some x \<and> closed (sub_queue x)" if "k \<le> j" for j
      using stop_inv_call [OF inv stay [OF that]] by simp
    have nofall: "\<not> work_at sid (\<sigma> j) < work_at sid (\<sigma> k)" if "k \<le> j" for j
      using less.hyps [OF _ stay [OF that]] no that by (meson le_trans)
    have st: "starting (\<sigma> j)" for j using inv [of j] by (simp add: stop_inv_def)
    have le: "work_at sid (\<sigma> (Suc j)) \<le> work_at sid (\<sigma> j)" if "k \<le> j" for j
      using sub [OF that] closed_step [OF st fair_run_step [OF run]] by (fastforce simp: work_at_def)
    have "work_at sid (\<sigma> j) \<le> work_at sid (\<sigma> k)" if "k \<le> j" for j
      using _ _ that by (rule onwards) (use le in \<open>auto intro: le_trans\<close>)
    then have eq: "work_at sid (\<sigma> j) = work_at sid (\<sigma> k)" if "k \<le> j" for j
      using nofall [OF that] that by (meson le_neq_implies_less)
    have "\<exists>m\<ge>k. running (worker_at sid (\<sigma> m))"
    proof (rule ccontr)
      assume r: "\<not> ?thesis"
      have "exec (Do_continue i) (\<sigma> j) \<noteq> None" if kj: "k \<le> j" for j
      proof -
        obtain x where x: "sub_objs (bus (\<sigma> j)) sid = Some x" using sub [OF kj] by blast
        then have "join_worker (sub_worker_at x) \<noteq> None" using r kj by (metis option.sel worker_at_def)
        then show ?thesis using x stay [OF kj] by (auto simp: call_at_def with_sub_def split: sum.split)
      qed
      then show False using fair_runD(2) [OF run, of k i] no by blast
    qed
    then obtain m where m: "k \<le> m" "running (worker_at sid (\<sigma> m))" by blast
    have busy: "running (worker_at sid (\<sigma> j))" if "m \<le> j" for j
      using m(2) _ that
    proof (rule onwards)
      fix j assume j: "m \<le> j" "running (worker_at sid (\<sigma> j))"
      then have kj: "k \<le> j" using m(1) by simp
      obtain x where x: "sub_objs (bus (\<sigma> j)) sid = Some x" using sub [OF kj] by blast
      obtain y where y: "sub_objs (bus (\<sigma> (Suc j))) sid = Some y" "\<exists>joins. worker_next joins x y"
        using worker_step [OF st fair_run_step [OF run] x] by blast
      have "sub_work y = sub_work x" using eq [of j] eq [of "Suc j"] kj x y(1) by (simp add: work_at_def)
      then show "running (worker_at sid (\<sigma> (Suc j)))" using y j(2) x by (auto simp: worker_next_def worker_at_def)
    qed
    have "worker_enabled sid (\<sigma> j)" if "m \<le> j" for j
      using sub [of j] that m(1) busy [OF that] worker_turn_enabled [of "\<sigma> j" sid]
      by (auto simp: worker_at_def worker_enabled_def simp del: exec.simps)
    then obtain j where j: "m \<le> j" "worker_turn sid (acts j)" using fair_runD(3) [OF run, of m sid] by blast
    then obtain x where x: "sub_objs (bus (\<sigma> j)) sid = Some x" using sub [of j] m(1) by auto
    then have "work_at sid (\<sigma> (Suc j)) < work_at sid (\<sigma> j)"
      using worker_turn_work [OF j(2) fair_runD(1) [OF run] x] by (auto simp: work_at_def)
    then show False using eq [of j] eq [of "Suc j"] j(1) m(1) by simp
  qed
qed

section \<open>The whole call\<close>

lemma continue_stopping:
  assumes "exec (Do_continue i) s = Some t"
  shows "call_at s i (Stopping []) \<Longrightarrow> call_at t i Idle_call"
    and "call_at s i (Stopping (sid # sids)) \<Longrightarrow> call_at t i (Closed_sub sid sids)"
    and "call_at s i (Closed_sub sid sids) \<Longrightarrow> bus t = bus s \<and>
      call_at t i (if joinable (worker_at sid s) then Joining sid sids else Stopping sids)"
    and "call_at s i (Joining sid sids) \<Longrightarrow> joinable (worker_at sid s) \<Longrightarrow>
      call_at t i (Stopping sids) \<and> worker_at sid t = Thread_joined"
proof -
  show "call_at s i (Stopping []) \<Longrightarrow> call_at t i Idle_call"
    "call_at s i (Stopping (sid # sids)) \<Longrightarrow> call_at t i (Closed_sub sid sids)"
    "call_at s i (Closed_sub sid sids) \<Longrightarrow> bus t = bus s \<and>
      call_at t i (if joinable (worker_at sid s) then Joining sid sids else Stopping sids)"
    using assms by (auto simp: call_at_def worker_at_def elim!: with_subE)
  assume "call_at s i (Joining sid sids)" "joinable (worker_at sid s)"
  then show "call_at t i (Stopping sids) \<and> worker_at sid t = Thread_joined"
    using assms by (auto simp: call_at_def worker_at_def join_worker_Inl join_worker_Inr frame_simps elim!: with_subE
        split: option.split_asm sum.split_asm)
qed

text \<open>Nobody else joins the worker that a call alone is joining, so it stays joinable until that call goes on.\<close>

lemma joinable_stays:
  assumes "stop_inv s" and "bus_step s t" and "call_at s i (Joining sid sids)" and "call_at t i (Joining sid sids)"
    and "stops_alone i s" and "joinable (worker_at sid s)"
  shows "joinable (worker_at sid t)"
proof -
  have st: "starting s" using assms(1) by (simp add: stop_inv_def)
  obtain x where x: "sub_objs (bus s) sid = Some x" using stop_inv_call [OF assms(1,3)] by auto
  obtain y where y: "sub_objs (bus t) sid = Some y" "worker_next (\<exists>j sids. call_at s j (Joining sid sids) \<and> call_at t j (Stopping sids)) x y"
    using worker_step [OF st assms(2) x] by blast
  have "\<not> (call_at s j (Joining sid ks) \<and> call_at t j (Stopping ks))" for j ks
    using assms(3-5) by (cases "j = i") (auto simp: stops_alone_def call_at_def)
  then show ?thesis using x y assms(6) by (auto simp: worker_next_def worker_at_def)
qed

lemma joining_returns:
  assumes run: "fair_run \<sigma> acts" and inv: "\<And>j. stop_inv (\<sigma> j)" and c: "call_at (\<sigma> k) i (Joining sid sids)"
    and alone: "\<And>j. k \<le> j \<Longrightarrow> stops_alone i (\<sigma> j)" and able: "joinable (worker_at sid (\<sigma> k))"
  shows "\<exists>m\<ge>k. call_at (\<sigma> m) i (Joining sid sids) \<and> call_at (\<sigma> (Suc m)) i (Stopping sids) \<and> worker_at sid (\<sigma> (Suc m)) = Thread_joined"
proof -
  define m where "m = (LEAST j. k \<le> j \<and> acts j = Do_continue i)"
  have m: "k \<le> m" "acts m = Do_continue i"
    using LeastI_ex [OF joining_continues [OF run inv c], folded m_def] by blast+
  have before: "acts j \<noteq> Do_continue i" if "k \<le> j" "j < m" for j
    using not_less_Least [of j "\<lambda>j. k \<le> j \<and> acts j = Do_continue i", folded m_def] that by blast
  have "m \<le> m \<longrightarrow> call_at (\<sigma> m) i (Joining sid sids) \<and> joinable (worker_at sid (\<sigma> m))"
    using _ _ m(1)
  proof (rule onwards [where P = "\<lambda>j. j \<le> m \<longrightarrow> call_at (\<sigma> j) i (Joining sid sids) \<and> joinable (worker_at sid (\<sigma> j))"])
    fix j assume j: "k \<le> j" "j \<le> m \<longrightarrow> call_at (\<sigma> j) i (Joining sid sids) \<and> joinable (worker_at sid (\<sigma> j))"
    show "Suc j \<le> m \<longrightarrow> call_at (\<sigma> (Suc j)) i (Joining sid sids) \<and> joinable (worker_at sid (\<sigma> (Suc j)))"
    proof
      assume "Suc j \<le> m"
      then have a: "call_at (\<sigma> j) i (Joining sid sids)" "joinable (worker_at sid (\<sigma> j))" "acts j \<noteq> Do_continue i" using j before by auto
      have "call_at (\<sigma> (Suc j)) i (Joining sid sids)" using stopping_stays [OF fair_runD(1) [OF run] a(1) _ a(3)] by simp
      then show "call_at (\<sigma> (Suc j)) i (Joining sid sids) \<and> joinable (worker_at sid (\<sigma> (Suc j)))"
        using joinable_stays [OF inv fair_run_step [OF run] a(1) _ alone [OF j(1)] a(2)] by blast
    qed
  qed (use c able in simp)
  then show ?thesis using continue_stopping(4) [OF fair_runD(1) [OF run, of m, unfolded m(2)]] m(1) by blast
qed

lemma closing_returns:
  assumes run: "fair_run \<sigma> acts" and inv: "\<And>j. stop_inv (\<sigma> j)" and c: "call_at (\<sigma> k) i (Closed_sub sid sids)"
    and alone: "\<And>j. k \<le> j \<Longrightarrow> stops_alone i (\<sigma> j)"
  shows "\<exists>m>k. call_at (\<sigma> m) i (Stopping sids) \<and> (not_started (bus (\<sigma> m)) sid \<or> worker_at sid (\<sigma> m) = Thread_joined) \<and>
    (\<exists>x. sub_objs (bus (\<sigma> m)) sid = Some x \<and> closed (sub_queue x))"
proof -
  note step = fair_run_step [OF run] and st = inv [unfolded stop_inv_def, THEN conjunct1]
  have "\<exists>j\<ge>k. call_at (\<sigma> j) i (Closed_sub sid sids) \<and> acts j = Do_continue i"
    using stop_inv_call [OF inv]
    by (intro stopping_continues [OF run c]) (fastforce simp: call_at_def with_sub_def split: option.split)+
  then obtain j where j: "k \<le> j" "call_at (\<sigma> j) i (Closed_sub sid sids)" "acts j = Do_continue i" by blast
  obtain x where x: "sub_objs (bus (\<sigma> j)) sid = Some x" "closed (sub_queue x)" using stop_inv_call [OF inv j(2)] by auto
  have t: "bus (\<sigma> (Suc j)) = bus (\<sigma> j)" "call_at (\<sigma> (Suc j)) i (if joinable (worker_at sid (\<sigma> j)) then Joining sid sids else Stopping sids)"
    using continue_stopping(3) [OF fair_runD(1) [OF run, of j, unfolded j(3)] j(2)] by blast+
  then have w: "worker_at sid (\<sigma> (Suc j)) = worker_at sid (\<sigma> j)" by (simp add: worker_at_def)
  show ?thesis
  proof (cases "joinable (worker_at sid (\<sigma> j))")
    case False
    then have "not_started (bus (\<sigma> j)) sid \<or> worker_at sid (\<sigma> j) = Thread_joined"
      using x(1) by (cases "sub_worker_at x") (auto simp: not_started_def worker_at_def)
    then show ?thesis using False t w x j(1) by (intro exI [of _ "Suc j"]) auto
  next
    case True
    then have "call_at (\<sigma> (Suc j)) i (Joining sid sids)" "joinable (worker_at sid (\<sigma> (Suc j)))" using t w by simp_all
    then obtain m where m: "Suc j \<le> m" "call_at (\<sigma> m) i (Joining sid sids)" "call_at (\<sigma> (Suc m)) i (Stopping sids)"
      "worker_at sid (\<sigma> (Suc m)) = Thread_joined"
      using joining_returns [OF run inv _ alone] j(1) by (meson Suc_leD le_trans)
    obtain y where "sub_objs (bus (\<sigma> m)) sid = Some y" "closed (sub_queue y)" using stop_inv_call [OF inv m(2)] by auto
    then show ?thesis using closed_step [OF st step] m j(1) by (intro exI [of _ "Suc m"]) fastforce
  qed
qed

text \<open>What a call leaves behind: a closed subscription, and no thread unless its worker had not been started.\<close>

definition stopped_since :: "('ty, 'm) TopicBus \<Rightarrow> ('ty, 'm) TopicBus \<Rightarrow> nat \<Rightarrow> bool" where
  "stopped_since b b' sid \<longleftrightarrow> (\<exists>x. sub_objs b' sid = Some x \<and> closed (sub_queue x) \<and>
     (not_started b sid \<or> sub_worker_at x = Thread_joined))"

lemma stopped_since_step:
  assumes "starting s" and "bus_step s t" and "stopped_since b (bus s) sid"
  shows "stopped_since b (bus t) sid"
proof -
  obtain x where x: "sub_objs (bus s) sid = Some x" "closed (sub_queue x)" "not_started b sid \<or> sub_worker_at x = Thread_joined"
    using assms(3) by (auto simp: stopped_since_def)
  obtain y where "sub_objs (bus t) sid = Some y" "\<exists>joins. worker_next joins x y" using worker_step [OF assms(1,2) x(1)] by blast
  then show ?thesis using closed_step [OF assms(1,2) x(1,2)] x(3) by (auto simp: stopped_since_def worker_next_def)
qed

lemma started_stays:
  assumes "starting s" and "bus_step s t" and "sub_objs (bus s) sid \<noteq> None" and "not_started (bus t) sid"
  shows "not_started (bus s) sid"
proof -
  obtain x where x: "sub_objs (bus s) sid = Some x" using assms(3) by blast
  obtain y where "sub_objs (bus t) sid = Some y" "\<exists>joins. worker_next joins x y" using worker_step [OF assms(1,2) x] by blast
  then show ?thesis using x assms(4) by (auto simp: not_started_def worker_next_def)
qed

text \<open>A worker that has not been started is about to be started by the call that subscribed.\<close>

definition awaited :: "('ty, 'm) bus_sys \<Rightarrow> bool" where
  "awaited s \<longleftrightarrow> starting s \<and> (\<forall>sid. not_started (bus s) sid \<longrightarrow> sid \<in># starters (calls s))"

lemma awaited_step:
  assumes p: "awaited s" and step: "bus_step s t"
  shows "awaited t"
proof -
  have st: "starting s" using p by (simp add: awaited_def)
  have old: "sid \<in># starters (calls s)" if "not_started (bus t) sid" "sub_objs (bus s) sid \<noteq> None" for sid
    using started_stays [OF st step that(2,1)] p by (simp add: awaited_def)
  have "sid \<in># starters (calls t)" if ns: "not_started (bus t) sid" for sid
    using step
  proof (cases rule: bus_step_effect)
    case (Sub k x x' E)
    then show ?thesis using old [OF ns] ns starters_advance [OF Sub(4)] by (auto simp: not_started_def frame_simps split: if_splits)
  next
    case (Start i k x)
    have "add_mset k (starters (calls t)) = starters (calls s)"
      using Start(1,4) starters_update [of i "calls s" Idle_call] by (simp add: call_at_def)
    moreover have "sid \<noteq> k" "sub_objs (bus s) sid \<noteq> None"
      using ns Start(3) by (auto simp: not_started_def frame_simps start_worker_def split: if_splits)
    ultimately have "sid \<in># add_mset k (starters (calls t))" using old [OF ns] by simp
    then show ?thesis using \<open>sid \<noteq> k\<close> by simp
  next
    case (Publish i topic ty pq msg now b env ts ms)
    have "starters (calls t) = starters (calls s)"
      using Publish(1,4) starters_update [of i "calls s" "Publishing env ts ts True"] by (simp add: call_at_def)
    moreover obtain y where "sub_objs b sid = Some y" using ns Publish(3) by (auto simp: not_started_def frame_simps)
    ultimately show ?thesis using old [OF ns] publish_locked_subs [OF Publish(2)] by (metis option.distinct(1))
  next
    case (Subscribe i k topic ty q b bl)
    have "starters (calls t) = add_mset k (starters (calls s))"
      using Subscribe(1,5) starters_update [of i "calls s" "Subscribing k bl"] by (simp add: call_at_def)
    then show ?thesis using old [OF ns] ns Subscribe(4) subscribe_locked_subs [OF Subscribe(3)]
      by (cases "sid = k") (auto simp: not_started_def)
  next
    case Other
    then show ?thesis using old [OF ns] ns starters_advance [OF Other(2)] by (auto simp: not_started_def topics_narrow_def)
  qed
  then show ?thesis using starting_step [OF st step] by (simp add: awaited_def)
qed

lemma awaited_init: "bus_init n s \<Longrightarrow> awaited s"
  using starting_init [of n s] by (auto simp: awaited_def bus_init_def not_started_def new_bus_def)

interpretation bus_awaited: inductive_invariant "bus_init n" bus_step awaited for n
  by unfold_locales (use awaited_init awaited_step in blast)+

lemma stopping_returns:
  assumes run: "fair_run \<sigma> acts" and inv: "\<And>j. stop_inv (\<sigma> j)" and c: "call_at (\<sigma> k) i (Stopping sids)"
    and alone: "\<And>j. k \<le> j \<Longrightarrow> stops_alone i (\<sigma> j)"
  shows "\<exists>j\<ge>k. call_at (\<sigma> j) i Idle_call \<and> (\<forall>sid\<in>set sids. stopped_since (bus (\<sigma> k)) (bus (\<sigma> j)) sid)"
  using c alone
proof (induction sids arbitrary: k)
  case Nil
  have "\<exists>j\<ge>k. call_at (\<sigma> j) i (Stopping []) \<and> acts j = Do_continue i"
    by (rule stopping_continues [OF run Nil.prems(1)]) (simp_all add: call_at_def)
  then obtain j where j: "k \<le> j" "call_at (\<sigma> j) i (Stopping [])" "acts j = Do_continue i" by blast
  have "call_at (\<sigma> (Suc j)) i Idle_call"
    using continue_stopping(1) [OF fair_runD(1) [OF run, of j, unfolded j(3)] j(2)] .
  then show ?case using j(1) by (intro exI [of _ "Suc j"]) simp
next
  case (Cons sid sids)
  note step = fair_run_step [OF run] and st = inv [unfolded stop_inv_def, THEN conjunct1]
  have "\<exists>j\<ge>k. call_at (\<sigma> j) i (Stopping (sid # sids)) \<and> acts j = Do_continue i"
    using stop_inv_call [OF inv]
    by (intro stopping_continues [OF run Cons.prems(1)]) (fastforce simp: call_at_def with_sub_def split: option.split)+
  then obtain j where j: "k \<le> j" "call_at (\<sigma> j) i (Stopping (sid # sids))" "acts j = Do_continue i" by blast
  have c: "call_at (\<sigma> (Suc j)) i (Closed_sub sid sids)"
    using continue_stopping(2) [OF fair_runD(1) [OF run, of j, unfolded j(3)] j(2)] .
  have "\<And>l. Suc j \<le> l \<Longrightarrow> stops_alone i (\<sigma> l)" using Cons.prems(2) j(1) by simp
  from closing_returns [OF run inv c this] obtain m x where m: "Suc j < m" "call_at (\<sigma> m) i (Stopping sids)"
    "not_started (bus (\<sigma> m)) sid \<or> worker_at sid (\<sigma> m) = Thread_joined" "sub_objs (bus (\<sigma> m)) sid = Some x" "closed (sub_queue x)"
    by blast
  have km: "k \<le> m" using j(1) m(1) by simp
  have exists: "sub_objs (bus (\<sigma> l)) a \<noteq> None" if "a \<in> set (sid # sids)" "k \<le> l" for a l
    using _ _ that(2) by (rule onwards) (use stop_inv_call [OF inv Cons.prems(1)] that(1) subs_stay [OF step] in auto)
  have earlier: "not_started (bus (\<sigma> k)) a" if "a \<in> set (sid # sids)" "k \<le> l" "not_started (bus (\<sigma> l)) a" for a l
    using _ _ that(2) that(3) by (rule onwards [where P = "\<lambda>l. not_started (bus (\<sigma> l)) a \<longrightarrow> not_started (bus (\<sigma> k)) a", THEN mp])
      (use started_stays [OF st step exists [OF that(1)]] in auto)
  have "stopped_since (bus (\<sigma> k)) (bus (\<sigma> m)) sid"
    using m(3-5) earlier [OF _ km] by (auto simp: stopped_since_def worker_at_def)
  then have first: "stopped_since (bus (\<sigma> k)) (bus (\<sigma> l)) sid" if "m \<le> l" for l
    using _ that by (rule onwards) (rule stopped_since_step [OF st step])
  have "\<And>l. m \<le> l \<Longrightarrow> stops_alone i (\<sigma> l)" using Cons.prems(2) km by simp
  with Cons.IH [OF m(2)] obtain l where l: "m \<le> l" "call_at (\<sigma> l) i Idle_call" "\<forall>a\<in>set sids. stopped_since (bus (\<sigma> m)) (bus (\<sigma> l)) a"
    by blast
  have "stopped_since (bus (\<sigma> k)) (bus (\<sigma> l)) a" if "a \<in> set sids" for a
    using l(3) that earlier [OF _ km, of a] by (fastforce simp: stopped_since_def)
  then show ?case using l first km by (intro exI [of _ l]) auto
qed

text \<open>
  C11: \<^verbatim>\<open>shutdown\<close> and \<^verbatim>\<open>unsubscribe\<close> return, under every weakly fair schedule and whatever other threads publish, subscribe
  or stop meanwhile, as long as no other call is stopping one of the same subscriptions at the same time: no worker is joined for ever and
  no join fails. By then the queue of every subscription the call took off
  the bus is closed, and its worker, if it had been started when the call began, has ended and is joined.
\<close>

theorem shutdown_returns:
  assumes "bus_reach n (\<sigma> 0)" and "fair_run \<sigma> acts"
    and "acts k = Do_shutdown i \<and> sids = all_subs (bus (\<sigma> k)) \<or> (\<exists>sid. acts k = Do_unsubscribe i sid \<and> sids = [sid])"
    and "\<forall>m>k. stops_alone i (\<sigma> m)"
  shows "\<exists>j>k. call_at (\<sigma> j) i Idle_call \<and>
    (\<forall>sid\<in>set sids. \<exists>x. sub_objs (bus (\<sigma> j)) sid = Some x \<and> closed (sub_queue x) \<and>
       (not_started (bus (\<sigma> k)) sid \<or> sub_worker_at x = Thread_joined))"
proof -
  have inv: "stop_inv (\<sigma> j)" for j using assms(1,2) by (rule fair_run_inv)
  have "call_at (\<sigma> (Suc k)) i (Stopping sids) \<and> sub_objs (bus (\<sigma> (Suc k))) = sub_objs (bus (\<sigma> k))"
    using assms(3) fair_runD(1) [OF assms(2), of k]
    by (auto simp: shutdown_locked_def begin_call_Some call_at_def frame_simps elim!: with_subE)
  then have c: "call_at (\<sigma> (Suc k)) i (Stopping sids)" and ns: "not_started (bus (\<sigma> (Suc k))) = not_started (bus (\<sigma> k))"
    by (auto simp: not_started_def fun_eq_iff)
  obtain j where "Suc k \<le> j" "call_at (\<sigma> j) i Idle_call" "\<forall>sid\<in>set sids. stopped_since (bus (\<sigma> (Suc k))) (bus (\<sigma> j)) sid"
    using stopping_returns [OF assms(2) inv c] assms(4) by (meson Suc_le_lessD)
  then show ?thesis unfolding stopped_since_def ns by (intro exI [of _ j]) auto
qed

text \<open>A run that shuts the bus down with a message still queued, and from then on only lets time pass.\<close>

lemma continue_subs: "continue_call i c s = Some t \<Longrightarrow> sub_objs (bus t) sid \<noteq> None \<Longrightarrow> sub_objs (bus s) sid \<noteq> None"
  by (induction i c s rule: continue_call.induct)
    (auto elim!: with_subE simp: frame_simps split: prod.split_asm if_split_asm option.split_asm sum.split_asm)

lemma exec_subs:
  assumes "exec a s = Some t" and "sub_objs (bus t) sid \<noteq> None" and "\<forall>i topic ty q. a \<noteq> Do_subscribe i sid topic ty q"
  shows "sub_objs (bus s) sid \<noteq> None"
proof (cases a)
  case (Do_publish i now topic ty pq msg)
  then show ?thesis using assms(1,2) publish_locked_subs
    by (fastforce simp: begin_call_Some frame_simps split: prod.split_asm option.split_asm if_split_asm)
next
  case (Do_subscribe i k topic ty q)
  then show ?thesis using assms subscribe_locked_subs [of k topic ty q "bus s"]
    by (auto simp: begin_call_Some split: prod.split_asm option.split_asm if_split_asm)
next
  case (Do_continue i)
  then show ?thesis using assms(1,2) continue_subs by (fastforce split: if_splits)
next
  case (Do_wake i to)
  then show ?thesis using assms(1,2)
    by (cases "calls s ! i") (auto elim!: with_subE simp: frame_simps split: prod.split_asm if_split_asm)
qed (use assms(1,2) in \<open>auto elim!: with_subE simp: begin_call_Some frame_simps set_qos_mismatch_handler_def
    set_reliable_timeout_def shutdown_locked_def split: if_split_asm sub_worker.split_asm\<close>)

lemma run_subs:
  "run as s = Some t \<Longrightarrow> sub_objs (bus t) sid \<noteq> None \<Longrightarrow> \<forall>i topic ty q. Do_subscribe i sid topic ty q \<notin> set as \<Longrightarrow>
     sub_objs (bus s) sid \<noteq> None"
proof (induction as arbitrary: s)
  case (Cons a as)
  obtain u where u: "exec a s = Some u" "run as u = Some t" using Cons.prems(1) by (auto simp: bind_eq_Some_conv)
  have "sub_objs (bus u) sid \<noteq> None" using Cons.IH [OF u(2) Cons.prems(2)] Cons.prems(3) by simp
  then show ?case by (rule exec_subs [OF u(1)]) (use Cons.prems(3) in fastforce)
qed simp

lemma run_nth:
  assumes "run as s = Some t" and "k < length as"
  shows "exec (as ! k) (the (run (take k as) s)) = Some (the (run (take (Suc k) as) s))"
proof -
  have "run (take (Suc k) as @ drop (Suc k) as) s = Some t" using assms(1) by simp
  then obtain u where u: "run (take (Suc k) as) s = Some u" by (auto simp only: run_append bind_eq_Some_conv)
  then have "Option.bind (run (take k as) s) (run [as ! k]) = Some u"
    using assms(2) by (simp only: take_Suc_conv_app_nth run_append)
  then show ?thesis using u by (auto simp: bind_eq_Some_conv)
qed

definition closing_time :: "(nat, nat) action list" where
  "closing_time =
     [Do_advertise 1 ''map'' 0 (latched 5), Do_subscribe 0 7 ''map'' 0 (latched 5), Do_continue 0,
      Do_publish 1 0 ''map'' 0 (latched 5) 42, Do_continue 1, Do_continue 1,
      Do_shutdown 1, Do_continue 1, Do_take 7, Do_deliver 7, Do_return 7, Do_take 7, Do_continue 1,
      Do_continue 1, Do_continue 1]"

definition closing_acts :: "nat \<Rightarrow> (nat, nat) action" where
  "closing_acts k = (if k < length closing_time then closing_time ! k else Do_tick 0)"

definition closing_run :: "nat \<Rightarrow> (nat, nat) bus_sys" where
  "closing_run k = the (run (take k closing_time) (idle_bus 2))"

lemma closing_end: "run closing_time (idle_bus 2) = Some (closing_run 15)"
proof -
  have "closing_run 15 = the (run closing_time (idle_bus 2))" by (simp add: closing_run_def closing_time_def)
  moreover have "\<not> Option.is_none (run closing_time (idle_bus 2))" by code_simp
  ultimately show ?thesis using runs by simp
qed

lemma closing_rest: "15 \<le> k \<Longrightarrow> closing_run k = closing_run 15"
  by (simp add: closing_run_def closing_time_def)

lemma closing_over: "\<not> worker_enabled sid (closing_run 15)" "exec (Do_continue i) (closing_run 15) = None"
  "exec (Do_tick 0) (closing_run 15) = Some (closing_run 15)"
proof -
  show "\<not> worker_enabled sid (closing_run 15)"
  proof (cases "sid = 7")
    case True
    have "Option.is_none (exec (Do_take 7) (closing_run 15))" "Option.is_none (exec (Do_deliver 7) (closing_run 15))"
      "Option.is_none (exec (Do_return 7) (closing_run 15))" by code_simp+
    then show ?thesis using True by (auto simp: worker_enabled_def Option.is_none_def simp del: exec.simps)
  next
    case False
    have "\<forall>i topic ty q. Do_subscribe i sid topic ty q \<notin> set closing_time" using False by (simp add: closing_time_def)
    then have "sub_objs (bus (closing_run 15)) sid = None"
      using run_subs [OF closing_end, of sid] by (fastforce simp: idle_bus_def new_bus_def simp del: not_None_eq)
    then show ?thesis by (auto simp: worker_enabled_def with_sub_def)
  qed
  have "calls (closing_run 15) = [Idle_call, Idle_call]" by code_simp
  then show "exec (Do_continue i) (closing_run 15) = None" by (auto simp: nth_Cons split: nat.split)
  have "time (closing_run 15) = 0" by code_simp
  then show "exec (Do_tick 0) (closing_run 15) = Some (closing_run 15)" by simp
qed

lemma closing_fair: "fair_run closing_run closing_acts"
  unfolding fair_run_def
proof (intro conjI allI impI)
  fix k
  show "exec (closing_acts k) (closing_run k) = Some (closing_run (Suc k))"
  proof (cases "k < 15")
    case True
    then have "k < length closing_time" by (simp add: closing_time_def)
    then show ?thesis using run_nth [OF closing_end, of k] by (simp add: closing_acts_def closing_run_def)
  next
    case False
    then show ?thesis using closing_rest [of k] closing_rest [of "Suc k"] closing_over(3)
      by (simp add: closing_acts_def closing_time_def del: exec.simps)
  qed
next
  fix i sid
  show "weakly_fair (\<lambda>k. exec (Do_continue i) (closing_run k) \<noteq> None) (\<lambda>k. closing_acts k = Do_continue i)"
    "weakly_fair (\<lambda>k. worker_enabled sid (closing_run k)) (\<lambda>k. worker_turn sid (closing_acts k))"
    using closing_rest [of "k + 15" for k] closing_over(1,2) by (intro weakly_fairI; metis le_add1 le_add2)+
qed

lemma closing_alone: "6 < m \<Longrightarrow> stops_alone 1 (closing_run m)"
proof -
  assume m: "6 < m"
  have "list_all (\<lambda>m. length (calls (closing_run m)) = 2 \<and> \<not> stopping (hd (calls (closing_run m)))) [7..<16]" by code_simp
  moreover have "min m 15 \<in> set [7..<16]" using m by auto
  ultimately have "length (calls (closing_run (min m 15))) = 2 \<and> \<not> stopping (hd (calls (closing_run (min m 15))))"
    unfolding list_all_iff by blast
  moreover have "closing_run m = closing_run (min m 15)" using closing_rest [of m] by (simp add: min_def)
  ultimately have c: "length (calls (closing_run m)) = 2" "\<not> stopping (calls (closing_run m) ! 0)"
    by (simp_all add: hd_conv_nth [symmetric] del: length_greater_0_conv flip: length_greater_0_conv)
  then have "stops (calls (closing_run m) ! 0) = {}" by (cases "calls (closing_run m) ! 0") simp_all
  then show ?thesis using c(1) by (auto simp: stops_alone_def less_2_cases_iff)
qed

theorem shutdown_returns_witness:
  "\<exists>j>6. call_at (closing_run j) 1 Idle_call \<and>
     (\<exists>x. sub_objs (bus (closing_run j)) 7 = Some x \<and> closed (sub_queue x) \<and> sub_worker_at x = Thread_joined)"
proof -
  have r: "bus_reach 2 (closing_run 0)"
    using reachable.start [of "bus_init 2", OF idle_bus_init] by (simp add: closing_run_def)
  have a: "closing_acts 6 = Do_shutdown 1" by (simp add: closing_acts_def closing_time_def)
  have s: "all_subs (bus (closing_run 6)) = [7]" "sub_worker_at (the (sub_objs (bus (closing_run 6)) 7)) \<noteq> Not_started" by code_simp+
  then have "\<not> not_started (bus (closing_run 6)) 7" by (auto simp: not_started_def)
  then show ?thesis using shutdown_returns [OF r closing_fair, of 6 1 "[7]"] a s(1) closing_alone by auto
qed

end
