(* ===== verification/Bus_Stop.thy ===== *)
theory Bus_Stop
  imports Bus_Shutdown
begin

text \<open>
  \<^verbatim>\<open>deliver_loop\<close>, \<^verbatim>\<open>stop_subscription\<close>, \<^verbatim>\<open>unsubscribe\<close>, \<^verbatim>\<open>shutdown\<close> and the destructor of \<^verbatim>\<open>topic_bus.h\<close> as whole functions: what they
  do when no other call interferes. The successive readings of the clock are a parameter, \<open>clock j\<close> the \<open>j\<close>-th; the number of the
  next reading is passed along. A loop that would wait for ever has no result, nor has a join that fails. The interleaved machine refines these functions: it
  has a run of the call that ends with the function's result.
\<close>

section \<open>Whole functions\<close>

function deliver_loop :: "(nat \<Rightarrow> nanos) \<Rightarrow> nat \<Rightarrow> ('ty, 'm) Subscription \<Rightarrow> (('ty, 'm) Subscription \<times> nat) option" where
  "deliver_loop clock k x =
     (case worker_take x of
        None \<Rightarrow> None
      | Some y \<Rightarrow> (case sub_worker_at y of
           Holding env \<Rightarrow> deliver_loop clock (Suc k) (deliver (of_int (clock k)) env y)
         | _ \<Rightarrow> Some (y, k)))"
  by pat_completeness auto

termination
proof (relation "measure (\<lambda>(clock, k, x). length (items (sub_queue x)))")
  fix x y :: "('a, 'b) Subscription" and clock :: "nat \<Rightarrow> nanos" and k env
  assume "worker_take x = Some y" and "sub_worker_at y = Holding env"
  then have "length (items (sub_queue y)) < length (items (sub_queue x))" by (cases rule: worker_take_cases) auto
  then show "((clock, Suc k, deliver (of_int (clock k)) env y), (clock, k, x)) \<in> measure (\<lambda>(clock, k, x). length (items (sub_queue x)))"
    by (simp add: frame_simps)
qed simp

declare deliver_loop.simps [simp del]

text \<open>The worker from where it stands, to the return of its loop, if it has been started.\<close>

definition finish_worker :: "(nat \<Rightarrow> nanos) \<Rightarrow> nat \<Rightarrow> ('ty, 'm) Subscription \<Rightarrow> (('ty, 'm) Subscription \<times> nat) option" where
  "finish_worker clock k x =
     (case sub_worker_at x of
        At_pop \<Rightarrow> deliver_loop clock k x
      | Holding env \<Rightarrow> deliver_loop clock (Suc k) (deliver (of_int (clock k)) env x)
      | In_callback env \<Rightarrow> deliver_loop clock k (deliver_return x)
      | _ \<Rightarrow> Some (x, k))"

definition stop_subscription :: "(nat \<Rightarrow> nanos) \<Rightarrow> nat \<Rightarrow> nat \<Rightarrow> ('ty, 'm) TopicBus \<Rightarrow> (('ty, 'm) TopicBus \<times> nat) option" where
  "stop_subscription clock sid k b =
     Option.bind (sub_objs b sid) (\<lambda>x.
       let x = close_sub x
       in if joinable (sub_worker_at x)
          then Option.bind (finish_worker clock k x) (\<lambda>(y, k').
                 case join_worker (sub_worker_at y) of
                   Some (Inr w) \<Rightarrow> Some (set_sub sid (y\<lparr>sub_worker_at := w\<rparr>) b, k')
                 | _ \<Rightarrow> None)
          else Some (set_sub sid x b, k))"

fun stop_all :: "(nat \<Rightarrow> nanos) \<Rightarrow> nat list \<Rightarrow> nat \<Rightarrow> ('ty, 'm) TopicBus \<Rightarrow> (('ty, 'm) TopicBus \<times> nat) option" where
  "stop_all clock [] k b = Some (b, k)"
| "stop_all clock (sid # sids) k b = Option.bind (stop_subscription clock sid k b) (\<lambda>(b', k'). stop_all clock sids k' b')"

text \<open>A handle is the address of its subscription; \<^verbatim>\<open>unsubscribe\<close> resets it.\<close>

definition unsubscribe :: "(nat \<Rightarrow> nanos) \<Rightarrow> nat option \<Rightarrow> nat \<Rightarrow> ('ty, 'm) TopicBus \<Rightarrow> (('ty, 'm) TopicBus \<times> nat option \<times> nat) option" where
  "unsubscribe clock h k b =
     (case h of
        None \<Rightarrow> Some (b, None, k)
      | Some sid \<Rightarrow> map_option (\<lambda>(b', k'). (b', None, k')) (stop_subscription clock sid k (unsubscribe_locked sid b)))"

definition shutdown :: "(nat \<Rightarrow> nanos) \<Rightarrow> nat \<Rightarrow> ('ty, 'm) TopicBus \<Rightarrow> (('ty, 'm) TopicBus \<times> nat) option" where
  "shutdown clock k b = (case shutdown_locked b of (b', all) \<Rightarrow> stop_all clock all k b')"

definition destroy_bus :: "(nat \<Rightarrow> nanos) \<Rightarrow> nat \<Rightarrow> ('ty, 'm) TopicBus \<Rightarrow> (('ty, 'm) TopicBus \<times> nat) option" where
  "destroy_bus clock k b = shutdown clock k b"

section \<open>What stopping does to a subscription\<close>

text \<open>A worker that had been started ends and is joined, after everything in its hands and in the queue was processed, in order.\<close>

definition stop_effect :: "('ty, 'm) Subscription \<Rightarrow> ('ty, 'm) Subscription \<Rightarrow> bool" where
  "stop_effect x y \<longleftrightarrow> closed (sub_queue y) \<and>
     (sub_worker_at x \<noteq> Not_started \<longrightarrow> sub_worker_at y = Thread_joined \<and> items (sub_queue y) = [] \<and>
        map untag (processed y) = map untag (processed x) @ held (sub_worker_at x) @ items (sub_queue x))"

lemma stop_effect_trans: "stop_effect x y \<Longrightarrow> stop_effect y z \<Longrightarrow> stop_effect x z"
  by (auto simp: stop_effect_def)

lemma deliver_loop_closed:
  assumes "closed (sub_queue x)"
  shows "\<exists>y k'. deliver_loop clock k x = Some (y, k') \<and> closed (sub_queue y) \<and> sub_worker_at y = Returned \<and> items (sub_queue y) = [] \<and>
    map untag (processed y) = map untag (processed x) @ items (sub_queue x)"
  using assms
proof (induction clock k x rule: deliver_loop.induct)
  case (1 clock k x)
  have "worker_take x \<noteq> None"
    using 1(2) by (cases "items (sub_queue x)") (simp_all add: worker_take_def pop_def pop_until_def pop_front_def)
  then obtain y where y: "worker_take x = Some y" by blast
  then show ?case
  proof (cases rule: worker_take_cases)
    case Return
    then show ?thesis using y 1(2) by (simp add: deliver_loop.simps)
  next
    case (Take env envs)
    have "sub_worker_at y = Holding env" using Take by simp
    from 1(1) [OF y this] show ?thesis using y Take 1(2) by (auto simp: deliver_loop.simps [of clock k x] frame_simps)
  qed
qed

lemma finish_worker_closed:
  assumes "closed (sub_queue x)" and "sub_ok x" and "joinable (sub_worker_at x)"
  shows "\<exists>y k'. finish_worker clock k x = Some (y, k') \<and> sub_worker_at y = Returned \<and> stop_effect x (y\<lparr>sub_worker_at := Thread_joined\<rparr>)"
proof (cases "sub_worker_at x")
  case At_pop
  then show ?thesis using deliver_loop_closed [OF assms(1), of clock k] by (auto simp: finish_worker_def stop_effect_def)
next
  case (Holding env)
  have "closed (sub_queue (deliver (of_int (clock k)) env x))" using assms(1) by (simp add: frame_simps)
  from deliver_loop_closed [OF this, of clock "Suc k"] show ?thesis using Holding
    by (auto simp: finish_worker_def stop_effect_def frame_simps)
next
  case (In_callback env)
  have "closed (sub_queue (deliver_return x))" using assms(1) by (simp add: frame_simps)
  from deliver_loop_closed [OF this, of clock k] show ?thesis using In_callback
    by (auto simp: finish_worker_def stop_effect_def frame_simps)
qed (use assms in \<open>auto simp: finish_worker_def stop_effect_def sub_ok_def\<close>)

section \<open>The machine runs the functions\<close>

lemma set_sub_twice [simp]: "set_sub sid y (set_sub sid x b) = set_sub sid y b"
  by (simp add: set_sub_def)

lemmas bus_run = converse_rtranclp_into_rtranclp [where r = bus_step]

lemma deliver_steps:
  assumes "sub_objs (bus s) sid = Some x" and "sub_worker_at x = Holding env" and "time s \<le> now"
  shows "bus_step\<^sup>*\<^sup>* s (s\<lparr>bus := set_sub sid (deliver (of_int now) env x) (bus s), time := now\<rparr>)"
proof -
  let ?x = "deliver_call (of_int now) env x" let ?t = "s\<lparr>bus := set_sub sid ?x (bus s), time := now\<rparr>"
  have call: "bus_step\<^sup>*\<^sup>* s ?t"
  proof (rule bus_run [OF tick [OF assms(3)]], rule bus_run [OF _ rtranclp.rtrancl_refl])
    show "bus_step (s\<lparr>time := now\<rparr>) ?t"
      using worker_deliver [of "s\<lparr>time := now\<rparr>" sid x env] assms(1,2) by (cases s) simp
  qed
  show ?thesis
  proof (cases "sub_worker_at ?x = In_callback env")
    case True
    have "bus_step ?t (?t\<lparr>bus := set_sub sid (deliver_return ?x) (bus ?t)\<rparr>)"
      by (rule worker_return [OF _ True]) (simp add: frame_simps)
    then have "bus_step ?t (s\<lparr>bus := set_sub sid (deliver (of_int now) env x) (bus s), time := now\<rparr>)"
      using True by (cases s) (simp add: deliver_def Let_def)
    with call show ?thesis by (rule rtranclp.rtrancl_into_rtrancl)
  next
    case False
    then show ?thesis using call by (simp add: deliver_def Let_def)
  qed
qed

lemma deliver_loop_steps:
  assumes "deliver_loop clock k x = Some (y, k')" and "sub_objs (bus s) sid = Some x" and "sub_worker_at x = At_pop"
    and "mono clock" and "time s \<le> clock k"
  shows "\<exists>t \<le> clock k'. bus_step\<^sup>*\<^sup>* s (s\<lparr>bus := set_sub sid y (bus s), time := t\<rparr>)"
  using assms
proof (induction clock k x arbitrary: s rule: deliver_loop.induct)
  case (1 clock k x)
  obtain z where z: "worker_take x = Some z" using 1(2) by (auto simp: deliver_loop.simps [of clock k x] split: option.splits)
  have take: "bus_step s (s\<lparr>bus := set_sub sid z (bus s)\<rparr>)" using 1(3,4) z by (rule worker_take)
  show ?case
  proof (cases "sub_worker_at z")
    case (Holding env)
    let ?s = "s\<lparr>bus := set_sub sid z (bus s)\<rparr>" let ?z = "deliver (of_int (clock k)) env z"
    let ?t = "?s\<lparr>bus := set_sub sid ?z (bus s), time := clock k\<rparr>"
    have d: "bus_step\<^sup>*\<^sup>* ?s ?t" using deliver_steps [of ?s sid z env "clock k"] Holding 1(6) by (simp add: frame_simps)
    have "deliver_loop clock (Suc k) ?z = Some (y, k')" using 1(2) z Holding by (simp add: deliver_loop.simps [of clock k x])
    from 1(1) [OF z Holding this, of ?t] obtain t where t: "t \<le> clock k'" "bus_step\<^sup>*\<^sup>* ?t (?t\<lparr>bus := set_sub sid y (bus ?t), time := t\<rparr>)"
      using 1(5) by (auto simp: frame_simps mono_def)
    have "bus_step\<^sup>*\<^sup>* s (s\<lparr>bus := set_sub sid y (bus s), time := t\<rparr>)"
      using bus_run [OF take rtranclp_trans [OF d t(2)]] by simp
    then show ?thesis using t(1) by blast
  qed (use 1(2,6) z take bus_run [OF take rtranclp.rtrancl_refl] in \<open>auto simp: deliver_loop.simps [of clock k x]\<close>)
qed

lemma finish_worker_steps:
  assumes "finish_worker clock k x = Some (y, k')" and "sub_objs (bus s) sid = Some x" and "mono clock" and "time s \<le> clock k"
  shows "\<exists>t \<le> clock k'. bus_step\<^sup>*\<^sup>* s (s\<lparr>bus := set_sub sid y (bus s), time := t\<rparr>)"
proof (cases "sub_worker_at x")
  case At_pop
  then show ?thesis using assms(1) deliver_loop_steps [OF _ assms(2) At_pop assms(3,4)] by (simp add: finish_worker_def)
next
  case (Holding env)
  let ?x = "deliver (of_int (clock k)) env x" let ?t = "s\<lparr>bus := set_sub sid ?x (bus s), time := clock k\<rparr>"
  have d: "bus_step\<^sup>*\<^sup>* s ?t" using assms(2) Holding assms(4) by (rule deliver_steps)
  have "deliver_loop clock (Suc k) ?x = Some (y, k')" using assms(1) Holding by (simp add: finish_worker_def)
  from deliver_loop_steps [OF this, of ?t sid] obtain t where "t \<le> clock k'" "bus_step\<^sup>*\<^sup>* ?t (?t\<lparr>bus := set_sub sid y (bus ?t), time := t\<rparr>)"
    using assms(3) by (auto simp: frame_simps mono_def)
  then show ?thesis using rtranclp_trans [OF d] by (intro exI [of _ t]) simp
next
  case (In_callback env)
  let ?t = "s\<lparr>bus := set_sub sid (deliver_return x) (bus s)\<rparr>"
  have d: "bus_step s ?t" using assms(2) In_callback by (rule worker_return)
  have "deliver_loop clock k (deliver_return x) = Some (y, k')" using assms(1) In_callback by (simp add: finish_worker_def)
  from deliver_loop_steps [OF this, of ?t sid] obtain t where "t \<le> clock k'" "bus_step\<^sup>*\<^sup>* ?t (?t\<lparr>bus := set_sub sid y (bus ?t), time := t\<rparr>)"
    using assms(3,4) by (auto simp: frame_simps)
  then show ?thesis using bus_run [OF d] by (intro exI [of _ t]) simp
qed (use assms in \<open>auto simp: finish_worker_def set_sub_def fun_upd_idem intro!: exI [of _ "time s"]\<close>)

text \<open>A call that has to stop \<open>sids\<close> goes through all of them, and each is stopped as said above.\<close>

lemma stop_one_steps:
  assumes r: "bus_reach n s" and c: "call_at s i (Stopping (sid # sids))" and x: "sub_objs (bus s) sid = Some x"
    and clk: "mono clock" "time s \<le> clock k"
  shows "\<exists>b k' t. stop_subscription clock sid k (bus s) = Some (b, k') \<and> t \<le> clock k' \<and>
    bus_step\<^sup>*\<^sup>* s (s\<lparr>bus := b, calls := (calls s)[i := Stopping sids], time := t\<rparr>) \<and>
    (\<exists>y. b = set_sub sid y (bus s) \<and> stop_effect x y)"
proof -
  let ?x = "close_sub x" let ?s = "go i (Closed_sub sid sids) (set_sub sid ?x (bus s)) s"
  let ?stopped = "\<lambda>y t. s\<lparr>bus := set_sub sid y (bus s), calls := (calls s)[i := Stopping sids], time := t\<rparr>"
  have close: "bus_step s ?s" using c x by (rule stop_close)
  have ok: "sub_ok ?x" using close_sub_ok [OF reach_sub_ok [OF r x]] .
  have cl: "closed (sub_queue ?x)" by (simp add: close_sub_def close_locked_def)
  have same: "stop_effect x y" if "stop_effect ?x y" for y using that by (simp add: stop_effect_def close_sub_def close_locked_def)
  have "call_at ?s i (Closed_sub sid sids)" "sub_objs (bus ?s) sid = Some ?x" using c by (simp_all add: call_at_def frame_simps)
  from stop_test [OF this] have test: "bus_step ?s (go i (if joinable (sub_worker_at ?x) then Joining sid sids else Stopping sids) (bus ?s) ?s)" .
  show ?thesis
  proof (cases "joinable (sub_worker_at ?x)")
    case False
    then have "bus_step ?s (?stopped ?x (time s))" using test by (cases s) (simp add: go_def)
    then have "bus_step\<^sup>*\<^sup>* s (?stopped ?x (time s))" using bus_run [OF close] by blast
    moreover have "stop_effect ?x ?x"
      using False ok cl by (cases "sub_worker_at ?x") (simp_all add: stop_effect_def sub_ok_def)
    moreover have "stop_subscription clock sid k (bus s) = Some (set_sub sid ?x (bus s), k)"
      using x False by (simp add: stop_subscription_def Let_def)
    ultimately show ?thesis using clk(2) same by blast
  next
    case True
    let ?u = "go i (Joining sid sids) (bus ?s) ?s"
    obtain y k' where y: "finish_worker clock k ?x = Some (y, k')" "sub_worker_at y = Returned" "stop_effect ?x (y\<lparr>sub_worker_at := Thread_joined\<rparr>)"
      using finish_worker_closed [OF cl ok True] by blast
    let ?y = "y\<lparr>sub_worker_at := Thread_joined\<rparr>"
    obtain t where t: "t \<le> clock k'" "bus_step\<^sup>*\<^sup>* ?u (?u\<lparr>bus := set_sub sid y (bus ?u), time := t\<rparr>)"
      using finish_worker_steps [OF y(1), of ?u sid] clk by (auto simp: frame_simps)
    let ?t = "?u\<lparr>bus := set_sub sid y (bus ?u), time := t\<rparr>"
    have "call_at ?t i (Joining sid sids)" "sub_objs (bus ?t) sid = Some y" using c by (simp_all add: call_at_def frame_simps)
    from stop_join [OF this, of Thread_joined] have "bus_step ?t (?stopped ?y t)" using y(2) by (cases s) (simp add: go_def)
    then have "bus_step\<^sup>*\<^sup>* ?u (?stopped ?y t)" by (rule rtranclp.rtrancl_into_rtrancl [OF t(2)])
    then have "bus_step\<^sup>*\<^sup>* s (?stopped ?y t)" using bus_run [OF close bus_run [OF test]] True by simp
    moreover have "stop_subscription clock sid k (bus s) = Some (set_sub sid ?y (bus s), k')"
      using x y(1,2) True by (simp add: stop_subscription_def Let_def)
    ultimately show ?thesis using t(1) same [OF y(3)] by blast
  qed
qed

lemma stop_all_steps:
  assumes "bus_reach n s" and "call_at s i (Stopping sids)" and "mono clock" and "time s \<le> clock k"
  shows "\<exists>b k' t. stop_all clock sids k (bus s) = Some (b, k') \<and> t \<le> clock k' \<and>
    bus_step\<^sup>*\<^sup>* s (s\<lparr>bus := b, calls := (calls s)[i := Stopping []], time := t\<rparr>) \<and> topics b = topics (bus s) \<and>
    (\<forall>sid x. sub_objs (bus s) sid = Some x \<longrightarrow>
       (\<exists>y. sub_objs b sid = Some y \<and> (if sid \<in> set sids then stop_effect x y else y = x)))"
  using assms
proof (induction sids arbitrary: s k)
  case Nil
  then have "(calls s)[i := Stopping []] = calls s" by (metis call_at_def list_update_id)
  then show ?case using Nil(4) by (intro exI [of _ "bus s"] exI [of _ k] exI [of _ "time s"]) simp
next
  case (Cons sid sids)
  obtain x where x: "sub_objs (bus s) sid = Some x"
    using stop_inv_call [OF bus_stops.reachable_inv [OF Cons.prems(1)] Cons.prems(2)] by auto
  obtain y k1 t1 where y: "stop_subscription clock sid k (bus s) = Some (set_sub sid y (bus s), k1)" "t1 \<le> clock k1" "stop_effect x y"
    "bus_step\<^sup>*\<^sup>* s (s\<lparr>bus := set_sub sid y (bus s), calls := (calls s)[i := Stopping sids], time := t1\<rparr>)"
    using stop_one_steps [OF Cons.prems(1,2) x Cons.prems(3,4)] by blast
  let ?s = "s\<lparr>bus := set_sub sid y (bus s), calls := (calls s)[i := Stopping sids], time := t1\<rparr>"
  have "bus_reach n ?s" using y(4) Cons.prems(1) by (rule reachable_trans)
  moreover have "call_at ?s i (Stopping sids)" using Cons.prems(2) by (simp add: call_at_def)
  ultimately obtain b k2 t2 where b: "stop_all clock sids k1 (bus ?s) = Some (b, k2)" "t2 \<le> clock k2"
    "bus_step\<^sup>*\<^sup>* ?s (?s\<lparr>bus := b, calls := (calls ?s)[i := Stopping []], time := t2\<rparr>)" "topics b = topics (bus ?s)"
    "\<forall>sid x. sub_objs (bus ?s) sid = Some x \<longrightarrow> (\<exists>y. sub_objs b sid = Some y \<and> (if sid \<in> set sids then stop_effect x y else y = x))"
    using Cons.IH [of ?s k1] Cons.prems(3) y(2) by auto
  have "\<exists>z. sub_objs b a = Some z \<and> (if a \<in> set (sid # sids) then stop_effect u z else z = u)" if "sub_objs (bus s) a = Some u" for a u
  proof (cases "a = sid")
    case True
    then obtain z where "sub_objs b a = Some z" "if a \<in> set sids then stop_effect y z else z = y"
      using b(5) [rule_format, of sid y] by (auto simp: frame_simps)
    then show ?thesis using True that x y(3) stop_effect_trans [OF y(3)] by (auto split: if_splits)
  next
    case False
    then show ?thesis using b(5) that by (auto simp: frame_simps)
  qed
  moreover have "stop_all clock (sid # sids) k (bus s) = Some (b, k2)" using y(1) b(1) by simp
  moreover have "bus_step\<^sup>*\<^sup>* s (s\<lparr>bus := b, calls := (calls s)[i := Stopping []], time := t2\<rparr>)"
    using rtranclp_trans [OF y(4) b(3)] by simp
  ultimately show ?case using b(2,4) by (intro exI [of _ b] exI [of _ k2] exI [of _ t2]) (simp add: frame_simps)
qed

lemma stopping_steps:
  assumes "bus_reach n s" and "call_at s i (Stopping sids)" and "mono clock" and "time s \<le> clock k"
  obtains b k' t where "stop_all clock sids k (bus s) = Some (b, k')" "topics b = topics (bus s)"
    "bus_step\<^sup>*\<^sup>* s (s\<lparr>bus := b, calls := (calls s)[i := Idle_call], time := t\<rparr>)"
    "\<forall>sid x. sub_objs (bus s) sid = Some x \<longrightarrow> (\<exists>y. sub_objs b sid = Some y \<and> (if sid \<in> set sids then stop_effect x y else y = x))"
proof -
  obtain b k' t where b: "stop_all clock sids k (bus s) = Some (b, k')" "topics b = topics (bus s)"
    "bus_step\<^sup>*\<^sup>* s (s\<lparr>bus := b, calls := (calls s)[i := Stopping []], time := t\<rparr>)"
    "\<forall>sid x. sub_objs (bus s) sid = Some x \<longrightarrow> (\<exists>y. sub_objs b sid = Some y \<and> (if sid \<in> set sids then stop_effect x y else y = x))"
    using stop_all_steps [OF assms] by blast
  let ?s = "s\<lparr>bus := b, calls := (calls s)[i := Stopping []], time := t\<rparr>"
  have "call_at ?s i (Stopping [])" using assms(2) by (simp add: call_at_def)
  from stop_done [OF this] have "bus_step ?s (s\<lparr>bus := b, calls := (calls s)[i := Idle_call], time := t\<rparr>)"
    by (cases s) (simp add: go_def)
  then have "bus_step\<^sup>*\<^sup>* s (s\<lparr>bus := b, calls := (calls s)[i := Idle_call], time := t\<rparr>)" using b(3) by (rule rtranclp.rtrancl_into_rtrancl [rotated])
  then show ?thesis using that b(1,2,4) by blast
qed

lemma idle_again: "call_at s i Idle_call \<Longrightarrow> (calls s)[i := Idle_call] = calls s"
  by (metis call_at_def list_update_id)

text \<open>
  C12: undisturbed, \<^verbatim>\<open>shutdown\<close> always returns, and the interleaved machine has a run of the call to the result of the function. No
  topic then lists a subscriber or keeps history. Every subscription that was listed is closed, and if its worker had been started it
  has processed, in order, the message in its hands and everything that was queued, and has ended and been joined. Nothing
  happens to other subscriptions.
\<close>

theorem shutdown_refined:
  assumes "bus_reach n s" and "call_at s i Idle_call" and "mono clock" and "time s \<le> clock k"
  shows "\<exists>b k' t. shutdown clock k (bus s) = Some (b, k') \<and> bus_step\<^sup>*\<^sup>* s (s\<lparr>bus := b, time := t\<rparr>) \<and>
    (\<forall>kv\<in>set (topics b). entry_subs (snd kv) = [] \<and> entry_latched (snd kv) = []) \<and>
    (\<forall>sid x. sub_objs (bus s) sid = Some x \<longrightarrow>
       (\<exists>y. sub_objs b sid = Some y \<and> (if sid \<in> set (all_subs (bus s)) then stop_effect x y else y = x)))"
proof -
  obtain b0 where b0: "shutdown_locked (bus s) = (b0, all_subs (bus s))" by (simp add: shutdown_locked_def)
  let ?s = "go i (Stopping (all_subs (bus s))) b0 s"
  have lock: "bus_step s ?s" using assms(2) b0 by (rule shutdown_lock)
  have r: "bus_reach n ?s" using assms(1) lock by (rule reachable.move [where step = bus_step])
  have c: "call_at ?s i (Stopping (all_subs (bus s)))" using assms(2) by (simp add: call_at_def)
  have tm: "time ?s \<le> clock k" using assms(4) by simp
  have objs: "sub_objs b0 = sub_objs (bus s)" using bus_frames(4) [of "bus s"] b0 by simp
  obtain b k' t where b: "stop_all clock (all_subs (bus s)) k (bus ?s) = Some (b, k')" "topics b = topics (bus ?s)"
    "bus_step\<^sup>*\<^sup>* ?s (?s\<lparr>bus := b, calls := (calls ?s)[i := Idle_call], time := t\<rparr>)"
    "\<forall>sid x. sub_objs (bus ?s) sid = Some x \<longrightarrow>
       (\<exists>y. sub_objs b sid = Some y \<and> (if sid \<in> set (all_subs (bus s)) then stop_effect x y else y = x))"
    using stopping_steps [OF r c assms(3) tm] by metis
  have "?s\<lparr>bus := b, calls := (calls ?s)[i := Idle_call], time := t\<rparr> = s\<lparr>bus := b, time := t\<rparr>"
    using idle_again [OF assms(2)] by (cases s) (simp add: go_def)
  then have "bus_step\<^sup>*\<^sup>* s (s\<lparr>bus := b, time := t\<rparr>)" using bus_run [OF lock b(3)] by simp
  moreover have "shutdown clock k (bus s) = Some (b, k')" using b(1) b0 by (simp add: shutdown_def)
  moreover have "\<forall>kv\<in>set (topics b). entry_subs (snd kv) = [] \<and> entry_latched (snd kv) = []"
    using b(2) b0 by (auto simp: shutdown_locked_def)
  ultimately show ?thesis using b(4) objs by (intro exI [of _ b] exI [of _ k'] exI [of _ t]) simp
qed

text \<open>The same for \<^verbatim>\<open>unsubscribe\<close>, which stops one subscription and takes back its handle; on an empty handle it does nothing.\<close>

theorem unsubscribe_refined:
  assumes "bus_reach n s" and "call_at s i Idle_call" and "mono clock" and "time s \<le> clock k" and "sub_objs (bus s) sid = Some x"
  shows "\<exists>b k' t y. unsubscribe clock (Some sid) k (bus s) = Some (b, None, k') \<and> bus_step\<^sup>*\<^sup>* s (s\<lparr>bus := b, time := t\<rparr>) \<and>
    topics b = topics (unsubscribe_locked sid (bus s)) \<and> sub_objs b sid = Some y \<and> stop_effect x y"
proof -
  let ?s = "go i (Stopping [sid]) (unsubscribe_locked sid (bus s)) s"
  have lock: "bus_step s ?s" using assms(2,5) by (rule unsubscribe_lock)
  have r: "bus_reach n ?s" using assms(1) lock by (rule reachable.move [where step = bus_step])
  have c: "call_at ?s i (Stopping [sid])" using assms(2) by (simp add: call_at_def)
  have tm: "time ?s \<le> clock k" using assms(4) by simp
  obtain b k' t where b: "stop_all clock [sid] k (bus ?s) = Some (b, k')" "topics b = topics (bus ?s)"
    "bus_step\<^sup>*\<^sup>* ?s (?s\<lparr>bus := b, calls := (calls ?s)[i := Idle_call], time := t\<rparr>)"
    "\<forall>a x. sub_objs (bus ?s) a = Some x \<longrightarrow> (\<exists>y. sub_objs b a = Some y \<and> (if a \<in> set [sid] then stop_effect x y else y = x))"
    using stopping_steps [OF r c assms(3) tm] by metis
  have "?s\<lparr>bus := b, calls := (calls ?s)[i := Idle_call], time := t\<rparr> = s\<lparr>bus := b, time := t\<rparr>"
    using idle_again [OF assms(2)] by (cases s) (simp add: go_def)
  then have "bus_step\<^sup>*\<^sup>* s (s\<lparr>bus := b, time := t\<rparr>)" using bus_run [OF lock b(3)] by simp
  moreover have "unsubscribe clock (Some sid) k (bus s) = Some (b, None, k')"
    using b(1) by (auto simp: unsubscribe_def bind_eq_Some_conv)
  moreover obtain y where "sub_objs b sid = Some y" "stop_effect x y" using b(4) [rule_format, of sid x] assms(5) by (auto simp: frame_simps)
  ultimately show ?thesis using b(2) by auto
qed

lemma unsubscribe_empty_handle: "unsubscribe clock None k b = Some (b, None, k)"
  by (simp add: unsubscribe_def)

text \<open>A subscriber with one message queued is shut down at times 5, 6, \<dots>.\<close>

definition before_stop :: "(nat, nat) bus_sys" where
  "before_stop = the (run (take 6 closing_time) (idle_bus 2))"

theorem shutdown_refined_witness:
  "\<exists>b k' y. shutdown (\<lambda>j. 5 + int j) 0 (bus before_stop) = Some (b, k') \<and> sub_objs b 7 = Some y \<and>
     sub_worker_at y = Thread_joined \<and> map (payload \<circ> untag) (processed y) = [42]"
proof -
  have r: "bus_reach 2 before_stop" unfolding before_stop_def by (rule run_reach, rule runs) code_simp
  have c: "call_at before_stop 0 Idle_call" by code_simp
  have t: "time before_stop \<le> 5 + int 0" by code_simp
  have m: "mono (\<lambda>j. 5 + int j)" by (simp add: mono_def)
  have x: "sub_objs (bus before_stop) 7 = Some (the (sub_objs (bus before_stop) 7))" by (rule runs) code_simp
  have p: "7 \<in> set (all_subs (bus before_stop))" "sub_worker_at (the (sub_objs (bus before_stop) 7)) = At_pop"
    "map payload (items (sub_queue (the (sub_objs (bus before_stop) 7)))) = [42]"
    "processed (the (sub_objs (bus before_stop) 7)) = []" by code_simp+
  obtain b k' where b: "shutdown (\<lambda>j. 5 + int j) 0 (bus before_stop) = Some (b, k')"
    "\<forall>sid x. sub_objs (bus before_stop) sid = Some x \<longrightarrow>
       (\<exists>y. sub_objs b sid = Some y \<and> (if sid \<in> set (all_subs (bus before_stop)) then stop_effect x y else y = x))"
    using shutdown_refined [OF r c m t] by blast
  obtain y where y: "sub_objs b 7 = Some y" "stop_effect (the (sub_objs (bus before_stop) 7)) y"
    using b(2) [rule_format, OF x] p(1) by auto
  then have "sub_worker_at y = Thread_joined" "map untag (processed y) = items (sub_queue (the (sub_objs (bus before_stop) 7)))"
    using p by (simp_all add: stop_effect_def)
  then have "map (payload \<circ> untag) (processed y) = [42]" using p(3) by (metis list.map_comp)
  then show ?thesis using b(1) y(1) \<open>sub_worker_at y = Thread_joined\<close> by (intro exI [of _ b] exI [of _ k'] exI [of _ y]) simp
qed

end
