(* ===== verification/Time.thy ===== *)
theory Time
  imports Double
begin

text \<open>
  \<^verbatim>\<open>code/include/rdb/common/time.h\<close>: clock readings as counters, the conversions to milli- and microseconds, and
  the fixed-rate ticker. A clock is a parameter: the nanoseconds since its epoch at the moment of the
  call. Points in time are integers; the code holds them in 64 bits, which nanoseconds fill after 292 years.
\<close>

definition now_ns :: "nanos \<Rightarrow> u64" where
  "now_ns steady = of_int steady"

definition wall_ns :: "nanos \<Rightarrow> u64" where
  "wall_ns system = of_int system"

definition ns_to_ms :: "u64 \<Rightarrow> double" where
  "ns_to_ms ns = double_div (double_of_u64 ns) (Finite 1000000)"

definition ns_to_us :: "u64 \<Rightarrow> double" where
  "ns_to_us ns = double_div (double_of_u64 ns) (Finite 1000)"

section \<open>The ticker\<close>

text \<open>The conversion to \<^verbatim>\<open>int64_t\<close> truncates; a value that does not fit has no defined result.\<close>

fun double_to_i64 :: "double \<Rightarrow> int option" where
  "double_to_i64 (Finite x) =
     (let t = (if x < 0 then \<lceil>x\<rceil> else \<lfloor>x\<rfloor>) in if - (2 ^ 63) \<le> t \<and> t < 2 ^ 63 then Some t else None)"
| "double_to_i64 _ = None"

record Ticker =
  period :: nanos
  next_tick :: nanos

definition ticker_period :: "double \<Rightarrow> nanos option" where
  "ticker_period hz =
     double_to_i64 (double_div (Finite 1000000000) (if double_less (Finite 0) hz then hz else Finite 1))"

definition new_ticker :: "double \<Rightarrow> nanos \<Rightarrow> Ticker option" where
  "new_ticker hz now = map_option (\<lambda>p. \<lparr>period = p, next_tick = now\<rparr>) (ticker_period hz)"

text \<open>The new ticker, whether it caught up, and the time slept until, if any. \<open>now\<close> is the clock at the call.\<close>

definition sleep_until_next :: "nanos \<Rightarrow> Ticker \<Rightarrow> Ticker \<times> bool \<times> nanos option" where
  "sleep_until_next now t =
     (let t = t\<lparr>next_tick := next_tick t + period t\<rparr>
      in if next_tick t \<le> now then (t\<lparr>next_tick := now\<rparr>, True, None)
         else (t, False, Some (next_tick t)))"

text \<open>Successive calls at given times, with what each returned and slept until.\<close>

fun ticks :: "nanos list \<Rightarrow> Ticker \<Rightarrow> Ticker \<times> (bool \<times> nanos option) list" where
  "ticks [] t = (t, [])"
| "ticks (now # nows) t =
     (let (t, r) = sleep_until_next now t; (t, rs) = ticks nows t in (t, r # rs))"

lemma to_double_nat: "n \<le> 2 ^ 53 \<Longrightarrow> to_double (of_nat n) = Finite (of_nat n)"
proof -
  assume n: "n \<le> 2 ^ 53"
  then have "of_nat n \<le> (of_nat (2 ^ 53) :: rat)" unfolding of_nat_le_iff .
  then have "of_nat n \<le> (2 ^ 64 :: rat)" by simp
  then show ?thesis using to_double_finite [of "of_nat n"] rnd_nat [OF n] by simp
qed

text \<open>Whole milliseconds and microseconds convert exactly for the first 104 days.\<close>

lemma whole_units:
  assumes "unat ns = k * u" and "unat ns \<le> 2 ^ 53" and "0 < u"
  shows "double_div (double_of_u64 ns) (Finite (of_nat u)) = Finite (of_nat k)"
proof -
  have "k * 1 \<le> k * u" using assms(3) by (intro mult_le_mono2) simp
  then have k: "k \<le> 2 ^ 53" using assms(1,2) by linarith
  have "double_of_u64 ns = Finite (of_nat (k * u))"
    unfolding double_of_u64_def assms(1) using assms(1,2) by (intro to_double_nat) simp
  then show ?thesis using to_double_nat [OF k] assms(3) by simp
qed

lemma ns_to_ms_exact: "unat ns = k * 1000000 \<Longrightarrow> unat ns \<le> 2 ^ 53 \<Longrightarrow> ns_to_ms ns = Finite (of_nat k)"
  and ns_to_us_exact: "unat ns = k * 1000 \<Longrightarrow> unat ns \<le> 2 ^ 53 \<Longrightarrow> ns_to_us ns = Finite (of_nat k)"
  using whole_units [of ns k 1000000] whole_units [of ns k 1000] by (simp_all add: ns_to_ms_def ns_to_us_def)

section \<open>Rates\<close>

lemma double_to_i64_range:
  assumes "of_int a \<le> x" and "x \<le> of_int b" and "0 \<le> a" and "b < 2 ^ 63"
  shows "\<exists>p. double_to_i64 (Finite x) = Some p \<and> a \<le> p \<and> p \<le> b"
proof -
  have "0 \<le> x" using assms(1,3) by (meson of_int_0_le_iff order_trans)
  moreover have "a \<le> \<lfloor>x\<rfloor>" "\<lfloor>x\<rfloor> \<le> b" using assms(1,2) by (simp_all add: le_floor_iff floor_le_iff)
  moreover have "x < 2 ^ 63"
  proof -
    have "of_int b < (of_int (2 ^ 63) :: rat)" using assms(4) unfolding of_int_less_iff .
    then show ?thesis using assms(2) by simp
  qed
  ultimately show ?thesis using assms(3,4) by simp
qed

text \<open>
  The period of a ticker. A rate between one and \<open>10 ^ 9\<close> per second gives a period between one nanosecond
  and one second; a rate that is not positive, or no number, means one tick per second.
\<close>

theorem ticker_period_range:
  assumes "1 \<le> hz" and "hz \<le> 1000000000"
  shows "\<exists>p. ticker_period (Finite hz) = Some p \<and> 1 \<le> p \<and> p \<le> 1000000000"
proof -
  let ?q = "1000000000 / hz"
  have q: "1 \<le> ?q" "?q \<le> 1000000000" using assms by (simp_all add: field_simps)
  have r: "1 \<le> rnd ?q" "rnd ?q \<le> 1000000000"
    using rnd_mono [OF q(1)] rnd_mono [OF q(2)] rnd_nat [of 1000000000] by simp_all
  have "to_double ?q = Finite (rnd ?q)" 
  proof (rule to_double_finite)
    show "0 \<le> ?q" using order_trans [OF zero_le_one q(1)] .
    show "?q \<le> 2 ^ 64" using q(2) by simp
  qed
  then have "ticker_period (Finite hz) = double_to_i64 (Finite (rnd ?q))" using assms(1) by (simp add: ticker_period_def)
  then show ?thesis using double_to_i64_range [of 1 "rnd ?q" 1000000000] r by simp
qed

theorem ticker_period_default:
  "ticker_period NaN = Some 1000000000" "hz \<le> 0 \<Longrightarrow> ticker_period (Finite hz) = Some 1000000000"
  using to_double_nat [of 1000000000] by (simp_all add: ticker_period_def)

section \<open>No drift\<close>

text \<open>
  A call that comes less than one period after its tick keeps the schedule, however late it is; only a
  call that comes a whole period late or more gives the schedule up and starts a new one at that moment.
\<close>

lemma sleep_on_time: "now < next_tick t + period t \<Longrightarrow>
    sleep_until_next now t = (t\<lparr>next_tick := next_tick t + period t\<rparr>, False, Some (next_tick t + period t))"
  and sleep_late: "next_tick t + period t \<le> now \<Longrightarrow> sleep_until_next now t = (t\<lparr>next_tick := now\<rparr>, True, None)"
  by (simp_all add: sleep_until_next_def Let_def)

lemma ticks_append: "ticks (as @ bs) t = (let (t, rs) = ticks as t; (t, qs) = ticks bs t in (t, rs @ qs))"
  by (induction as arbitrary: t) (simp_all add: Let_def split: prod.splits)

lemma ticks_on_time:
  assumes "\<forall>k < length nows. nows ! k < next_tick t + int (Suc k) * period t"
  shows "ticks nows t = (t\<lparr>next_tick := next_tick t + int (length nows) * period t\<rparr>,
    map (\<lambda>k. (False, Some (next_tick t + int (Suc k) * period t))) [0..<length nows])"
  using assms
proof (induction nows arbitrary: t)
  case (Cons now nows)
  let ?t = "t\<lparr>next_tick := next_tick t + period t\<rparr>"
  have "now < next_tick t + period t" using Cons.prems [rule_format, of 0] by simp
  then have s: "sleep_until_next now t = (?t, False, Some (next_tick t + period t))" by (rule sleep_on_time)
  have "\<forall>k < length nows. nows ! k < next_tick ?t + int (Suc k) * period ?t"
  proof (intro allI impI)
    fix k assume "k < length nows"
    then show "nows ! k < next_tick ?t + int (Suc k) * period ?t"
      using Cons.prems [rule_format, of "Suc k"] by (simp add: algebra_simps)
  qed
  from Cons.IH [OF this] show ?case
    by (simp add: s upt_conv_Cons map_Suc_upt [symmetric] comp_def algebra_simps del: upt_Suc)
qed simp

text \<open>
  C37: from a catch-up at time \<open>now\<close> on, as long as the calls come before the tick after the one they are
  meant for, the ticker sleeps until exactly \<open>now + k * period\<close>: lateness within a period does not add up,
  and an overrun shifts the schedule once, to the moment it was noticed.
\<close>

theorem ticker_no_drift:
  assumes "next_tick t + period t \<le> now" and "\<forall>k < length nows. nows ! k < now + int (Suc k) * period t"
  shows "snd (ticks (now # nows) t) =
    (True, None) # map (\<lambda>k. (False, Some (now + int (Suc k) * period t))) [0..<length nows]"
proof -
  let ?t = "t\<lparr>next_tick := now\<rparr>"
  have "ticks nows ?t = (?t\<lparr>next_tick := now + int (length nows) * period t\<rparr>,
      map (\<lambda>k. (False, Some (now + int (Suc k) * period t))) [0..<length nows])"
    using ticks_on_time [of nows ?t] assms(2) by simp
  then show ?thesis by (simp add: sleep_late [OF assms(1)])
qed

theorem ticker_no_drift_witness:
  "snd (ticks [100, 105, 119] \<lparr>period = 10, next_tick = 20\<rparr>) = [(True, None), (False, Some 110), (False, Some 120)]"
proof -
  have "\<forall>k < length [105, 119]. [105, 119] ! k < (100 :: int) + int (Suc k) * period \<lparr>period = 10, next_tick = 20\<rparr>"
    by (simp add: less_Suc_eq)
  then show ?thesis using ticker_no_drift [of "\<lparr>period = 10, next_tick = 20\<rparr>" 100 "[105, 119]"] by simp
qed

theorem ticker_period_range_witness: "\<exists>p. ticker_period (Finite 1000) = Some p \<and> 1 \<le> p \<and> p \<le> 1000000000"
  by (rule ticker_period_range) simp_all

end
