(* ===== verification/Args.thy ===== *)
theory Args
  imports Prelude
begin

text \<open>
  \<^verbatim>\<open>code/bench/args.h\<close>: the command line of the benchmark programs. \<^verbatim>\<open>argv\<close> is a list of strings, \<^verbatim>\<open>argc\<close> its length,
  and a loop over the index is a recursion on it. \<open>atoll\<close> is the conversion of the C library as the standard
  describes it; where that leaves the result undefined, the model has none.
\<close>

section \<open>Numbers\<close>

definition is_space :: "char \<Rightarrow> bool" where
  "is_space c \<longleftrightarrow> c = CHR '' '' \<or> (let n = (of_char c :: nat) in 9 \<le> n \<and> n \<le> 13)"

definition is_digit :: "char \<Rightarrow> bool" where
  "is_digit c \<longleftrightarrow> (let n = (of_char c :: nat) in 48 \<le> n \<and> n \<le> 57)"

definition digit_value :: "char \<Rightarrow> nat" where
  "digit_value c = of_char c - 48"

definition digits_value :: "string \<Rightarrow> nat" where
  "digits_value ds = foldl (\<lambda>n c. 10 * n + digit_value c) 0 ds"

definition atoll :: "string \<Rightarrow> int option" where
  "atoll s =
     (let s = dropWhile is_space s;
          (neg, s) = (case s of c # cs \<Rightarrow> if c = CHR ''-'' then (True, cs) else if c = CHR ''+'' then (False, cs) else (False, s)
                      | [] \<Rightarrow> (False, []));
          n = int (digits_value (takeWhile is_digit s));
          v = (if neg then - n else n)
      in if - (2 ^ 63) \<le> v \<and> v < 2 ^ 63 then Some v else None)"

section \<open>Options\<close>

function find_value :: "nat \<Rightarrow> string list \<Rightarrow> string \<Rightarrow> string option" where
  "find_value i argv name =
     (if i + 1 < length argv
      then if argv ! i = name then Some (argv ! (i + 1)) else find_value (i + 1) argv name
      else None)"
  by pat_completeness auto

termination
  by (relation "measure (\<lambda>(i, argv, _). length argv - i)") auto

declare find_value.simps [simp del]

function find_flag :: "nat \<Rightarrow> string list \<Rightarrow> string \<Rightarrow> bool" where
  "find_flag i argv name \<longleftrightarrow>
     (if i < length argv then if argv ! i = name then True else find_flag (i + 1) argv name else False)"
  by pat_completeness auto

termination
  by (relation "measure (\<lambda>(i, argv, _). length argv - i)") auto

declare find_flag.simps [simp del]

definition arg_int :: "string list \<Rightarrow> string \<Rightarrow> int \<Rightarrow> int option" where
  "arg_int argv name fallback = (case find_value 1 argv name of Some v \<Rightarrow> atoll v | None \<Rightarrow> Some fallback)"

definition arg_str :: "string list \<Rightarrow> string \<Rightarrow> string \<Rightarrow> string" where
  "arg_str argv name fallback = (case find_value 1 argv name of Some v \<Rightarrow> v | None \<Rightarrow> fallback)"

definition arg_flag :: "string list \<Rightarrow> string \<Rightarrow> bool" where
  "arg_flag argv name = find_flag 1 argv name"

section \<open>Lookup\<close>

lemma find_value_Some:
  "find_value i argv name = Some v \<longleftrightarrow>
     (\<exists>j\<ge>i. j + 1 < length argv \<and> argv ! j = name \<and> argv ! (j + 1) = v \<and> (\<forall>k. i \<le> k \<and> k < j \<longrightarrow> argv ! k \<noteq> name))"
proof (induction i argv name rule: find_value.induct)
  case (1 i argv name)
  show ?case
  proof (cases "i + 1 < length argv \<and> argv ! i \<noteq> name")
    case True
    then have "find_value i argv name = find_value (i + 1) argv name" by (simp add: find_value.simps [of i])
    also have "\<dots> = Some v \<longleftrightarrow> (\<exists>j\<ge>i + 1. j + 1 < length argv \<and> argv ! j = name \<and> argv ! (j + 1) = v \<and>
        (\<forall>k. i + 1 \<le> k \<and> k < j \<longrightarrow> argv ! k \<noteq> name))" using 1 True by blast
    also have "\<dots> \<longleftrightarrow> (\<exists>j\<ge>i. j + 1 < length argv \<and> argv ! j = name \<and> argv ! (j + 1) = v \<and>
        (\<forall>k. i \<le> k \<and> k < j \<longrightarrow> argv ! k \<noteq> name))"
      using True by (metis Suc_eq_plus1 Suc_leD Suc_leI le_neq_implies_less)
    finally show ?thesis .
  next
    case False
    then show ?thesis by (subst find_value.simps) (auto, (metis le_refl le_neq_implies_less)?)
  qed
qed

lemma find_flag_iff: "find_flag i argv name \<longleftrightarrow> (\<exists>j\<ge>i. j < length argv \<and> argv ! j = name)"
proof (induction i argv name rule: find_flag.induct)
  case (1 i argv name)
  show ?case
  proof (cases "i < length argv \<and> argv ! i \<noteq> name")
    case True
    then have "find_flag i argv name \<longleftrightarrow> (\<exists>j\<ge>i + 1. j < length argv \<and> argv ! j = name)"
      using 1 by (simp add: find_flag.simps [of i])
    also have "\<dots> \<longleftrightarrow> (\<exists>j\<ge>i. j < length argv \<and> argv ! j = name)"
      using True by (metis Suc_eq_plus1 Suc_leD Suc_leI le_neq_implies_less)
    finally show ?thesis .
  qed (subst find_flag.simps, auto)
qed

text \<open>
  An option takes the argument after its first occurrence, the program's name and a trailing option
  without argument aside; without one the fallback is returned; a flag is set exactly if it occurs.
\<close>

theorem arg_lookup:
  "arg_str argv name fallback =
     (if \<exists>j\<ge>1. j + 1 < length argv \<and> argv ! j = name
      then argv ! ((LEAST j. 1 \<le> j \<and> argv ! j = name) + 1) else fallback) \<and>
   (arg_flag argv name \<longleftrightarrow> name \<in> set (tl argv))"
proof
  show "arg_flag argv name \<longleftrightarrow> name \<in> set (tl argv)"
    unfolding arg_flag_def find_flag_iff
    by (cases argv) (auto simp: in_set_conv_nth Suc_le_eq gr0_conv_Suc)
  show "arg_str argv name fallback =
     (if \<exists>j\<ge>1. j + 1 < length argv \<and> argv ! j = name
      then argv ! ((LEAST j. 1 \<le> j \<and> argv ! j = name) + 1) else fallback)"
  proof (cases "find_value 1 argv name")
    case None
    have "\<not> (\<exists>j\<ge>1. j + 1 < length argv \<and> argv ! j = name)"
    proof
      assume ex: "\<exists>j\<ge>1. j + 1 < length argv \<and> argv ! j = name"
      define j where "j = (LEAST j. 1 \<le> j \<and> j + 1 < length argv \<and> argv ! j = name)"
      have j: "1 \<le> j" "j + 1 < length argv" "argv ! j = name"
        using ex LeastI_ex [of "\<lambda>j. 1 \<le> j \<and> j + 1 < length argv \<and> argv ! j = name"] unfolding j_def by blast+
      have "argv ! k \<noteq> name" if "1 \<le> k" "k < j" for k
        using not_less_Least [of k "\<lambda>j. 1 \<le> j \<and> j + 1 < length argv \<and> argv ! j = name"] that j(2) unfolding j_def by auto
      then have "find_value 1 argv name = Some (argv ! (j + 1))" unfolding find_value_Some using j by blast
      then show False using None by simp
    qed
    then show ?thesis using None unfolding arg_str_def by auto
  next
    case (Some v)
    then obtain j where j: "1 \<le> j" "j + 1 < length argv" "argv ! j = name" "argv ! (j + 1) = v"
      "\<forall>k. 1 \<le> k \<and> k < j \<longrightarrow> argv ! k \<noteq> name" unfolding find_value_Some by blast
    have "(LEAST j. 1 \<le> j \<and> argv ! j = name) = j"
      by (rule Least_equality) (use j in \<open>auto simp: not_less [symmetric]\<close>)
    then show ?thesis using Some j by (auto simp: arg_str_def)
  qed
qed

section \<open>Decimal numerals\<close>

text \<open>A printer for the parser to invert.\<close>

fun decimal :: "nat \<Rightarrow> string" where
  "decimal n = (if n < 10 then [] else decimal (n div 10)) @ [char_of (48 + n mod 10)]"

declare decimal.simps [simp del]

definition decimal_int :: "int \<Rightarrow> string" where
  "decimal_int z = (if z < 0 then CHR ''-'' # decimal (nat (- z)) else decimal (nat z))"

lemma digit_char: "d < 10 \<Longrightarrow> is_digit (char_of (48 + d)) \<and> digit_value (char_of (48 + d)) = d"
  by (simp add: is_digit_def digit_value_def)

lemma decimal_digits: "list_all is_digit (decimal n) \<and> decimal n \<noteq> [] \<and> digits_value (decimal n) = n"
proof (induction n rule: decimal.induct)
  case (1 n)
  have d: "is_digit (char_of (48 + n mod 10))" "digit_value (char_of (48 + n mod 10)) = n mod 10"
    using digit_char [of "n mod 10"] by simp_all
  show ?case using 1 d by (subst (1 2 3) decimal.simps) (auto simp: digits_value_def)
qed

lemma digit_not_sign: "is_digit c \<Longrightarrow> c \<noteq> CHR ''-'' \<and> c \<noteq> CHR ''+'' \<and> \<not> is_space c"
  by (auto simp: is_digit_def is_space_def Let_def)

lemma take_digits:
  assumes "list_all is_digit ds" and "rest = [] \<or> \<not> is_digit (hd rest)"
  shows "takeWhile is_digit (ds @ rest) = ds"
  using assms by (cases rest) (simp_all add: list_all_iff takeWhile_append2)

text \<open>
  \<^verbatim>\<open>atoll\<close>, and so \<^verbatim>\<open>arg_int\<close>, reads back every 64-bit number from its decimal notation, whatever white space
  stands before and whatever that is not a digit stands after it.
\<close>

theorem atoll_decimal:
  assumes "- (2 ^ 63) \<le> z" and "z < 2 ^ 63" and "list_all is_space ws" and "rest = [] \<or> \<not> is_digit (hd rest)"
  shows "atoll (ws @ decimal_int z @ rest) = Some z"
proof -
  obtain d ds where ds: "decimal (nat \<bar>z\<bar>) = d # ds" and dig: "list_all is_digit (d # ds)" "digits_value (d # ds) = nat \<bar>z\<bar>"
    using decimal_digits [of "nat \<bar>z\<bar>"] by (cases "decimal (nat \<bar>z\<bar>)") auto
  have d: "d \<noteq> CHR ''-''" "d \<noteq> CHR ''+''" "\<not> is_space d" using dig(1) digit_not_sign by auto
  have t: "takeWhile is_digit (d # ds @ rest) = d # ds" using take_digits [OF dig(1) assms(4)] by simp
  have w: "dropWhile is_space (ws @ cs) = dropWhile is_space cs" for cs using assms(3) by (induction ws) simp_all
  have m: "\<not> is_space CHR ''-''" by (simp add: is_space_def)
  show ?thesis
  proof (cases "z < 0")
    case True
    then have z: "decimal_int z = CHR ''-'' # d # ds" using ds by (simp add: decimal_int_def)
    show ?thesis unfolding atoll_def w z using m t dig(2) True assms(1) by (simp add: Let_def)
  next
    case False
    then have z: "decimal_int z = d # ds" using ds by (simp add: decimal_int_def)
    show ?thesis unfolding atoll_def w z using d t dig(2) False assms(2) by (simp add: Let_def)
  qed
qed

theorem atoll_decimal_witness: "atoll ('' '' @ decimal_int (- 250) @ ''ms'') = Some (- 250)"
  by (rule atoll_decimal) (simp_all add: is_space_def is_digit_def)

end
