(* ===== verification/Printf.thy ===== *)
theory Printf
  imports Double Args
begin

text \<open>
  The conversions of \<^verbatim>\<open>printf\<close> and \<^verbatim>\<open>snprintf\<close> that the program uses: integers in decimal, \<^verbatim>\<open>%.Nf\<close>
  (correctly rounded, ties to even), and field widths. The integer printers \<open>decimal\<close> and \<open>decimal_int\<close> are those
  of \<open>Args\<close>. A negative zero prints as the positive one, since \<open>Double\<close> does not tell them apart, and the sign that a
  library may print before \<^verbatim>\<open>nan\<close> is left out.

  Shown are the length of each conversion, which is what a fixed buffer has to hold, and that reading a
  printed number back gives the number up to half a unit of the last digit.
\<close>

section \<open>Conversions\<close>

definition newline :: string where
  "newline = [char_of (10 :: nat)]"

text \<open>Text beyond ASCII, by its bytes.\<close>

definition utf8 :: "nat list \<Rightarrow> string" where
  "utf8 bs = map char_of bs"

definition pad_left :: "nat \<Rightarrow> char \<Rightarrow> string \<Rightarrow> string" where
  "pad_left w c s = replicate (w - length s) c @ s"

definition pad_right :: "nat \<Rightarrow> string \<Rightarrow> string" where
  "pad_right w s = s @ replicate (w - length s) CHR '' ''"

text \<open>\<open>k\<close> units of \<open>10\<close> to the power of \<open>- n\<close>.\<close>

definition fixed_point :: "nat \<Rightarrow> nat \<Rightarrow> string" where
  "fixed_point n k =
     decimal (k div 10 ^ n) @ (if n = 0 then [] else CHR ''.'' # pad_left n CHR ''0'' (decimal (k mod 10 ^ n)))"

fun print_fixed :: "nat \<Rightarrow> double \<Rightarrow> string" where
  "print_fixed n (Finite x) = (if x < 0 then ''-'' else '''') @ fixed_point n (nat (round_even (\<bar>x\<bar> * 10 ^ n)))"
| "print_fixed n (Infinity s) = (if s then ''-inf'' else ''inf'')"
| "print_fixed n NaN = ''nan''"

definition print_u64 :: "u64 \<Rightarrow> string" where
  "print_u64 n = decimal (unat n)"

text \<open>\<^verbatim>\<open>snprintf\<close> into a buffer of \<open>room\<close> characters: one is for the terminator.\<close>

definition snprintf :: "nat \<Rightarrow> string \<Rightarrow> string" where
  "snprintf room s = take (room - 1) s"

text \<open>A double literal and the conversion of a \<^verbatim>\<open>long long\<close>.\<close>

definition double_of_int :: "int \<Rightarrow> double" where
  "double_of_int z = to_double (of_int z)"

section \<open>Lengths\<close>

lemma decimal_length:
  assumes "n < 10 ^ k" and "0 < k"
  shows "length (decimal n) \<le> k"
  using assms
proof (induction n arbitrary: k rule: decimal.induct)
  case (1 n)
  show ?case
  proof (cases "n < 10")
    case True
    then show ?thesis using 1(3) by (subst decimal.simps) simp
  next
    case False
    then have k: "1 < k" using 1(2,3) by (cases "k = 1") auto
    then have "n div 10 < 10 ^ (k - 1)"
      using 1(2) by (simp add: div_less_iff_less_mult power_eq_if mult.commute)
    then have "length (decimal (n div 10)) \<le> k - 1" using 1(1) [OF False, of "k - 1"] k by simp
    then show ?thesis using False k by (subst decimal.simps) simp
  qed
qed

lemma print_u64_length: "length (print_u64 n) \<le> 20"
proof -
  have "unat n < 10 ^ 20" using unat_u64_less [of n] by simp
  then show ?thesis unfolding print_u64_def by (rule decimal_length) simp
qed

lemma pad_left_length [simp]: "length (pad_left w c s) = max w (length s)"
  by (simp add: pad_left_def)

lemma pad_right_length [simp]: "length (pad_right w s) = max w (length s)"
  by (simp add: pad_right_def)

lemma fixed_point_length:
  assumes "k < 10 ^ (m + n)" and "0 < m"
  shows "length (fixed_point n k) \<le> m + (if n = 0 then 0 else Suc n)"
proof -
  have "k div 10 ^ n < 10 ^ m" using assms(1) by (simp add: div_less_iff_less_mult power_add)
  then have "length (decimal (k div 10 ^ n)) \<le> m" using assms(2) by (rule decimal_length)
  moreover have "length (decimal (k mod 10 ^ n)) \<le> n" if "n \<noteq> 0" using that by (intro decimal_length) simp_all
  ultimately show ?thesis by (auto simp: fixed_point_def)
qed

text \<open>A number of up to \<open>2 ^ 64\<close> takes at most 20 digits before the point.\<close>

lemma print_fixed_length:
  assumes "0 \<le> x" and "x \<le> 2 ^ 64"
  shows "length (print_fixed n (Finite x)) \<le> 20 + (if n = 0 then 0 else Suc n)"
proof -
  have "x * 10 ^ n \<le> of_int (2 ^ 64 * 10 ^ n)" using assms by (simp add: mult_right_mono)
  then have "round_even (x * 10 ^ n) \<le> 2 ^ 64 * 10 ^ n" by (metis round_even_mono round_even_of_int)
  also have "\<dots> < 10 ^ 20 * 10 ^ n" by (intro mult_strict_right_mono) simp_all
  finally have "round_even (x * 10 ^ n) < 10 ^ (20 + n)" by (simp only: power_add)
  then have "nat (round_even (x * 10 ^ n)) < 10 ^ (20 + n)" by (simp add: nat_less_iff)
  then show ?thesis using assms(1) fixed_point_length [of _ 20 n] by simp
qed

section \<open>Reading back\<close>

text \<open>The rational a decimal numeral stands for.\<close>

definition fixed_value :: "string \<Rightarrow> rat" where
  "fixed_value s =
     (let neg = (s \<noteq> [] \<and> hd s = CHR ''-'');
          t = (if neg then tl s else s);
          whole = takeWhile is_digit t;
          frac = drop (Suc (length whole)) t;
          v = of_nat (digits_value whole) + of_nat (digits_value frac) / 10 ^ length frac
      in if neg then - v else v)"

lemma digits_value_zeros: "digits_value (replicate m CHR ''0'' @ s) = digits_value s"
  by (induction m) (simp_all add: digits_value_def digit_value_def)

lemma fixed_value_fixed_point:
  "fixed_value (fixed_point n k) = of_nat k / 10 ^ n" (is ?pos)
  "fixed_value (CHR ''-'' # fixed_point n k) = - (of_nat k / 10 ^ n)" (is ?neg)
proof -
  let ?w = "decimal (k div 10 ^ n)" and ?f = "pad_left n CHR ''0'' (decimal (k mod 10 ^ n))"
  have w: "list_all is_digit ?w" "?w \<noteq> []" "digits_value ?w = k div 10 ^ n" using decimal_digits by simp_all
  have f: "length ?f = n" "digits_value ?f = k mod 10 ^ n" if "n \<noteq> 0"
    using decimal_length [of "k mod 10 ^ n" n] that decimal_digits [of "k mod 10 ^ n"]
    by (simp_all add: max_absorb1 pad_left_def digits_value_zeros)
  have dot: "\<not> is_digit CHR ''.''" by (simp add: is_digit_def)
  have t: "takeWhile is_digit (fixed_point n k) = ?w"
    using take_digits [OF w(1), of "CHR ''.'' # ?f"] take_digits [OF w(1), of "[]"] dot by (simp add: fixed_point_def)
  have "hd ?w \<noteq> CHR ''-''" using w(1,2) digit_not_sign by (cases ?w) auto
  then have sign: "fixed_point n k \<noteq> []" "hd (fixed_point n k) \<noteq> CHR ''-''"
    using w(2) by (auto simp: fixed_point_def hd_append)
  have rest: "drop (Suc (length ?w)) (fixed_point n k) = (if n = 0 then [] else ?f)" by (simp add: fixed_point_def)
  have sum: "of_nat (k div 10 ^ n) + of_nat (k mod 10 ^ n) / 10 ^ n = (of_nat k :: rat) / 10 ^ n"
  proof -
    have "(of_nat k :: rat) = of_nat (k div 10 ^ n * 10 ^ n + k mod 10 ^ n)" by (simp only: div_mult_mod_eq)
    then have "(of_nat k :: rat) / 10 ^ n = (of_nat (k div 10 ^ n) * 10 ^ n + of_nat (k mod 10 ^ n)) / 10 ^ n"
      by (simp only: of_nat_add of_nat_mult of_nat_power of_nat_numeral)
    then show ?thesis by (simp add: add_divide_distrib)
  qed
  have frac: "of_nat (digits_value (if n = 0 then [] else ?f)) / 10 ^ length (if n = 0 then [] else ?f) =
      (of_nat (k mod 10 ^ n) :: rat) / 10 ^ n"
    using f by (cases "n = 0") (simp_all add: digits_value_def del: pad_left_length)
  have "fixed_value (fixed_point n k) = of_nat (k div 10 ^ n) + of_nat (k mod 10 ^ n) / 10 ^ n"
    unfolding fixed_value_def Let_def using sign by (simp only: t rest w(3) frac simp_thms if_False if_True)
  then show ?pos by (simp only: sum)
  have "fixed_value (CHR ''-'' # fixed_point n k) = - (of_nat (k div 10 ^ n) + of_nat (k mod 10 ^ n) / 10 ^ n)"
    unfolding fixed_value_def Let_def by (simp only: list.sel list.distinct not_False_eq_True t rest w(3) frac simp_thms if_True)
  then show ?neg by (simp only: sum)
qed

lemma round_even_error: "\<bar>of_int (round_even x) - x\<bar> \<le> 1 / 2"
proof -
  have "of_int \<lfloor>x\<rfloor> \<le> x" "x < of_int \<lfloor>x\<rfloor> + 1" by linarith+
  then have "0 \<le> x - of_int \<lfloor>x\<rfloor>" "x - of_int \<lfloor>x\<rfloor> < 1" by linarith+
  moreover have "of_int (round_even x) - x = - (x - of_int \<lfloor>x\<rfloor>) \<and> x - of_int \<lfloor>x\<rfloor> \<le> 1 / 2 \<or>
      of_int (round_even x) - x = 1 - (x - of_int \<lfloor>x\<rfloor>) \<and> 1 / 2 \<le> x - of_int \<lfloor>x\<rfloor>"
    unfolding round_even_def Let_def by simp
  ultimately show ?thesis by (elim disjE) linarith+
qed

lemma signed_error: "\<bar>k - \<bar>x\<bar>\<bar> \<le> e \<Longrightarrow> v = (if x < 0 then - k else k) \<Longrightarrow> \<bar>v - x\<bar> \<le> e" for x :: rat
  by (simp split: if_splits)

text \<open>
  A printed number, read back, is the number up to half a unit of the last printed digit, whatever its
  size and sign.
\<close>

lemma print_fixed_accurate:
  "\<bar>fixed_value (print_fixed n (Finite x)) - x\<bar> \<le> 1 / (2 * 10 ^ n)"
proof -
  let ?k = "round_even (\<bar>x\<bar> * 10 ^ n)"
  have k: "0 \<le> ?k" using round_even_mono [of 0 "\<bar>x\<bar> * 10 ^ n"] round_even_of_int [of 0] by simp
  have "\<bar>of_int ?k - \<bar>x\<bar> * 10 ^ n\<bar> / 10 ^ n \<le> 1 / 2 / 10 ^ n"
    using round_even_error by (intro divide_right_mono) simp_all
  moreover have "\<bar>of_int ?k - \<bar>x\<bar> * 10 ^ n\<bar> / 10 ^ n = \<bar>of_int ?k / 10 ^ n - \<bar>x\<bar>\<bar>"
  proof -
    have "\<bar>of_int ?k - \<bar>x\<bar> * 10 ^ n\<bar> / 10 ^ n = \<bar>(of_int ?k - \<bar>x\<bar> * 10 ^ n) / 10 ^ n\<bar>" by simp
    also have "(of_int ?k - \<bar>x\<bar> * 10 ^ n) / 10 ^ n = of_int ?k / 10 ^ n - \<bar>x\<bar>" by (simp add: diff_divide_distrib)
    finally show ?thesis .
  qed
  ultimately have "\<bar>of_int ?k / 10 ^ n - \<bar>x\<bar>\<bar> \<le> 1 / (2 * 10 ^ n)" by simp
  moreover have "fixed_value (print_fixed n (Finite x)) = (if x < 0 then - (of_int ?k / 10 ^ n) else of_int ?k / 10 ^ n)"
  proof -
    have "(of_nat (nat ?k) :: rat) = of_int ?k" using k by (rule of_nat_nat)
    then show ?thesis unfolding print_fixed.simps
      by (simp only: if_distrib [of fixed_value] append.simps fixed_value_fixed_point split: if_split) simp
  qed
  ultimately show ?thesis by (rule signed_error)
qed

end
