(* ===== verification/Summary.thy ===== *)
theory Summary
  imports Histogram Printf
begin

text \<open>
  \<^verbatim>\<open>Histogram::summary\<close> (\<^verbatim>\<open>code/include/rdb/metrics/histogram.h\<close>): the line of figures a benchmark prints, formatted into a
  buffer of 256 characters.
\<close>

definition scaled :: "u64 \<Rightarrow> double \<Rightarrow> double" where
  "scaled v scale = double_div (double_of_u64 v) scale"

definition summary_text :: "Histogram \<Rightarrow> string \<Rightarrow> double \<Rightarrow> string" where
  "summary_text h unit scale =
     ''n='' @ print_u64 (count_f h) @
     '' min='' @ print_fixed 2 (scaled (min_value h) scale) @
     '' p50='' @ print_fixed 2 (scaled (percentile h (Finite 50)) scale) @
     '' p90='' @ print_fixed 2 (scaled (percentile h (Finite 90)) scale) @
     '' p99='' @ print_fixed 2 (scaled (percentile h (Finite 99)) scale) @
     '' p99.9='' @ print_fixed 2 (scaled (percentile h (to_double (999 / 10))) scale) @
     '' max='' @ print_fixed 2 (scaled (max_value h) scale) @
     '' mean='' @ print_fixed 2 (double_div (mean_value h) scale) @ '' ('' @ unit @ '')''"

definition summary :: "Histogram \<Rightarrow> string \<Rightarrow> double \<Rightarrow> string" where
  "summary h unit scale = snprintf 256 (summary_text h unit scale)"

section \<open>The buffer is large enough\<close>

text \<open>Figures of up to 64 bits, divided by a scale of at least 1, stay figures of up to 64 bits.\<close>

definition figure :: "double \<Rightarrow> bool" where
  "figure d \<longleftrightarrow> (\<exists>x. d = Finite x \<and> 0 \<le> x \<and> x \<le> 2 ^ 64)"

lemma to_double_figure:
  assumes "0 \<le> x" and "x \<le> 2 ^ 64"
  shows "figure (to_double x)"
proof -
  have "rnd (2 ^ 64) = 2 ^ 64" using rnd_exact [of 1 64 "2 ^ 64"] by (simp add: rnd_def)
  then have "0 \<le> rnd x" "rnd x \<le> 2 ^ 64" using rnd_mono [OF assms(1)] rnd_mono [OF assms(2)] by simp_all
  then show ?thesis using to_double_finite [OF assms] by (simp add: figure_def)
qed

lemma u64_rat_le: "of_nat (unat n) \<le> (2 ^ 64 :: rat)" for n :: u64
proof -
  have "of_nat (unat n) \<le> (of_nat (2 ^ 64) :: rat)" using unat_u64_less [of n] by (intro of_nat_mono) simp
  then show ?thesis by simp
qed

lemma double_of_u64_figure: "figure (double_of_u64 n)"
  unfolding double_of_u64_def by (intro to_double_figure of_nat_0_le_iff u64_rat_le)

lemma double_div_figure:
  assumes "figure d" and "1 \<le> c"
  shows "figure (double_div d (Finite c))"
proof -
  obtain x where x: "d = Finite x" "0 \<le> x" "x \<le> 2 ^ 64" using assms(1) by (auto simp: figure_def)
  have "x / c \<le> x" using x(2) assms(2) by (simp add: divide_le_eq mult_le_cancel_left1)
  then show ?thesis using x assms(2) by (auto intro!: to_double_figure)
qed

lemma mean_figure: "figure (mean_value h)"
proof (cases "count_f h = 0")
  case False
  then have "0 < unat (count_f h)" by (simp add: unat_gt_0)
  then have "(of_nat 1 :: rat) \<le> of_nat (unat (count_f h))" by (intro of_nat_mono) simp
  then have "1 \<le> rnd (of_nat (unat (count_f h)))" using rnd_mono [of 1 "of_nat (unat (count_f h))"] by simp
  moreover have "double_of_u64 (count_f h) = Finite (rnd (of_nat (unat (count_f h))))"
    unfolding double_of_u64_def by (intro to_double_finite of_nat_0_le_iff u64_rat_le)
  ultimately show ?thesis using False double_div_figure [OF double_of_u64_figure] by (simp add: mean_value_def)
qed (simp add: mean_value_def figure_def)

lemma print_figure_length: "figure d \<Longrightarrow> length (print_fixed 2 d) \<le> 23"
  using print_fixed_length [of _ 2] by (auto simp: figure_def simp del: print_fixed.simps)

text \<open>
  C40: the 256 characters of \<^verbatim>\<open>summary\<close> are enough: with a scale of at least 1 and a unit of up to 31
  characters nothing is cut off, whatever was recorded.
\<close>

theorem summary_not_truncated:
  assumes "1 \<le> c" and "length unit \<le> 31"
  shows "summary h unit (Finite c) = summary_text h unit (Finite c)"
proof -
  have s: "length (print_fixed 2 (scaled v (Finite c))) \<le> 23" for v
    unfolding scaled_def using assms(1) by (intro print_figure_length double_div_figure double_of_u64_figure)
  have m: "length (print_fixed 2 (double_div (mean_value h) (Finite c))) \<le> 23"
    using assms(1) by (intro print_figure_length double_div_figure mean_figure)
  have "length (summary_text h unit (Finite c)) \<le> 255"
    using print_u64_length [of "count_f h"] s [of "min_value h"] s [of "percentile h (Finite 50)"] s [of "percentile h (Finite 90)"]
      s [of "percentile h (Finite 99)"] s [of "percentile h (to_double (999 / 10))"] s [of "max_value h"] m assms(2)
    unfolding summary_text_def by simp
  then show ?thesis by (simp add: summary_def snprintf_def)
qed

theorem summary_not_truncated_witness:
  "summary new_histogram ''us'' (Finite 1000) =
   ''n=0 min=0.00 p50=0.00 p90=0.00 p99=0.00 p99.9=0.00 max=0.00 mean=0.00 (us)''"
proof -
  have "summary new_histogram ''us'' (Finite 1000) = summary_text new_histogram ''us'' (Finite 1000)"
    by (rule summary_not_truncated) simp_all
  also have "\<dots> = ''n=0 min=0.00 p50=0.00 p90=0.00 p99=0.00 p99.9=0.00 max=0.00 mean=0.00 (us)''"
  proof -
    have zero: "double_of_u64 0 = Finite 0" "double_div (Finite 0) (Finite 1000) = Finite 0"
      by (simp_all add: double_of_u64_def to_double_def)
    have d: "decimal 0 = ''0''" by code_simp
    then have "print_fixed 2 (Finite 0) = ''0.00''" "print_u64 0 = ''0''"
      using round_even_of_int [of 0] by (simp_all add: fixed_point_def pad_left_def print_u64_def)
    then have "print_fixed 2 (scaled 0 (Finite 1000)) = ''0.00''" "print_fixed 2 (double_div (Finite 0) (Finite 1000)) = ''0.00''"
      "print_u64 0 = ''0''" by (simp_all only: scaled_def zero)
    moreover have "count_f new_histogram = 0" "min_value new_histogram = 0" "max_value new_histogram = 0"
      "percentile new_histogram p = 0" "mean_value new_histogram = Finite 0" for p
      by (simp_all add: new_histogram_def min_value_def max_value_def percentile_def mean_value_def)
    ultimately show ?thesis by (simp only: summary_text_def) simp
  qed
  finally show ?thesis .
qed

end
