(* ===== verification/Check.thy ===== *)
theory Check
  imports Printf
begin

text \<open>
  \<^verbatim>\<open>code/include/rdb/testing/check.h\<close>: the registry of test cases, the polling wait, the assertion macros and the runner with its
  output and exit code. Running a test function is a parameter: it returns, or throws an \<^verbatim>\<open>AssertionFailure\<close> or another
  exception, with the text of \<^verbatim>\<open>what()\<close>.
\<close>

section \<open>Tests and their registry\<close>

datatype test_error = AssertionFailure string | Other_exception string

record TestCase =
  test_name :: string
  test_fn :: "test_error + unit"

definition register_test :: "string \<Rightarrow> test_error + unit \<Rightarrow> TestCase list \<Rightarrow> TestCase list" where
  "register_test name fn cases = cases @ [\<lparr>test_name = name, test_fn = fn\<rparr>]"

definition location :: "string \<Rightarrow> int \<Rightarrow> string" where
  "location file line = file @ '':'' @ decimal_int line"

section \<open>Assertions\<close>

text \<open>The macros, with the text of their arguments; \<open>Inr ()\<close> goes on.\<close>

definition rdb_check :: "string \<Rightarrow> int \<Rightarrow> string \<Rightarrow> bool \<Rightarrow> test_error + unit" where
  "rdb_check file line cond_text cond =
     (if \<not> cond then Inl (AssertionFailure (location file line @ '' expected true: '' @ cond_text)) else Inr ())"

definition rdb_check_eq :: "string \<Rightarrow> int \<Rightarrow> string \<Rightarrow> string \<Rightarrow> 'a \<Rightarrow> 'a \<Rightarrow> test_error + unit" where
  "rdb_check_eq file line lhs_text rhs_text lhs rhs =
     (if \<not> lhs = rhs then Inl (AssertionFailure (location file line @ '' expected '' @ lhs_text @ '' == '' @ rhs_text)) else Inr ())"

definition rdb_check_lt :: "string \<Rightarrow> int \<Rightarrow> string \<Rightarrow> string \<Rightarrow> 'a::ord \<Rightarrow> 'a \<Rightarrow> test_error + unit" where
  "rdb_check_lt file line lhs_text rhs_text lhs rhs =
     (if \<not> lhs < rhs then Inl (AssertionFailure (location file line @ '' expected '' @ lhs_text @ '' < '' @ rhs_text)) else Inr ())"

definition rdb_check_ge :: "string \<Rightarrow> int \<Rightarrow> string \<Rightarrow> string \<Rightarrow> 'a::ord \<Rightarrow> 'a \<Rightarrow> test_error + unit" where
  "rdb_check_ge file line lhs_text rhs_text lhs rhs =
     (if \<not> lhs \<ge> rhs then Inl (AssertionFailure (location file line @ '' expected '' @ lhs_text @ '' >= '' @ rhs_text)) else Inr ())"

section \<open>Waiting for a condition\<close>

text \<open>
  The loop over what its rounds see: the clock at the loop condition, and the predicate after it. The round that finds
  the deadline passed evaluates the predicate a last time.
\<close>

fun wait_for :: "nanos \<Rightarrow> (nanos \<times> bool) list \<Rightarrow> bool option" where
  "wait_for deadline [] = None"
| "wait_for deadline ((now, pred) # rounds) =
     (if now < deadline then if pred then Some True else wait_for deadline rounds else Some pred)"

section \<open>The runner\<close>

definition run_test :: "TestCase \<Rightarrow> string \<times> nat \<Rightarrow> string \<times> nat" where
  "run_test tc st =
     (case st of (out, failed) \<Rightarrow>
        (case test_fn tc of
           Inr _ \<Rightarrow> (out @ ''[  PASS  ] '' @ test_name tc @ newline, failed)
         | Inl (AssertionFailure m) \<Rightarrow> (out @ ''[  FAIL  ] '' @ test_name tc @ newline @ ''           '' @ m @ newline, failed + 1)
         | Inl (Other_exception m) \<Rightarrow> (out @ ''[ THROW  ] '' @ test_name tc @ newline @ ''           '' @ m @ newline, failed + 1)))"

definition run_all :: "TestCase list \<Rightarrow> string \<times> nat" where
  "run_all cases =
     (case fold run_test cases ([], 0) of (out, failed) \<Rightarrow>
        (out @ decimal (length cases) @ '' tests, '' @ decimal failed @ '' failed'' @ newline, if failed = 0 then 0 else 1))"

section \<open>Verdicts\<close>

lemma run_tests_failed: "snd (fold run_test cases st) = snd st + length (filter (\<lambda>tc. test_fn tc \<noteq> Inr ()) cases)"
  by (induction cases arbitrary: st) (auto simp: run_test_def split: sum.splits test_error.splits prod.splits)

text \<open>The exit code is 0 exactly if no registered test threw anything, and the count of failures is exact.\<close>

theorem run_all_verdict:
  "(snd (run_all cases) = 0 \<longleftrightarrow> (\<forall>tc\<in>set cases. test_fn tc = Inr ())) \<and>
   (\<exists>out. fst (run_all cases) = out @ decimal (length cases) @ '' tests, '' @
      decimal (length (filter (\<lambda>tc. test_fn tc \<noteq> Inr ()) cases)) @ '' failed'' @ newline)"
  using run_tests_failed [of cases "([], 0)"] by (auto simp: run_all_def filter_empty_conv split: prod.splits)

text \<open>A wait with a round after the deadline ends, with true exactly if some round up to the first late one saw the predicate hold.\<close>

theorem wait_for_result:
  assumes "\<exists>r\<in>set rounds. deadline \<le> fst r"
  shows "\<exists>k < length rounds. (\<forall>j<k. fst (rounds ! j) < deadline \<and> \<not> snd (rounds ! j)) \<and>
    (deadline \<le> fst (rounds ! k) \<or> snd (rounds ! k)) \<and> wait_for deadline rounds = Some (snd (rounds ! k))"
  using assms
proof (induction rounds)
  case (Cons r rounds)
  show ?case
  proof (cases "fst r < deadline \<and> \<not> snd r")
    case True
    then obtain k where "k < length rounds" "\<forall>j<k. fst (rounds ! j) < deadline \<and> \<not> snd (rounds ! j)"
      "deadline \<le> fst (rounds ! k) \<or> snd (rounds ! k)" "wait_for deadline rounds = Some (snd (rounds ! k))"
      using Cons by auto
    then show ?thesis using True by (intro exI [of _ "Suc k"]) (cases r, auto simp: less_Suc_eq_0_disj)
  next
    case False
    then show ?thesis by (intro exI [of _ 0]) (cases r, auto)
  qed
qed simp

end
