(* ===== verification/Bench_Queues.thy ===== *)
theory Bench_Queues
  imports "HOL-Library.Signed_Division" Time Ring_Machine Queue_Machine
begin

text \<open>
  \<^verbatim>\<open>code/bench/bench_queue_throughput.cpp\<close>: the two measured programs, on top of the state machines of the
  queues they use. Each thread's program says which operations it starts; everything else is a step of the
  queue's own machine. Shown is that the programs count what they claim to count: when the consumer has
  ended, it has received every element that was produced.
\<close>

section \<open>Results\<close>

record Result =
  seconds :: double
  msgs_per_sec :: double
  consumed_n :: u64

definition bench_result :: "nanos \<Rightarrow> nanos \<Rightarrow> u64 \<Rightarrow> Result" where
  "bench_result start stop n =
     (let secs = double_div (double_of_u64 (now_ns stop - now_ns start)) (Finite 1000000000)
      in \<lparr>seconds = secs,
          msgs_per_sec = double_div (double_of_u64 n) (if double_less (Finite 0) secs then secs else Finite 1),
          consumed_n = n\<rparr>)"

section \<open>Producers and one consumer on a bounded queue\<close>

text \<open>The share of one producer; a division by zero has no result, and neither has one that overflows.\<close>

definition per_producer :: "int \<Rightarrow> int \<Rightarrow> int option" where
  "per_producer number producers = (if producers = 0 \<or> number = - (2 ^ 63) \<and> producers = - 1 then None else Some (number sdiv producers))"

text \<open>How many pushes of thread \<open>p\<close> have returned.\<close>

fun is_push :: "'a ret \<Rightarrow> bool" where
  "is_push (RPush v st) = True"
| "is_push _ = False"

definition pushes :: "nat \<Rightarrow> (nat \<times> 'a ret) list \<Rightarrow> nat" where
  "pushes p l = length (filter (\<lambda>e. fst e = p \<and> is_push (snd e)) l)"

definition writers_done :: "nat \<Rightarrow> nat \<Rightarrow> u64 qsys \<Rightarrow> bool" where
  "writers_done P n s \<longleftrightarrow> (\<forall>p\<in>{1..P}. threads s ! p = Idle \<and> pushes p (log s) = n)"

text \<open>
  Thread 0 is the consumer, threads \<open>1\<close> to \<open>P\<close> are the writers of \<open>n\<close> elements each, thread \<open>P + 1\<close> is the main
  one, which closes the queue once the writers are joined. \<open>inside\<close> is any step of a call in progress.
\<close>

definition idle_stays :: "'a qsys \<Rightarrow> 'a qsys \<Rightarrow> bool" where
  "idle_stays s s' \<longleftrightarrow> (\<forall>t < length (threads s). threads s ! t = Idle \<longrightarrow> threads s' ! t = Idle) \<and>
     (\<forall>e\<in>set (drop (length (log s)) (log s')). fst e < length (threads s) \<longrightarrow> threads s ! fst e \<noteq> Idle)"

inductive bench_queue_step :: "nat \<Rightarrow> nat \<Rightarrow> u64 qsys \<Rightarrow> u64 qsys \<Rightarrow> bool" for P n where
  write_next:
    "p \<in> {1..P} \<Longrightarrow> threads s ! p = Idle \<Longrightarrow> pushes p (log s) < n \<Longrightarrow> v = of_nat (pushes p (log s)) \<Longrightarrow>
     push (que s) v = (ev, q', oc, sg) \<Longrightarrow>
     notifies sg (threads (after_push p v tp_max ev q' oc s)) ts \<Longrightarrow>
     bench_queue_step P n s ((after_push p v tp_max ev q' oc s)\<lparr>threads := ts\<rparr>)"
| read_next:
    "threads s ! 0 = Idle \<Longrightarrow> (0, RPop None) \<notin> set (log s) \<Longrightarrow> pop (que s) = (q', oc, sg) \<Longrightarrow>
     notifies sg (threads (after_pop 0 tp_max q' oc s)) ts \<Longrightarrow>
     bench_queue_step P n s ((after_pop 0 tp_max q' oc s)\<lparr>threads := ts\<rparr>)"
| main_close:
    "writers_done P n s \<Longrightarrow> threads s ! (P + 1) = Idle \<Longrightarrow> \<not> closed (que s) \<Longrightarrow>
     bench_queue_step P n s (s\<lparr>que := close_locked (que s), threads := (threads s)[P + 1 := Closing close_signals]\<rparr>)"
| inside: "qstep s s' \<Longrightarrow> idle_stays s s' \<Longrightarrow> bench_queue_step P n s s'"

definition bench_queue_init :: "int \<Rightarrow> nat \<Rightarrow> u64 qsys \<Rightarrow> bool" where
  "bench_queue_init cap P s \<longleftrightarrow> que s = new_queue (unat (of_int cap :: u64)) Block \<and> threads s = replicate (P + 2) Idle \<and>
     log s = [] \<and> removed s = []"

text \<open>The consumer's counter, which it adds to after each element it gets.\<close>

definition consumed :: "u64 qsys \<Rightarrow> u64" where
  "consumed s = of_nat (length (delivered (log s)))"

lemma pushes_simps [simp]:
  "pushes p [] = 0" "pushes p (l @ l') = pushes p l + pushes p l'"
  "pushes p [(t, RPush v st)] = (if t = p then 1 else 0)" "pushes p [(t, RPop y)] = 0"
  "pushes p [(t, RClose)] = 0" "pushes p [(t, RClear)] = 0"
  by (simp_all add: pushes_def)

text \<open>A thread's position without the flag a notification sets.\<close>

fun calm :: "'a pc \<Rightarrow> 'a pc" where
  "calm (PushWait v dl b) = PushWait v dl False"
| "calm (PopWait dl b) = PopWait dl False"
| "calm pc = pc"

lemma calm_awaken [simp]: "calm (awaken pc) = calm pc"
  by (cases pc) simp_all

lemma notify_calm: "notify g us ts \<Longrightarrow> map calm ts = map calm us"
proof (induction rule: notify.induct)
  case (notify_one i ts cv)
  then show ?case by (simp add: map_update) (metis list_update_id nth_map)
qed (simp_all add: comp_def)

lemma notifies_calm: "notifies sg us ts \<Longrightarrow> map calm ts = map calm us"
  by (induction rule: notifies.induct) (auto dest: notify_calm)

lemma calm_simps:
  "calm pc = Idle \<longleftrightarrow> pc = Idle" "calm pc = Closing gs \<longleftrightarrow> pc = Closing gs"
  "calm pc = PushWait v dl False \<longleftrightarrow> (\<exists>b. pc = PushWait v dl b)" "calm pc = PopWait dl False \<longleftrightarrow> (\<exists>b. pc = PopWait dl b)"
  by (cases pc; auto)+

section \<open>Invariant of the program\<close>

definition writer_ok :: "nat \<Rightarrow> nat \<Rightarrow> u64 pc \<Rightarrow> bool" where
  "writer_ok n done_pushes pc \<longleftrightarrow> done_pushes \<le> n \<and> (pc = Idle \<or> done_pushes < n \<and> (\<exists>v. pc = PushWait v tp_max False))"

definition reader_ok :: "u64 pc \<Rightarrow> bool" where
  "reader_ok pc \<longleftrightarrow> pc = Idle \<or> pc = PopWait tp_max False"

definition main_ok :: "u64 pc \<Rightarrow> bool" where
  "main_ok pc \<longleftrightarrow> pc = Idle \<or> (\<exists>gs. pc = Closing gs)"

definition bench_inv :: "nat \<Rightarrow> nat \<Rightarrow> u64 qsys \<Rightarrow> bool" where
  "bench_inv P n s \<longleftrightarrow> qreach s \<and> policy (que s) = Block \<and> length (threads s) = P + 2 \<and>
     reader_ok (calm (threads s ! 0)) \<and>
     (\<forall>p\<in>{1..P}. writer_ok n (pushes p (log s)) (calm (threads s ! p))) \<and>
     main_ok (calm (threads s ! (P + 1))) \<and>
     (closed (que s) \<longrightarrow> (\<forall>p\<in>{1..P}. pushes p (log s) = n)) \<and>
     gone Cleared (removed s) = [] \<and>
     length (accepted (log s)) = (\<Sum>p\<in>{1..P}. pushes p (log s)) \<and>
     ((0, RPop None) \<in> set (log s) \<longrightarrow> closed (que s) \<and> items (que s) = [])"

text \<open>Only what is changed has to be looked at again.\<close>

lemma calm_nth: "map calm ts = map calm us \<Longrightarrow> t < length us \<Longrightarrow> calm (ts ! t) = calm (us ! t)"
  by (metis length_map nth_map)

lemma bench_inv_threads:
  assumes "bench_inv P n s" and "qreach (s\<lparr>threads := ts\<rparr>)" and "map calm ts = map calm (threads s)"
  shows "bench_inv P n (s\<lparr>threads := ts\<rparr>)"
proof -
  have l: "length ts = length (threads s)" using assms(3) by (rule map_eq_imp_length_eq)
  have c: "calm (ts ! t) = calm (threads s ! t)" if "t < P + 2" for t
    using calm_nth [OF assms(3)] that assms(1) by (simp add: bench_inv_def)
  show ?thesis using assms(1,2) l by (simp add: bench_inv_def c)
qed

text \<open>A section of a writer's push: it waits, or it stores its element. The queue is open then.\<close>

lemma bench_inv_push:
  assumes inv: "bench_inv P n s" and p: "p \<in> {1..P}" "pushes p (log s) < n"
    and oc: "oc = Waiting \<and> q' = que s \<or> oc = Return Ok \<and> q' = push_back (que s) v"
    and s1: "s1 = after_push p v tp_max None q' oc s" and ts: "map calm ts = map calm (threads s1)"
    and r: "qreach (s1\<lparr>threads := ts\<rparr>)"
  shows "bench_inv P n (s1\<lparr>threads := ts\<rparr>)"
proof -
  have len: "length (threads s) = P + 2" "length (threads s1) = P + 2" using inv s1 by (simp_all add: bench_inv_def after_push_def)
  have open_q: "\<not> closed (que s)" using inv p by (auto simp: bench_inv_def)
  have c: "calm (ts ! t) = (if t = p then (case oc of Return _ \<Rightarrow> Idle | Waiting \<Rightarrow> PushWait v tp_max False) else calm (threads s ! t))"
    if "t < P + 2" for t
    using calm_nth [OF ts, of t] that len p by (auto simp: s1 after_push_def nth_list_update split: outcome.splits)
  have reader: "calm (ts ! 0) = calm (threads s ! 0)" and main: "calm (ts ! Suc P) = calm (threads s ! Suc P)"
    using c [of 0] c [of "P + 1"] p(1) by simp_all
  have len': "length ts = P + 2" using map_eq_imp_length_eq [OF ts] len by simp
  show ?thesis
  proof (cases oc)
    case Waiting
    then have "q' = que s" using oc by auto
    then show ?thesis using inv r len' p Waiting unfolding bench_inv_def
      by (simp add: s1 after_push_def c reader main writer_ok_def)
  next
    case (Return st)
    then have [simp]: "oc = Return Ok" "q' = push_back (que s) v" using oc by auto
    have "(\<Sum>k\<in>{1..P}. pushes k (log s) + (if p = k then 1 else 0)) = (\<Sum>k\<in>{1..P}. pushes k (log s)) + 1"
      using p(1) by (simp add: sum.distrib)
    moreover have "writer_ok n (pushes k (log s) + (if p = k then 1 else 0)) (calm (ts ! k))" if "k \<in> {1..P}" for k
      using inv p that by (auto simp: c bench_inv_def writer_ok_def)
    ultimately show ?thesis using inv r len' open_q unfolding bench_inv_def by (simp add: s1 after_push_def reader main)
  qed
qed

text \<open>A section of the consumer's pop.\<close>

lemma bench_inv_pop:
  assumes inv: "bench_inv P n s"
    and oc: "oc = Waiting \<and> q' = que s \<or> oc = Return None \<and> q' = que s \<and> closed (que s) \<and> items (que s) = [] \<or>
      (\<exists>v vs. items (que s) = v # vs \<and> oc = Return (Some v) \<and> q' = (que s)\<lparr>items := vs\<rparr>)"
    and s1: "s1 = after_pop 0 tp_max q' oc s" and ts: "map calm ts = map calm (threads s1)"
    and r: "qreach (s1\<lparr>threads := ts\<rparr>)"
  shows "bench_inv P n (s1\<lparr>threads := ts\<rparr>)"
proof -
  have len: "length (threads s) = P + 2" "length (threads s1) = P + 2" using inv s1 by (simp_all add: bench_inv_def after_pop_def)
  have c: "calm (ts ! t) = (if t = 0 then (case oc of Return _ \<Rightarrow> Idle | Waiting \<Rightarrow> PopWait tp_max False) else calm (threads s ! t))"
    if "t < P + 2" for t
    using calm_nth [OF ts, of t] that len by (auto simp: s1 after_pop_def nth_list_update split: outcome.splits)
  have len': "length ts = P + 2" using map_eq_imp_length_eq [OF ts] len by simp
  have w: "calm (ts ! k) = calm (threads s ! k)" if "k \<in> {1..P} \<or> k = P + 1" for k using c that by auto
  have "reader_ok (calm (ts ! 0))" using c [of 0] by (simp add: reader_ok_def split: outcome.splits)
  then show ?thesis using oc inv r len'
    by (elim disjE) (auto simp: bench_inv_def s1 after_pop_def w)
qed

text \<open>A section of the main thread's \<^verbatim>\<open>close\<close>.\<close>

lemma bench_inv_main:
  assumes inv: "bench_inv P n s" and pc: "main_ok pc" and ts: "map calm ts = map calm ((threads s)[P + 1 := pc])"
    and q: "que s' = que s \<or> (\<forall>p\<in>{1..P}. pushes p (log s) = n) \<and> que s' = close_locked (que s)"
    and l: "log s' = log s \<or> log s' = log s @ [(P + 1, RClose)]" and s': "removed s' = removed s" "threads s' = ts"
    and r: "qreach s'"
  shows "bench_inv P n s'"
proof -
  have len: "length (threads s) = P + 2" using inv by (simp add: bench_inv_def)
  have c: "calm (ts ! t) = (if t = Suc P then calm pc else calm (threads s ! t))" if "t < P + 2" for t
    using calm_nth [OF ts, of t] that len by (auto simp: nth_list_update)
  have k: "main_ok (calm pc)" using pc by (auto simp: main_ok_def)
  have same: "accepted (log s') = accepted (log s)" "pushes p (log s') = pushes p (log s)"
    "(0, RPop None) \<in> set (log s') \<longleftrightarrow> (0, RPop None) \<in> set (log s)" for p
    using l by auto
  have "closed (que s') \<longrightarrow> (\<forall>p\<in>{1..P}. pushes p (log s) = n)" "policy (que s') = policy (que s)"
    "items (que s') = items (que s)" "closed (que s) \<longrightarrow> closed (que s')"
    using q inv by (auto simp: bench_inv_def close_locked_def)
  then show ?thesis using inv k len r map_eq_imp_length_eq [OF ts]
    by (simp add: bench_inv_def s' same c)
qed

lemma bench_inv_thread:
  assumes "bench_inv P n s" and "t < length (threads s)"
  shows "(\<exists>v dl b. threads s ! t = PushWait v dl b \<and> t \<in> {1..P} \<and> dl = tp_max \<and> pushes t (log s) < n) \<or>
    (\<exists>dl b. threads s ! t = PopWait dl b \<and> t = 0 \<and> dl = tp_max) \<or>
    (\<exists>gs. threads s ! t = Closing gs \<and> t = P + 1) \<or> threads s ! t = Idle"
proof -
  have t: "t = 0 \<or> t \<in> {1..P} \<or> t = P + 1" using assms by (auto simp: bench_inv_def)
  have w: "writer_ok n (pushes t (log s)) (calm (threads s ! t))" if "t \<in> {1..P}" using assms(1) that by (simp add: bench_inv_def)
  have "reader_ok (calm (threads s ! 0))" "main_ok (calm (threads s ! (P + 1)))" using assms(1) by (simp_all add: bench_inv_def)
  with t w show ?thesis by (cases "threads s ! t") (auto simp: writer_ok_def reader_ok_def main_ok_def calm_simps)
qed

lemma never_expires [simp]: "\<not> expired_at tp_max now"
  by (simp add: expired_at_def)

lemma bench_step_qstep:
  assumes inv: "bench_inv P n s" and step: "bench_queue_step P n s s'"
  shows "qstep s s'"
proof -
  have len: "length (threads s) = P + 2" using inv by (simp add: bench_inv_def)
  from step show ?thesis
  proof cases
    case (write_next p v ev q' oc sg ts)
    then have "p < length (threads s)" using len by simp
    from push_call [OF this write_next(3) write_next(6) [unfolded push_def] refl write_next(7)] show ?thesis
      unfolding write_next(1) .
  next
    case (read_next q' oc sg ts)
    have "0 < length (threads s)" using len by simp
    from pop_call [OF this read_next(2) read_next(4) [unfolded pop_def] refl read_next(5)] show ?thesis
      unfolding read_next(1) .
  next
    case main_close
    then show ?thesis using len close_call [of "P + 1" s] by simp
  qed
qed

lemma not_idle_calm: "map calm ts = map calm us \<Longrightarrow> t < length us \<Longrightarrow> us ! t \<noteq> Idle \<Longrightarrow> ts ! t \<noteq> Idle"
  using calm_nth by (metis calm_simps(1))

text \<open>A call starts with a thread that was idle and is not, or with an entry in the log: not inside a call.\<close>

lemma idle_stays_push:
  assumes "t < length (threads s)" "threads s ! t = Idle" "notifies sg (threads (after_push t v dl ev q' oc s)) ts"
  shows "\<not> idle_stays s ((after_push t v dl ev q' oc s)\<lparr>threads := ts\<rparr>)"
proof (cases oc)
  case Waiting
  have "ts ! t \<noteq> Idle"
    using not_idle_calm [OF notifies_calm [OF assms(3)], of t] assms(1) Waiting by (simp add: after_push_def)
  then show ?thesis using assms(1,2) by (auto simp: idle_stays_def)
next
  case (Return st)
  then show ?thesis using assms(1,2) by (auto simp: idle_stays_def after_push_def)
qed

lemma idle_stays_pop:
  assumes "t < length (threads s)" "threads s ! t = Idle" "notifies sg (threads (after_pop t dl q' oc s)) ts"
  shows "\<not> idle_stays s ((after_pop t dl q' oc s)\<lparr>threads := ts\<rparr>)"
proof (cases oc)
  case Waiting
  have "ts ! t \<noteq> Idle"
    using not_idle_calm [OF notifies_calm [OF assms(3)], of t] assms(1) Waiting by (simp add: after_pop_def)
  then show ?thesis using assms(1,2) by (auto simp: idle_stays_def)
next
  case (Return y)
  then show ?thesis using assms(1,2) by (auto simp: idle_stays_def after_pop_def)
qed

lemma bench_inv_inside:
  assumes inv: "bench_inv P n s" and step: "qstep s s'" and idle: "idle_stays s s'" and r: "qreach s'"
  shows "bench_inv P n s'"
  using step
proof cases
  case (push_call t v dl ev q' oc sg s1 ts)
  then show ?thesis using idle_stays_push [of t s sg v dl ev q' oc ts] idle by simp
next
  case (pop_call t dl q' oc sg s1 ts)
  then show ?thesis using idle_stays_pop [of t s sg dl q' oc ts] idle by simp
next
  case (push_resume t v dl b to q' oc sg s1 ts)
  then have t: "t \<in> {1..P}" "dl = tp_max" "pushes t (log s) < n" using bench_inv_thread [OF inv push_resume(2)] by auto
  then have "\<not> to" "\<not> closed (que s)" using push_resume(4) inv by (auto simp: bench_inv_def)
  then have "oc = Waiting \<and> q' = que s \<or> oc = Return Ok \<and> q' = push_back (que s) v"
    using push_resume(5) by (auto elim: push_wake_cases)
  then show ?thesis
    using bench_inv_push [OF inv t(1,3) _ push_resume(6) [unfolded t(2)] notifies_calm [OF push_resume(7)]] r push_resume(1) by simp
next
  case (pop_resume t dl b to q' oc sg s1 ts)
  then have t: "t = 0" "dl = tp_max" using bench_inv_thread [OF inv pop_resume(2)] by auto
  then have "\<not> to" using pop_resume(4) by auto
  then have "oc = Waiting \<and> q' = que s \<or> oc = Return None \<and> q' = que s \<and> closed (que s) \<and> items (que s) = [] \<or>
      (\<exists>v vs. items (que s) = v # vs \<and> oc = Return (Some v) \<and> q' = (que s)\<lparr>items := vs\<rparr>)"
    using pop_resume(5) by (auto elim: pop_wake_cases)
  then show ?thesis
    using bench_inv_pop [OF inv _ pop_resume(6) [unfolded t] notifies_calm [OF pop_resume(7)]] r pop_resume(1) by simp
next
  case (close_call t)
  then show ?thesis using idle by (auto simp: idle_stays_def)
next
  case (close_notify t g gs ts)
  then have t: "t = P + 1" using bench_inv_thread [OF inv close_notify(2)] by auto
  show ?thesis
    by (rule bench_inv_main [OF inv _ notify_calm [OF close_notify(4) [unfolded t]] _ _ _ _ r])
      (simp_all add: main_ok_def close_notify(1))
next
  case (close_return t)
  then have t: "t = P + 1" using bench_inv_thread [OF inv close_return(2)] by auto
  show ?thesis
    by (rule bench_inv_main [OF inv _ refl _ _ _ _ r, of Idle]) (simp_all add: main_ok_def close_return(1) t)
next
  case (clear_call t xs q' sg ts)
  then show ?thesis using idle by (auto simp: idle_stays_def)
next
  case (spurious t)
  have "map calm ((threads s)[t := awaken (threads s ! t)]) = map calm (threads s)"
    using spurious(2) by (simp add: map_update) (metis list_update_id nth_map)
  then show ?thesis using bench_inv_threads [OF inv] r spurious(1) by simp
next
  case (tick now)
  then show ?thesis using inv r by (simp add: bench_inv_def)
qed

lemma bench_inv_step:
  assumes inv: "bench_inv P n s" and step: "bench_queue_step P n s s'"
  shows "bench_inv P n s'"
proof -
  have "qreach s" using inv by (simp add: bench_inv_def)
  then have r: "qreach s'" using bench_step_qstep [OF assms] by (rule reachable.move [where step = qstep])
  from step show ?thesis
  proof cases
    case (write_next p v ev q' oc sg ts)
    have "\<not> closed (que s)" "policy (que s) = Block" using inv write_next(2,4) by (auto simp: bench_inv_def)
    then have ev: "ev = None" and oc: "oc = Waiting \<and> q' = que s \<or> oc = Return Ok \<and> q' = push_back (que s) v"
      using write_next(6) unfolding push_def by (auto elim!: push_until_cases simp: tp_max_def tp_min_def)
    show ?thesis
      using bench_inv_push [OF inv write_next(2,4) oc refl notifies_calm [OF write_next(7) [unfolded ev]]] r write_next(1) ev by simp
  next
    case (read_next q' oc sg ts)
    have "oc = Waiting \<and> q' = que s \<or> oc = Return None \<and> q' = que s \<and> closed (que s) \<and> items (que s) = [] \<or>
        (\<exists>v vs. items (que s) = v # vs \<and> oc = Return (Some v) \<and> q' = (que s)\<lparr>items := vs\<rparr>)"
      using read_next(4) unfolding pop_def by (auto elim!: pop_until_cases simp: tp_max_def tp_min_def)
    then show ?thesis
      using bench_inv_pop [OF inv _ refl notifies_calm [OF read_next(5)]] r read_next(1) by simp
  next
    case main_close
    show ?thesis
      by (rule bench_inv_main [OF inv _ refl _ _ _ _ r, of "Closing close_signals"])
        (use main_close(2) in \<open>simp_all add: main_ok_def main_close(1) writers_done_def\<close>)
  next
    case inside
    then show ?thesis using bench_inv_inside [OF inv _ _ r] by blast
  qed
qed

lemma bench_inv_init: "bench_queue_init cap P s \<Longrightarrow> bench_inv P n s"
proof -
  assume i: "bench_queue_init cap P s"
  then have "qreach s" by (intro reachable.start) (auto simp: qinit.simps bench_queue_init_def)
  moreover have "threads s ! t = Idle" if "t < P + 2" for t
    using i nth_replicate [OF that, of Idle] by (simp only: bench_queue_init_def)
  then have "threads s ! 0 = Idle" "threads s ! (P + 1) = Idle" "\<forall>p\<in>{1..P}. threads s ! p = Idle" by simp_all
  moreover have "length (threads s) = P + 2" "log s = []" "removed s = []" "policy (que s) = Block" "\<not> closed (que s)"
    using i by (simp_all add: bench_queue_init_def)
  ultimately show ?thesis by (simp add: bench_inv_def reader_ok_def main_ok_def writer_ok_def gone_def)
qed

interpretation bench_q: inductive_invariant "bench_queue_init cap P" "bench_queue_step P n" "bench_inv P n" for cap P n
  by unfold_locales (use bench_inv_init bench_inv_step in blast)+

lemma only_taken:
  "gone Evicted rs = [] \<Longrightarrow> gone Cleared rs = [] \<Longrightarrow> gone Taken rs = map snd rs"
proof (induction rs)
  case (Cons r rs)
  then show ?case by (cases "fst r") (auto simp: gone_def split: if_splits)
qed (simp add: gone_def)

lemma consumed_all:
  assumes inv: "bench_inv P n s" and "(0, RPop None) \<in> set (log s)"
  shows "delivered (log s) = accepted (log s)" and "consumed s = of_nat (P * n)" and "items (que s) = []"
proof -
  have s: "qreach s" "closed (que s)" "items (que s) = []" "gone Cleared (removed s) = []" "policy (que s) = Block"
    "\<forall>p\<in>{1..P}. pushes p (log s) = n" "length (accepted (log s)) = (\<Sum>p\<in>{1..P}. pushes p (log s))"
    using assms by (auto simp: bench_inv_def)
  have l: "ledger s" using s(1) by (rule qm_ledger.reachable_inv)
  then have "gone Evicted (removed s) = []" using s(5) by (auto simp: ledger_def)
  then have "gone Taken (removed s) = map snd (removed s)" using s(4) by (rule only_taken)
  then show d: "delivered (log s) = accepted (log s)" using l s(3) by (simp add: ledger_def)
  have "length (accepted (log s)) = P * n" using s(6,7) by simp
  then show "consumed s = of_nat (P * n)" by (simp add: consumed_def d)
  show "items (que s) = []" by (rule s(3))
qed

text \<open>
  The bounded-queue benchmark loses nothing. When its consumer has seen the end of the closed queue, it
  has received exactly the elements the writers pushed, in the order they entered, and counted
  \<open>P * n\<close> of them: the number of producers times the share of each.
\<close>

theorem bench_queue_consumes_all:
  assumes "reachable (bench_queue_init cap P) (bench_queue_step P n) s" and "(0, RPop None) \<in> set (log s)"
  shows "delivered (log s) = accepted (log s) \<and> consumed s = of_nat (P * n) \<and> items (que s) = []"
  using consumed_all [OF bench_q.reachable_inv [OF assms(1)] assms(2)] by simp

text \<open>One writer with one element.\<close>

definition bench_state :: "u64 list \<Rightarrow> bool \<Rightarrow> u64 pc \<Rightarrow> (nat \<times> u64 ret) list \<Rightarrow> (reason \<times> u64) list \<Rightarrow> u64 qsys" where
  "bench_state xs cl main l rs =
     \<lparr>que = (new_queue 4 Block)\<lparr>items := xs, closed := cl, high_water := if l = [] then 0 else 1\<rparr>,
      threads = [Idle, Idle, main], clock = 0, log = l, removed = rs\<rparr>"

lemma bench_runs:
  "reachable (bench_queue_init 4 1) (bench_queue_step 1 1)
     (bench_state [] True (Closing close_signals) [(1, RPush 0 Ok), (0, RPop (Some 0)), (0, RPop None)] [(Taken, 0)])"
proof -
  let ?l1 = "[(1, RPush 0 Ok)] :: (nat \<times> u64 ret) list" and ?l2 = "[(1, RPush 0 Ok), (0, RPop (Some 0))] :: (nat \<times> u64 ret) list"
  let ?c = "Closing close_signals :: u64 pc"
  note move = reachable.move [where step = "bench_queue_step 1 1"]
  note eval = bench_state_def new_queue_def after_push_def after_pop_def push_def pop_def push_until_def pop_until_def
    pop_front_def push_back_def Let_def
  have "reachable (bench_queue_init 4 1) (bench_queue_step 1 1) (bench_state [] False Idle [] [])"
  proof (rule reachable.start)
    have "replicate (1 + 2) (Idle :: u64 pc) = [Idle, Idle, Idle]" by (simp add: numeral_3_eq_3)
    then show "bench_queue_init 4 1 (bench_state [] False Idle [] [])" unfolding bench_queue_init_def
      by (simp add: bench_state_def new_queue_def)
  qed
  moreover have "bench_queue_step 1 1 (bench_state [] False Idle [] []) (bench_state [0] False Idle ?l1 [])"
    using write_next [of 1 1 "bench_state [] False Idle [] []" 1 0 None "(new_queue 4 Block)\<lparr>items := [0], high_water := 1\<rparr>"
        "Return Ok" "[NotifyOne NotEmpty]" "[Idle, Idle, Idle]"]
    by (simp add: eval notify.simps)
  ultimately have "reachable (bench_queue_init 4 1) (bench_queue_step 1 1) (bench_state [0] False Idle ?l1 [])" by (rule move)
  moreover have "bench_queue_step 1 1 (bench_state [0] False Idle ?l1 []) (bench_state [] False Idle ?l2 [(Taken, 0)])"
    using read_next [of "bench_state [0] False Idle ?l1 []" "(new_queue 4 Block)\<lparr>items := [], high_water := 1\<rparr>" "Return (Some 0)"
        "[NotifyOne NotFull]" "[Idle, Idle, Idle]" 1 1]
    by (simp add: eval notify.simps)
  ultimately have "reachable (bench_queue_init 4 1) (bench_queue_step 1 1) (bench_state [] False Idle ?l2 [(Taken, 0)])" by (rule move)
  moreover have "bench_queue_step 1 1 (bench_state [] False Idle ?l2 [(Taken, 0)]) (bench_state [] True ?c ?l2 [(Taken, 0)])"
    using main_close [of 1 1 "bench_state [] False Idle ?l2 [(Taken, 0)]"]
    by (simp add: bench_state_def new_queue_def writers_done_def pushes_def close_locked_def)
  ultimately have "reachable (bench_queue_init 4 1) (bench_queue_step 1 1) (bench_state [] True ?c ?l2 [(Taken, 0)])" by (rule move)
  moreover have "bench_queue_step 1 1 (bench_state [] True ?c ?l2 [(Taken, 0)])
      (bench_state [] True ?c (?l2 @ [(0, RPop None)]) [(Taken, 0)])"
    using read_next [of "bench_state [] True ?c ?l2 [(Taken, 0)]" "(new_queue 4 Block)\<lparr>items := [], closed := True, high_water := 1\<rparr>"
        "Return None" "[]" "[Idle, Idle, ?c]" 1 1]
    by (simp add: eval)
  ultimately have "reachable (bench_queue_init 4 1) (bench_queue_step 1 1) (bench_state [] True ?c (?l2 @ [(0, RPop None)]) [(Taken, 0)])"
    by (rule move)
  then show ?thesis by simp
qed

theorem bench_queue_consumes_all_witness:
  "consumed (bench_state [] True (Closing close_signals) [(1, RPush 0 Ok), (0, RPop (Some 0)), (0, RPop None)] [(Taken, 0)]) = 1"
  using bench_queue_consumes_all [OF bench_runs] by (simp add: bench_state_def)

text \<open>
  The share is rounded towards zero, so up to \<open>producers - 1\<close> elements of the requested number are never
  produced; and a number of producers of 0, which is also what \<^verbatim>\<open>atoll\<close> makes of a word, divides by zero.
\<close>

lemma per_producer_share:
  assumes "0 < producers" and "0 \<le> number"
  shows "\<exists>n. per_producer number producers = Some n \<and> 0 \<le> n \<and> producers * n \<le> number \<and> number < producers * n + producers"
proof -
  have "number sdiv producers = number div producers"
    using assms by (simp add: signed_divide_int_def sgn_if)
  moreover have "producers * (number div producers) \<le> number" "number < producers * (number div producers) + producers"
    using mult_div_mod_eq [of producers number] pos_mod_sign [OF assms(1), of number] pos_mod_bound [OF assms(1), of number]
    by linarith+
  moreover have "0 \<le> number div producers" using assms by (simp add: pos_imp_zdiv_nonneg_iff)
  ultimately show ?thesis using assms unfolding per_producer_def by (intro exI [of _ "number div producers"]) simp
qed

end
