(* ===== verification/Bench_Progress.thy ===== *)
theory Bench_Progress
  imports Bench_Queues
begin

text \<open>
  Termination of \<^verbatim>\<open>run_bounded_queue\<close> (\<^verbatim>\<open>code/bench/bench_queue_throughput.cpp\<close>). A step is work unless it is a spurious
  wake-up or the passing of time. However the threads are scheduled, a bounded amount of work is left in every
  state as long as no wake-up is spurious (\<open>potential\<close> falls with every piece of it), and it stops only when the consumer has seen the end of the
  queue and the main thread has returned from \<^verbatim>\<open>close\<close>: nobody sleeps for ever, which rests on \<open>no_lost_wakeup\<close>.
\<close>

section \<open>Work\<close>

definition environment :: "'a qsys \<Rightarrow> 'a qsys \<Rightarrow> bool" where
  "environment s s' \<longleftrightarrow>
     (\<exists>t < length (threads s). s' = s\<lparr>threads := (threads s)[t := awaken (threads s ! t)]\<rparr>) \<or> (\<exists>now. s' = s\<lparr>clock := now\<rparr>)"

definition bench_work :: "nat \<Rightarrow> nat \<Rightarrow> u64 qsys \<Rightarrow> u64 qsys \<Rightarrow> bool" where
  "bench_work P n s s' \<longleftrightarrow> bench_queue_step P n s s' \<and> \<not> environment s s'"

definition bench_finished :: "nat \<Rightarrow> u64 qsys \<Rightarrow> bool" where
  "bench_finished P s \<longleftrightarrow> (0, RPop None) \<in> set (log s) \<and> closed (que s) \<and> threads s ! (P + 1) = Idle"

section \<open>Potential\<close>

definition flags :: "'a pc list \<Rightarrow> nat" where
  "flags ts = woken NotFull ts + woken NotEmpty ts"

definition writer_pot :: "nat \<Rightarrow> u64 qsys \<Rightarrow> nat \<Rightarrow> nat" where
  "writer_pot n s p = 8 * (n - pushes p (log s)) + of_bool (threads s ! p = Idle)"

definition reader_pot :: "u64 qsys \<Rightarrow> nat" where
  "reader_pot s = (if (0, RPop None) \<in> set (log s) then 0 else if threads s ! 0 = Idle then 2 else 1)"

fun close_pot :: "bool \<Rightarrow> 'a pc \<Rightarrow> nat" where
  "close_pot cl (Closing gs) = Suc (length gs)"
| "close_pot cl pc = (if cl then 0 else 4)"

definition potential :: "nat \<Rightarrow> nat \<Rightarrow> u64 qsys \<Rightarrow> nat" where
  "potential P n s =
     (\<Sum>p\<in>{1..P}. writer_pot n s p) + 4 * length (items (que s)) + reader_pot s +
     (2 * P + 5) * close_pot (closed (que s)) (threads s ! (P + 1)) + flags (threads s)"

lemma flags_update:
  "i < length ts \<Longrightarrow> flags (ts[i := p]) + flags [ts ! i] = flags ts + flags [p]"
  using counts_update(2) [of i ts "ts ! i" NotFull p] counts_update(2) [of i ts "ts ! i" NotEmpty p]
  by (auto simp: flags_def woken_def)

lemma flags_single [simp]:
  "flags [Idle] = 0" "flags [Closing gs] = 0" "flags [PushWait v dl b] = of_bool b" "flags [PopWait dl b] = of_bool b"
  by (simp_all add: flags_def woken_def)

lemma flags_le: "flags ts \<le> 2 * length ts"
  unfolding flags_def woken_def mult_2 by (intro add_mono length_filter_le)

lemma notify_one_flags: "notify (NotifyOne cv) us ts \<Longrightarrow> flags ts \<le> flags us + 1"
proof (erule notify_OneE)
  fix i assume "ts = us[i := awaken (us ! i)]" "i < length us" "asleep_on cv (us ! i)"
  moreover have "flags [awaken (us ! i)] \<le> 1" by (cases "us ! i") simp_all
  ultimately show ?thesis using flags_update [of i us "awaken (us ! i)"] by simp
qed simp

text \<open>The steps of a writer's push, of the consumer's pop and of the main thread's \<^verbatim>\<open>close\<close>, with what they change.\<close>

lemma calm_Idle: "map calm ts = map calm us \<Longrightarrow> t < length us \<Longrightarrow> ts ! t = Idle \<longleftrightarrow> us ! t = Idle"
  by (metis calm_nth calm_simps(1))

lemma close_pot_calm: "calm pc = calm pc' \<Longrightarrow> close_pot cl pc = close_pot cl pc'"
  by (cases pc; cases pc') simp_all

lemma sum_one_changed:
  fixes f :: "nat \<Rightarrow> nat"
  assumes "p \<in> {1..P}" and "\<And>q. q \<in> {1..P} \<Longrightarrow> q \<noteq> p \<Longrightarrow> f q = g q"
  shows "(\<Sum>q\<in>{1..P}. f q) + g p = (\<Sum>q\<in>{1..P}. g q) + f p"
proof -
  have "(\<Sum>q\<in>{1..P} - {p}. f q) = (\<Sum>q\<in>{1..P} - {p}. g q)" using assms(2) by (intro sum.cong) auto
  then show ?thesis using sum.remove [of "{1..P}" p f] sum.remove [of "{1..P}" p g] assms(1) by simp
qed

lemma section_flags:
  assumes "notifies sg ((threads s)[t := pc]) ts" and "t < length (threads s)" and "flags [pc] = 0"
    and "sg = [] \<or> (\<exists>cv. sg = [NotifyOne cv])"
  shows "flags ts + flags [threads s ! t] \<le> flags (threads s) + length sg"
proof -
  have "flags ts \<le> flags ((threads s)[t := pc]) + length sg"
    using assms(1,4) notify_one_flags [of _ "(threads s)[t := pc]" ts] by auto
  then show ?thesis using flags_update [OF assms(2), of pc] assms(3) by simp
qed

lemma pot_push:
  assumes inv: "bench_inv P n s" and p: "p \<in> {1..P}" "pushes p (log s) < n"
    and old: "threads s ! p = Idle \<or> threads s ! p = PushWait v tp_max True"
    and oc: "oc = Waiting \<and> q' = que s \<and> sg = [] \<or> oc = Return Ok \<and> q' = push_back (que s) v \<and> sg = [NotifyOne NotEmpty]"
    and s1: "s1 = after_push p v tp_max None q' oc s" and ts: "notifies sg (threads s1) ts"
  shows "potential P n (s1\<lparr>threads := ts\<rparr>) < potential P n s"
proof -
  have len: "length (threads s) = P + 2" using inv by (simp add: bench_inv_def)
  have c: "calm (ts ! t) = calm (if t = p then (if oc = Waiting then PushWait v tp_max False else Idle) else threads s ! t)"
    if "t < P + 2" for t
    using calm_nth [OF notifies_calm [OF ts], of t] that len p oc by (auto simp: s1 after_push_def)
  have idle: "ts ! t = Idle \<longleftrightarrow> (if t = p then oc \<noteq> Waiting else threads s ! t = Idle)" if "t < P + 2" for t
    using c [OF that] calm_simps(1) [of "ts ! t"] calm_simps(1) [of "threads s ! t"] by (simp split: if_splits)
  have "notifies sg ((threads s)[p := if oc = Waiting then PushWait v tp_max False else Idle]) ts"
    using ts oc by (auto simp: s1 after_push_def)
  then have "flags ts + flags [threads s ! p] \<le> flags (threads s) + length sg"
    using len p oc by (intro section_flags) auto
  then have fl: "flags ts + flags [threads s ! p] \<le> flags (threads s) + of_bool (oc \<noteq> Waiting)" using oc by auto
  let ?s' = "s1\<lparr>threads := ts\<rparr>"
  have sum: "(\<Sum>q\<in>{1..P}. writer_pot n ?s' q) + writer_pot n s p = (\<Sum>q\<in>{1..P}. writer_pot n s q) + writer_pot n ?s' p"
    by (intro sum_one_changed [OF p(1)]) (use oc in \<open>auto simp: writer_pot_def idle s1 after_push_def\<close>)
  have r: "reader_pot ?s' = reader_pot s" using oc p idle [of 0] by (auto simp: reader_pot_def s1 after_push_def)
  have cl: "close_pot (closed (que ?s')) (ts ! (P + 1)) = close_pot (closed (que s)) (threads s ! (P + 1))"
    using oc p c [of "P + 1"] by (auto simp: s1 after_push_def push_back_def Let_def intro!: close_pot_calm)
  have w: "writer_pot n ?s' p + 4 * length (items q') + flags ts < writer_pot n s p + 4 * length (items (que s)) + flags (threads s)"
    using oc old fl p idle [of p] by (auto simp: writer_pot_def s1 after_push_def push_back_def Let_def)
  have "que ?s' = q'" by (simp add: s1 after_push_def)
  then show ?thesis using sum r cl w unfolding potential_def by simp
qed

lemma pot_pop:
  assumes inv: "bench_inv P n s" and old: "threads s ! 0 = Idle \<and> (0, RPop None) \<notin> set (log s) \<or> threads s ! 0 = PopWait tp_max True"
    and oc: "oc = Waiting \<and> q' = que s \<and> sg = [] \<or> oc = Return None \<and> q' = que s \<and> sg = [] \<or>
      (\<exists>v vs. items (que s) = v # vs \<and> oc = Return (Some v) \<and> q' = (que s)\<lparr>items := vs\<rparr> \<and> sg = [NotifyOne NotFull])"
    and s1: "s1 = after_pop 0 tp_max q' oc s" and ts: "notifies sg (threads s1) ts"
  shows "potential P n (s1\<lparr>threads := ts\<rparr>) < potential P n s"
proof -
  have len: "length (threads s) = P + 2" using inv by (simp add: bench_inv_def)
  have c: "calm (ts ! t) = calm (if t = 0 then (if oc = Waiting then PopWait tp_max False else Idle) else threads s ! t)"
    if "t < P + 2" for t
    using calm_nth [OF notifies_calm [OF ts], of t] that len oc by (auto simp: s1 after_pop_def nth_list_update)
  have idle: "ts ! t = Idle \<longleftrightarrow> (if t = 0 then oc \<noteq> Waiting else threads s ! t = Idle)" if "t < P + 2" for t
    using c [OF that] calm_simps(1) [of "ts ! t"] calm_simps(1) [of "threads s ! t"] by (simp split: if_splits)
  have "notifies sg ((threads s)[0 := if oc = Waiting then PopWait tp_max False else Idle]) ts"
    using ts oc by (auto simp: s1 after_pop_def)
  then have fl: "flags ts + flags [threads s ! 0] \<le> flags (threads s) + length sg"
    using len oc by (intro section_flags) auto
  let ?s' = "s1\<lparr>threads := ts\<rparr>"
  have sum: "(\<Sum>q\<in>{1..P}. writer_pot n ?s' q) = (\<Sum>q\<in>{1..P}. writer_pot n s q)"
    by (intro sum.cong) (use oc in \<open>auto simp: writer_pot_def idle s1 after_pop_def\<close>)
  have cl: "close_pot (closed (que ?s')) (ts ! (P + 1)) = close_pot (closed (que s)) (threads s ! (P + 1))"
    using oc c [of "P + 1"] by (auto simp: s1 after_pop_def intro!: close_pot_calm)
  have "reader_pot ?s' + 4 * length (items q') + flags ts < reader_pot s + 4 * length (items (que s)) + flags (threads s)"
    using oc old fl idle [of 0] by (auto simp: reader_pot_def s1 after_pop_def)
  moreover have "que ?s' = q'" by (simp add: s1 after_pop_def)
  ultimately show ?thesis using sum cl unfolding potential_def by simp
qed

lemma pot_main:
  assumes inv: "bench_inv P n s" and ts: "map calm ts = map calm ((threads s)[P + 1 := pc])"
    and l: "\<And>p. pushes p (log s') = pushes p (log s)" "(0, RPop None) \<in> set (log s') \<longleftrightarrow> (0, RPop None) \<in> set (log s)"
    and q: "items (que s') = items (que s)" and s': "threads s' = ts"
    and less: "close_pot (closed (que s')) pc < close_pot (closed (que s)) (threads s ! (P + 1))"
  shows "potential P n s' < potential P n s"
proof -
  have len: "length (threads s) = P + 2" using inv by (simp add: bench_inv_def)
  have len': "length ts = P + 2" using map_eq_imp_length_eq [OF ts] len by simp
  have c: "calm (ts ! t) = calm (if t = P + 1 then pc else threads s ! t)" if "t < P + 2" for t
    using calm_nth [OF ts, of t] that len by auto
  have idle: "ts ! t = Idle \<longleftrightarrow> threads s ! t = Idle" if "t < P + 1" for t
    using c [of t] that calm_simps(1) [of "ts ! t"] calm_simps(1) [of "threads s ! t"] by simp
  have "(\<Sum>q\<in>{1..P}. writer_pot n s' q) = (\<Sum>q\<in>{1..P}. writer_pot n s q)"
    by (intro sum.cong) (auto simp: writer_pot_def idle s' l)
  moreover have "reader_pot s' = reader_pot s" using idle [of 0] by (simp add: reader_pot_def s' l)
  moreover have "close_pot (closed (que s')) (ts ! (P + 1)) = close_pot (closed (que s')) pc"
    using c [of "P + 1"] by (intro close_pot_calm) simp
  moreover have "flags ts < 2 * P + 5" using flags_le [of ts] len' by simp
  moreover have "(2 * P + 5) * Suc (close_pot (closed (que s')) pc) \<le> (2 * P + 5) * close_pot (closed (que s)) (threads s ! (P + 1))"
    using less by (intro mult_le_mono2) simp
  ultimately show ?thesis unfolding potential_def by (simp add: q s')
qed

text \<open>Every step is work that lowers the potential, a spurious wake-up or the passing of time.\<close>

lemma potential_inside:
  assumes inv: "bench_inv P n s" and step: "qstep s s'" and idle: "idle_stays s s'"
  shows "potential P n s' < potential P n s \<or> environment s s'"
  using step
proof cases
  case (push_call t v dl ev q' oc sg s1 ts)
  then show ?thesis using idle_stays_push [of t s sg v dl ev q' oc ts] idle by simp
next
  case (pop_call t dl q' oc sg s1 ts)
  then show ?thesis using idle_stays_pop [of t s sg dl q' oc ts] idle by simp
next
  case (push_resume t v dl b to q' oc sg s1 ts)
  then have t: "t \<in> {1..P}" "dl = tp_max" "pushes t (log s) < n" using bench_inv_thread [OF inv push_resume(2)] by auto
  then have b: "b" "\<not> to" and open_q: "\<not> closed (que s)" using push_resume(4) inv by (auto simp: bench_inv_def)
  have "oc = Waiting \<and> q' = que s \<and> sg = [] \<or> oc = Return Ok \<and> q' = push_back (que s) v \<and> sg = [NotifyOne NotEmpty]"
    using push_resume(5) b open_q by (auto elim: push_wake_cases)
  then show ?thesis
    using pot_push [OF inv t(1,3) _ _ push_resume(6) [unfolded t(2)] push_resume(7)] push_resume(1,3) t(2) b by simp
next
  case (pop_resume t dl b to q' oc sg s1 ts)
  then have t: "t = 0" "dl = tp_max" using bench_inv_thread [OF inv pop_resume(2)] by auto
  then have b: "b" "\<not> to" using pop_resume(4) by auto
  then have "oc = Waiting \<and> q' = que s \<and> sg = [] \<or> oc = Return None \<and> q' = que s \<and> sg = [] \<or>
      (\<exists>v vs. items (que s) = v # vs \<and> oc = Return (Some v) \<and> q' = (que s)\<lparr>items := vs\<rparr> \<and> sg = [NotifyOne NotFull])"
    using pop_resume(5) by (auto elim: pop_wake_cases)
  then show ?thesis
    using pot_pop [OF inv _ _ pop_resume(6) [unfolded t] pop_resume(7)] pop_resume(1,3) t b by simp
next
  case (close_call t)
  then show ?thesis using idle by (auto simp: idle_stays_def)
next
  case (close_notify t g gs ts)
  then have t: "t = P + 1" using bench_inv_thread [OF inv close_notify(2)] by auto
  have "potential P n s' < potential P n s"
    by (rule pot_main [OF inv notify_calm [OF close_notify(4) [unfolded t]]]) (use close_notify(1,3) t in simp_all)
  then show ?thesis ..
next
  case (close_return t)
  then have t: "t = P + 1" using bench_inv_thread [OF inv close_return(2)] by auto
  have "Closing [] \<in> set (threads s)" using close_return(2,3) nth_mem [of t "threads s"] by simp
  then have "closed (que s)" using inv qm_wakeup.reachable_inv [of s] by (auto simp: bench_inv_def wakeup_inv_def closing_ok_def)
  then have "potential P n s' < potential P n s"
    by (intro pot_main [where pc = Idle, OF inv refl]) (use close_return(1,3) t in simp_all)
  then show ?thesis ..
next
  case (clear_call t xs q' sg ts)
  then show ?thesis using idle by (auto simp: idle_stays_def)
next
  case (spurious t)
  then show ?thesis unfolding environment_def by blast
next
  case (tick now)
  then show ?thesis unfolding environment_def by blast
qed

lemma potential_step:
  assumes inv: "bench_inv P n s" and step: "bench_queue_step P n s s'"
  shows "potential P n s' < potential P n s \<or> environment s s'"
  using step
proof cases
  case (write_next p v ev q' oc sg ts)
  have "\<not> closed (que s)" "policy (que s) = Block" using inv write_next(2,4) by (auto simp: bench_inv_def)
  then have ev: "ev = None" and oc: "oc = Waiting \<and> q' = que s \<and> sg = [] \<or>
      oc = Return Ok \<and> q' = push_back (que s) v \<and> sg = [NotifyOne NotEmpty]"
    using write_next(6) unfolding push_def by (auto elim!: push_until_cases simp: tp_max_def tp_min_def)
  show ?thesis
    using pot_push [OF inv write_next(2,4) _ oc refl write_next(7) [unfolded ev]] write_next(1,3) ev by simp
next
  case (read_next q' oc sg ts)
  have "oc = Waiting \<and> q' = que s \<and> sg = [] \<or> oc = Return None \<and> q' = que s \<and> sg = [] \<or>
      (\<exists>v vs. items (que s) = v # vs \<and> oc = Return (Some v) \<and> q' = (que s)\<lparr>items := vs\<rparr> \<and> sg = [NotifyOne NotFull])"
    using read_next(4) unfolding pop_def by (auto elim!: pop_until_cases)
  then show ?thesis using pot_pop [OF inv _ _ refl read_next(5)] read_next(1,2,3) by simp
next
  case main_close
  have "potential P n s' < potential P n s"
    by (rule pot_main [where pc = "Closing close_signals", OF inv refl])
      (use main_close in \<open>simp_all add: close_locked_def close_signals_def\<close>)
  then show ?thesis ..
next
  case inside
  then show ?thesis using potential_inside [OF inv] by blast
qed

section \<open>Nobody sleeps for ever\<close>

lemma notify_total: "\<exists>us. notify g ts us"
proof (cases g)
  case (NotifyOne cv)
  show ?thesis
  proof (cases "\<exists>p\<in>set ts. asleep_on cv p")
    case True
    then obtain i where "i < length ts" "asleep_on cv (ts ! i)" by (auto simp: in_set_conv_nth)
    then show ?thesis using NotifyOne notify_one by blast
  qed (use NotifyOne notify_nobody in blast)
qed (use notify_all in blast)

lemma notifies_total: "\<exists>us. notifies sg ts us"
proof (induction sg arbitrary: ts)
  case (Cons g sg)
  then show ?case using notify_total [of g ts] by (metis notifies_Cons)
qed (use notifies_nil in blast)

text \<open>The environment neither returns from a call nor moves a thread, and puts none to sleep.\<close>

lemma environment_keeps:
  assumes "environment s s'"
  shows "log s' = log s" and "map calm (threads s') = map calm (threads s)"
    and "t < length (threads s) \<Longrightarrow> threads s ! t = awaken (threads s ! t) \<Longrightarrow> threads s' ! t = threads s ! t"
  using assms by (auto simp: environment_def map_update nth_list_update) (metis list_update_id nth_map)

lemma bench_work_returns: "bench_queue_step P n s s' \<Longrightarrow> log s' \<noteq> log s \<Longrightarrow> bench_work P n s s'"
  using environment_keeps(1) by (auto simp: bench_work_def)

lemma bench_work_moves:
  "bench_queue_step P n s s' \<Longrightarrow> t < length (threads s) \<Longrightarrow> calm (threads s' ! t) \<noteq> calm (threads s ! t) \<Longrightarrow> bench_work P n s s'"
  using environment_keeps(2) calm_nth by (metis bench_work_def)

text \<open>A thread that is not waiting, or was notified, can go on.\<close>

lemma idle_writer_works:
  assumes inv: "bench_inv P n s" and p: "p \<in> {1..P}" "threads s ! p = Idle" "pushes p (log s) < n"
  shows "\<exists>s'. bench_work P n s s'"
proof -
  have t: "p < length (threads s)" using inv p(1) by (simp add: bench_inv_def)
  let ?v = "of_nat (pushes p (log s)) :: u64"
  obtain ev q' oc sg where push: "push (que s) ?v = (ev, q', oc, sg)" using prod_cases4 by blast
  let ?s1 = "after_push p ?v tp_max ev q' oc s"
  obtain ts where ts: "notifies sg (threads ?s1) ts" using notifies_total by blast
  have step: "bench_queue_step P n s (?s1\<lparr>threads := ts\<rparr>)" by (rule write_next [OF p refl push ts])
  show ?thesis
  proof (cases oc)
    case Waiting
    then have "calm (ts ! p) \<noteq> calm (threads s ! p)"
      using not_idle_calm [OF notifies_calm [OF ts], of p] t p(2) calm_simps(1) [of "ts ! p"] by (auto simp: after_push_def)
    then show ?thesis using bench_work_moves [OF step t] by auto
  qed (use bench_work_returns [OF step] in \<open>auto simp: after_push_def\<close>)
qed

lemma idle_reader_works:
  assumes inv: "bench_inv P n s" and p: "threads s ! 0 = Idle" "(0, RPop None) \<notin> set (log s)"
  shows "\<exists>s'. bench_work P n s s'"
proof -
  have t: "0 < length (threads s)" using inv by (simp add: bench_inv_def)
  obtain q' oc sg where pop: "pop (que s) = (q', oc, sg)" using prod_cases3 by blast
  let ?s1 = "after_pop 0 tp_max q' oc s"
  obtain ts where ts: "notifies sg (threads ?s1) ts" using notifies_total by blast
  have step: "bench_queue_step P n s (?s1\<lparr>threads := ts\<rparr>)" by (rule read_next [OF p pop ts])
  show ?thesis
  proof (cases oc)
    case Waiting
    then have "calm (ts ! 0) \<noteq> calm (threads s ! 0)"
      using not_idle_calm [OF notifies_calm [OF ts], of 0] t p(1) calm_simps(1) [of "ts ! 0"] by (auto simp: after_pop_def)
    then show ?thesis using bench_work_moves [OF step t] by auto
  qed (use bench_work_returns [OF step] in \<open>auto simp: after_pop_def\<close>)
qed

lemma idle_stays_section:
  assumes "t < length (threads s)" "threads s ! t \<noteq> Idle"
    and "map calm (threads s') = map calm ((threads s)[t := pc])" and "log s' = log s \<or> (\<exists>r. log s' = log s @ [(t, r)])"
  shows "idle_stays s s'"
proof -
  have "threads s' ! u = Idle" if "u < length (threads s)" "threads s ! u = Idle" for u
    using calm_Idle [OF assms(3), of u] that assms(1,2) by (cases "u = t") simp_all
  then show ?thesis using assms(2,4) by (auto simp: idle_stays_def)
qed

lemma bench_work_sleeps:
  assumes "bench_queue_step P n s s'" "t < length (threads s)" "threads s ! t = awaken (threads s ! t)" "threads s' ! t \<noteq> threads s ! t"
  shows "bench_work P n s s'"
  using assms environment_keeps(3) by (auto simp: bench_work_def)

lemma notified_writer_works:
  assumes t: "t < length (threads s)" and pc: "threads s ! t = PushWait v tp_max True"
  shows "\<exists>s'. bench_work P n s s'"
proof -
  obtain q' oc sg where w: "push_wake (que s) v False = (q', oc, sg)" using prod_cases3 by blast
  let ?s1 = "after_push t v tp_max None q' oc s"
  obtain ts where ts: "notifies sg (threads ?s1) ts" using notifies_total by blast
  let ?s' = "?s1\<lparr>threads := ts\<rparr>"
  have "qstep s ?s'" using w ts by (intro push_resume [OF t pc, of False]) simp_all
  moreover have "idle_stays s ?s'"
    by (rule idle_stays_section [where t = t and pc = "case oc of Return _ \<Rightarrow> Idle | Waiting \<Rightarrow> PushWait v tp_max False"])
      (use t pc notifies_calm [OF ts] in \<open>auto simp: after_push_def split: outcome.splits\<close>)
  ultimately have step: "bench_queue_step P n s ?s'" by (rule inside)
  show ?thesis
  proof (cases oc)
    case Waiting
    then have "ts = (threads s)[t := PushWait v tp_max False]" using w ts by (auto simp: after_push_def elim: push_wake_cases)
    then show ?thesis using bench_work_sleeps [OF step t] t pc by auto
  qed (use bench_work_returns [OF step] in \<open>auto simp: after_push_def\<close>)
qed

lemma notified_reader_works:
  assumes t: "t < length (threads s)" and pc: "threads s ! t = PopWait tp_max True"
  shows "\<exists>s'. bench_work P n s s'"
proof -
  obtain q' oc sg where w: "pop_wake (que s) False = (q', oc, sg)" using prod_cases3 by blast
  let ?s1 = "after_pop t tp_max q' oc s"
  obtain ts where ts: "notifies sg (threads ?s1) ts" using notifies_total by blast
  let ?s' = "?s1\<lparr>threads := ts\<rparr>"
  have "qstep s ?s'" using w ts by (intro pop_resume [OF t pc, of False]) simp_all
  moreover have "idle_stays s ?s'"
    by (rule idle_stays_section [where t = t and pc = "case oc of Return _ \<Rightarrow> Idle | Waiting \<Rightarrow> PopWait tp_max False"])
      (use t pc notifies_calm [OF ts] in \<open>auto simp: after_pop_def split: outcome.splits\<close>)
  ultimately have step: "bench_queue_step P n s ?s'" by (rule inside)
  show ?thesis
  proof (cases oc)
    case Waiting
    then have "ts = (threads s)[t := PopWait tp_max False]" using w ts by (auto simp: after_pop_def elim: pop_wake_cases)
    then show ?thesis using bench_work_sleeps [OF step t] t pc by auto
  qed (use bench_work_returns [OF step] in \<open>auto simp: after_pop_def\<close>)
qed

lemma closing_works:
  assumes t: "t < length (threads s)" and pc: "threads s ! t = Closing gs"
  shows "\<exists>s'. bench_work P n s s'"
proof (cases gs)
  case Nil
  let ?s' = "s\<lparr>threads := (threads s)[t := Idle], log := log s @ [(t, RClose)]\<rparr>"
  have "bench_queue_step P n s ?s'"
    by (rule inside [OF close_return [OF t] idle_stays_section [where t = t and pc = Idle]]) (use pc Nil t in simp_all)
  then show ?thesis using bench_work_returns [of P n s ?s'] by auto
next
  case (Cons g gs')
  obtain ts where ts: "notify g ((threads s)[t := Closing gs']) ts" using notify_total by blast
  have "bench_queue_step P n s (s\<lparr>threads := ts\<rparr>)"
    by (rule inside [OF close_notify [OF t _ ts] idle_stays_section [where t = t and pc = "Closing gs'"]])
      (use pc Cons t notify_calm [OF ts] in simp_all)
  moreover have "calm (ts ! t) \<noteq> calm (threads s ! t)" using calm_nth [OF notify_calm [OF ts], of t] t pc Cons by simp
  ultimately show ?thesis using bench_work_moves [of P n s "s\<lparr>threads := ts\<rparr>" t] t by auto
qed

lemma woken_writer:
  assumes "bench_inv P n s" and "0 < woken NotFull (threads s)"
  shows "\<exists>s'. bench_work P n s s'"
proof -
  obtain t where t: "t < length (threads s)" "notified_on NotFull (threads s ! t)"
    using assms(2) by (auto simp: woken_def filter_empty_conv in_set_conv_nth)
  then obtain v where "threads s ! t = PushWait v tp_max True" using bench_inv_thread [OF assms(1) t(1)] by auto
  then show ?thesis using notified_writer_works [OF t(1)] by blast
qed

lemma woken_reader:
  assumes "bench_inv P n s" and "0 < woken NotEmpty (threads s)"
  shows "\<exists>s'. bench_work P n s s'"
proof -
  obtain t where t: "t < length (threads s)" "notified_on NotEmpty (threads s ! t)"
    using assms(2) by (auto simp: woken_def filter_empty_conv in_set_conv_nth)
  then have "threads s ! t = PopWait tp_max True" using bench_inv_thread [OF assms(1) t(1)] by auto
  then show ?thesis using notified_reader_works [OF t(1)] by blast
qed

lemma sleeps: "t < length ts \<Longrightarrow> asleep_on cv (ts ! t) \<Longrightarrow> 0 < sleepers cv ts"
  by (auto simp: sleepers_def filter_empty_conv intro: nth_mem)

text \<open>The writers work as long as one of them has something to write and there is room.\<close>

lemma writers_work:
  assumes inv: "bench_inv P n s" and p: "p \<in> {1..P}" "pushes p (log s) < n" and room: "items (que s) = []" "\<not> closed (que s)"
  shows "\<exists>s'. bench_work P n s s'"
proof -
  have w: "wakeup_inv s" using inv by (auto simp: bench_inv_def intro: qm_wakeup.reachable_inv)
  have t: "p < length (threads s)" using inv p(1) by (simp add: bench_inv_def)
  consider "threads s ! p = Idle" | v b where "threads s ! p = PushWait v tp_max b"
    using bench_inv_thread [OF inv t] p(1) by auto
  then show ?thesis
  proof cases
    case 1
    then show ?thesis using idle_writer_works [OF inv p(1) _ p(2)] by simp
  next
    case 2
    then have "0 < woken NotFull (threads s) \<or> 0 < sleepers NotFull (threads s)"
      using t sleeps [OF t, of NotFull] nth_mem [OF t] by (cases b) (force simp: woken_def filter_empty_conv)+
    moreover have "0 < capacity (que s)" using wakeup_inv_parts(2) [OF w] by (simp add: queue_inv_def)
    ultimately have "0 < woken NotFull (threads s)"
      using wakeup_inv_parts(1) [OF w, of NotFull] room by (auto simp: wake_ok_def)
    then show ?thesis using woken_writer [OF inv] by simp
  qed
qed

lemma bench_not_stuck:
  assumes inv: "bench_inv P n s" and unfinished: "\<not> bench_finished P s"
  shows "\<exists>s'. bench_work P n s s'"
proof (cases "\<exists>t gs. t < length (threads s) \<and> threads s ! t = Closing gs")
  case True
  then show ?thesis using closing_works by blast
next
  case nobody_closes: False
  have w: "wakeup_inv s" using inv by (auto simp: bench_inv_def intro: qm_wakeup.reachable_inv)
  have len: "length (threads s) = P + 2" and main: "threads s ! (P + 1) = Idle"
    using inv nobody_closes bench_inv_thread [OF inv, of "P + 1"] by (auto simp: bench_inv_def)
  then have running: "(0, RPop None) \<notin> set (log s)" using inv unfinished by (auto simp: bench_finished_def bench_inv_def)
  have no_closers: "closers cv (threads s) = 0" for cv
  proof -
    have "\<not> will_notify cv pc" if "pc \<in> set (threads s)" for pc
      by (cases pc) (use that nobody_closes in \<open>auto simp: in_set_conv_nth\<close>)
    then show ?thesis by (simp add: closers_def filter_empty_conv)
  qed
  have "threads s ! 0 = Idle \<or> (\<exists>b. threads s ! 0 = PopWait tp_max b)" using bench_inv_thread [OF inv, of 0] len by auto
  then consider "threads s ! 0 = Idle" | "threads s ! 0 = PopWait tp_max True" | "threads s ! 0 = PopWait tp_max False"
    by (metis (full_types))
  then show ?thesis
  proof cases
    case 1
    then show ?thesis using idle_reader_works [OF inv _ running] by simp
  next
    case 2
    then show ?thesis using notified_reader_works [of 0 s] len by simp
  next
    case 3
    then have "0 < sleepers NotEmpty (threads s)" using sleeps [of 0 "threads s" NotEmpty] len by simp
    then have open_q: "\<not> closed (que s)" and le: "length (items (que s)) \<le> woken NotEmpty (threads s)"
      using wakeup_inv_parts(1) [OF w, of NotEmpty] no_closers by (auto simp: wake_ok_def split: if_splits)
    show ?thesis
    proof (cases "items (que s) = []")
      case False
      then have "0 < woken NotEmpty (threads s)" using le by (simp add: length_greater_0_conv [symmetric] del: length_greater_0_conv)
      then show ?thesis by (rule woken_reader [OF inv])
    next
      case empty: True
      show ?thesis
      proof (cases "\<exists>p\<in>{1..P}. pushes p (log s) < n")
        case True
        then show ?thesis using writers_work [OF inv] empty open_q by blast
      next
        case False
        then have "writers_done P n s" using inv by (fastforce simp: writers_done_def bench_inv_def writer_ok_def calm_simps)
        from main_close [OF this main open_q] show ?thesis
          using bench_work_moves [where t = "P + 1"] len main by fastforce
      qed
    qed
  qed
qed

text \<open>So every run can be completed.\<close>

lemma bench_completes:
  assumes "reachable (bench_queue_init cap P) (bench_queue_step P n) s"
  shows "\<exists>s'. reachable (bench_queue_init cap P) (bench_queue_step P n) s' \<and> bench_finished P s'"
  using assms
proof (induction "potential P n s" arbitrary: s rule: less_induct)
  case less
  have inv: "bench_inv P n s" using less.prems by (rule bench_q.reachable_inv)
  show ?case
  proof (cases "bench_finished P s")
    case False
    then obtain s' where w: "bench_work P n s s'" using bench_not_stuck [OF inv] by blast
    then have "potential P n s' < potential P n s" using potential_step [OF inv] by (auto simp: bench_work_def)
    moreover have "reachable (bench_queue_init cap P) (bench_queue_step P n) s'"
      using less.prems w by (auto simp: bench_work_def intro: reachable.move [where step = "bench_queue_step P n"])
    ultimately show ?thesis by (rule less.hyps)
  qed (use less.prems in blast)
qed

text \<open>
  C3: the bounded-queue benchmark always ends. From every reachable state, whatever the scheduler does, only finitely
  many steps follow each other without a spurious wake-up; and a state in which no such step is
  possible is not a deadlock: the consumer has seen the end of the closed queue with all \<open>P * n\<close> elements received in
  the order they were pushed and counted, and the main thread has
  returned from \<^verbatim>\<open>close\<close>.
\<close>

theorem bench_queue_terminates:
  "wfp (\<lambda>s' s. reachable (bench_queue_init cap P) (bench_queue_step P n) s \<and> bench_work P n s s') \<and>
   (\<forall>s. reachable (bench_queue_init cap P) (bench_queue_step P n) s \<longrightarrow>
      (\<exists>s'. bench_work P n s s') \<or> bench_finished P s \<and> delivered (log s) = accepted (log s) \<and> consumed s = of_nat (P * n))"
proof (intro conjI allI impI)
  show "wfp (\<lambda>s' s. reachable (bench_queue_init cap P) (bench_queue_step P n) s \<and> bench_work P n s s')"
  proof (rule wfp_subset [OF wfp_if_convertible_to_nat [of "\<lambda>s' s. potential P n s' < potential P n s" "potential P n"]])
    show "(\<lambda>s' s. reachable (bench_queue_init cap P) (bench_queue_step P n) s \<and> bench_work P n s s') \<le>
        (\<lambda>s' s. potential P n s' < potential P n s)"
      using bench_q.reachable_inv potential_step by (fastforce simp: bench_work_def)
  qed
next
  fix s assume r: "reachable (bench_queue_init cap P) (bench_queue_step P n) s"
  then have inv: "bench_inv P n s" by (rule bench_q.reachable_inv)
  show "(\<exists>s'. bench_work P n s s') \<or> bench_finished P s \<and> delivered (log s) = accepted (log s) \<and> consumed s = of_nat (P * n)"
  proof (cases "bench_finished P s")
    case True
    then have "(0, RPop None) \<in> set (log s)" by (simp add: bench_finished_def)
    then show ?thesis using True consumed_all [OF inv] by simp
  qed (use bench_not_stuck [OF inv] in blast)
qed

theorem bench_queue_terminates_witness:
  "\<exists>s'. bench_work 1 1
     (bench_state [] True (Closing close_signals) [(1, RPush 0 Ok), (0, RPop (Some 0)), (0, RPop None)] [(Taken, 0)]) s'"
  using conjunct2 [OF bench_queue_terminates [of 4 1 1], rule_format, OF bench_runs]
  by (simp add: bench_finished_def bench_state_def)

end
