(* ===== verification/Bench_Ring.thy ===== *)
theory Bench_Ring
  imports Ring_Machine Fairness
begin

text \<open>
  \<^verbatim>\<open>run_spsc_ring\<close> of \<^verbatim>\<open>code/bench/bench_queue_throughput.cpp\<close>: the main thread pushes the numbers below \<^verbatim>\<open>count\<close>, spinning
  while the ring is full, and then sets a flag; the consumer pops until it has seen \<^verbatim>\<open>count\<close> elements or finds
  the ring empty after it has seen the flag. Both run interleaved at the single loads and stores of \<open>Ring_Machine\<close>.
\<close>

section \<open>The program\<close>

datatype reader =
    R_loop       \<comment> \<open>at the loop condition\<close>
  | R_first      \<comment> \<open>inside the first pop\<close>
  | R_empty      \<comment> \<open>which found nothing: about to load \<^verbatim>\<open>done\<close>\<close>
  | R_retry      \<comment> \<open>\<^verbatim>\<open>done\<close> was set: about to pop again\<close>
  | R_second     \<comment> \<open>inside the second pop\<close>
  | R_end

record ring_bench =
  rb :: "u64 ring_machine"
  sent :: nat
  done_flag :: bool
  reading :: reader

text \<open>Where a finished pop leads, given whether it got an element.\<close>

fun after_read :: "reader \<Rightarrow> bool \<Rightarrow> reader" where
  "after_read R_first False = R_empty"
| "after_read R_second False = R_end"
| "after_read _ _ = R_loop"

text \<open>\<open>N\<close> is how many numbers the main thread pushes, \<open>L\<close> the consumer's bound as an unsigned number.\<close>

inductive ring_bench_step :: "nat \<Rightarrow> nat \<Rightarrow> ring_bench \<Rightarrow> ring_bench \<Rightarrow> bool" for N L where
  send_try:
    "prod (rb s) = P_idle \<Longrightarrow> sent s < N \<Longrightarrow>
     ring_bench_step N L s (s\<lparr>rb := (rb s)\<lparr>prod := P_loaded (of_nat (sent s)) (write_pos (ring_of (rb s)))\<rparr>\<rparr>)"
| send_go:
    "prod (rb s) \<noteq> P_idle \<Longrightarrow> ring_step (rb s) m \<Longrightarrow> cons m = cons (rb s) \<Longrightarrow> obs m = obs (rb s) \<Longrightarrow>
     ring_bench_step N L s (s\<lparr>rb := m, sent := sent s + (length (pushed m) - length (pushed (rb s)))\<rparr>)"
| send_end: "prod (rb s) = P_idle \<Longrightarrow> sent s = N \<Longrightarrow> \<not> done_flag s \<Longrightarrow> ring_bench_step N L s (s\<lparr>done_flag := True\<rparr>)"
| read_try:
    "reading s = R_loop \<Longrightarrow> length (popped (rb s)) < L \<Longrightarrow>
     ring_bench_step N L s (s\<lparr>rb := (rb s)\<lparr>cons := C_loaded (read_pos (ring_of (rb s)))\<rparr>, reading := R_first\<rparr>)"
| read_again:
    "reading s = R_retry \<Longrightarrow>
     ring_bench_step N L s (s\<lparr>rb := (rb s)\<lparr>cons := C_loaded (read_pos (ring_of (rb s)))\<rparr>, reading := R_second\<rparr>)"
| read_go:
    "cons (rb s) \<noteq> C_idle \<Longrightarrow> ring_step (rb s) m \<Longrightarrow> prod m = prod (rb s) \<Longrightarrow> obs m = obs (rb s) \<Longrightarrow>
     ring_bench_step N L s
       (s\<lparr>rb := m, reading := (if cons m = C_idle then after_read (reading s) (popped m \<noteq> popped (rb s)) else reading s)\<rparr>)"
| read_done: "reading s = R_empty \<Longrightarrow> ring_bench_step N L s (s\<lparr>reading := (if done_flag s then R_retry else R_loop)\<rparr>)"
| read_end: "reading s = R_loop \<Longrightarrow> \<not> length (popped (rb s)) < L \<Longrightarrow> ring_bench_step N L s (s\<lparr>reading := R_end\<rparr>)"

definition ring_bench_init :: "u64 \<Rightarrow> ring_bench \<Rightarrow> bool" where
  "ring_bench_init cap s \<longleftrightarrow> ring_machine_init cap (rb s) \<and> sent s = 0 \<and> \<not> done_flag s \<and> reading s = R_loop"

section \<open>Invariant\<close>

text \<open>The element a push in progress carries.\<close>

fun carried :: "'a prod_pc \<Rightarrow> 'a option" where
  "carried P_idle = None"
| "carried (P_loaded v w) = Some v"
| "carried (P_reload v w) = Some v"
| "carried (P_store v w) = Some v"
| "carried (P_publish v w) = Some v"

definition ring_bench_inv :: "u64 \<Rightarrow> nat \<Rightarrow> ring_bench \<Rightarrow> bool" where
  "ring_bench_inv cap N s \<longleftrightarrow>
     reachable (ring_machine_init cap) ring_step (rb s) \<and>
     pushed (rb s) = map of_nat [0..<sent s] \<and> sent s \<le> N \<and>
     (prod (rb s) \<noteq> P_idle \<longrightarrow> sent s < N \<and> carried (prod (rb s)) = Some (of_nat (sent s))) \<and>
     (done_flag s \<longrightarrow> sent s = N) \<and>
     (cons (rb s) = C_idle \<longleftrightarrow> reading s \<noteq> R_first \<and> reading s \<noteq> R_second) \<and>
     (reading s \<in> {R_retry, R_second} \<longrightarrow> done_flag s) \<and>
     (reading s = R_end \<longrightarrow> sent s = N \<and> popped (rb s) = pushed (rb s))"

text \<open>The steps of a push: it goes on with its element, gives up, or publishes it.\<close>

lemma push_step_cases [consumes 4, case_names Go Full Publish]:
  assumes "ring_step m m'" and "prod m \<noteq> P_idle" and "cons m' = cons m" and "obs m' = obs m"
  obtains (Go) "pushed m' = pushed m" "popped m' = popped m" "prod m' \<noteq> P_idle" "carried (prod m') = carried (prod m)"
  | (Full) "pushed m' = pushed m" "popped m' = popped m" "prod m' = P_idle"
  | (Publish) v where "carried (prod m) = Some v" "pushed m' = pushed m @ [v]" "popped m' = popped m" "prod m' = P_idle"
  using assms by (cases rule: ring_step.cases) (auto split: if_splits)

text \<open>The steps of a pop: it goes on, finds the ring empty, or hands over an element.\<close>

lemma pop_step_cases [consumes 4, case_names Go Empty Take]:
  assumes "ring_step m m'" and "cons m \<noteq> C_idle" and "prod m' = prod m" and "obs m' = obs m"
  obtains (Go) "pushed m' = pushed m" "popped m' = popped m" "cons m' \<noteq> C_idle"
  | (Empty) rd where "cons m = C_reload rd" "rd = write_pos (ring_of m)" "pushed m' = pushed m" "popped m' = popped m" "cons m' = C_idle"
  | (Take) x where "pushed m' = pushed m" "popped m' = popped m @ [x]" "cons m' = C_idle"
  using assms by (cases rule: ring_step.cases) (auto split: if_splits)

lemma empty_seen:
  assumes "unat cap \<le> 2 ^ 63" and "reachable (ring_machine_init cap) ring_step m"
    and "cons m = C_reload rd" and "rd = write_pos (ring_of m)"
  shows "popped m = pushed m"
proof -
  obtain k RC WC where m: "machine_at m k RC WC" using assms(1,2) by (rule reachable_machine)
  then have at: "ring_at (ring_of m) k (length (pushed m)) (length (popped m)) RC WC" and "rd = read_pos (ring_of m)"
    using assms(3) by (simp_all add: machine_at_def)
  then have "length (pushed m) = length (popped m)" using ring_at_diffs(4) [OF at] assms(4) by simp
  then show ?thesis using m by (metis machine_at_def order_refl take_all)
qed

lemma popped_le:
  assumes "unat cap \<le> 2 ^ 63" and "reachable (ring_machine_init cap) ring_step m"
  shows "popped m = take (length (popped m)) (pushed m)" and "length (popped m) \<le> length (pushed m)"
proof -
  obtain k RC WC where m: "machine_at m k RC WC" using assms by (rule reachable_machine)
  then show t: "popped m = take (length (popped m)) (pushed m)" by (simp add: machine_at_def)
  show "length (popped m) \<le> length (pushed m)" using arg_cong [OF t, of length] by simp
qed

lemma ring_bench_inv_step:
  assumes cap: "unat cap \<le> 2 ^ 63" and L: "N \<le> L" and inv: "ring_bench_inv cap N s" and step: "ring_bench_step N L s s'"
  shows "ring_bench_inv cap N s'"
proof -
  have r: "reachable (ring_machine_init cap) ring_step (rb s)" using inv by (simp add: ring_bench_inv_def)
  from step show ?thesis
  proof cases
    case send_try
    then show ?thesis using inv ring_move [OF r push_load [OF send_try(2), of "of_nat (sent s)"]]
      by (auto simp: ring_bench_inv_def)
  next
    case (send_go m)
    have m: "reachable (ring_machine_init cap) ring_step m" using r send_go(3) by (rule ring_move)
    from send_go(3,2,4,5) show ?thesis
      by (cases rule: push_step_cases) (use inv m send_go in \<open>auto simp: ring_bench_inv_def\<close>)
  next
    case send_end
    then show ?thesis using inv by (simp add: ring_bench_inv_def)
  next
    case read_try
    then have "cons (rb s) = C_idle" using inv by (simp add: ring_bench_inv_def)
    then show ?thesis using inv read_try ring_move [OF r pop_load] by (simp add: ring_bench_inv_def)
  next
    case read_again
    then have "cons (rb s) = C_idle" using inv by (simp add: ring_bench_inv_def)
    then show ?thesis using inv read_again ring_move [OF r pop_load] by (auto simp: ring_bench_inv_def)
  next
    case (read_go m)
    have m: "reachable (ring_machine_init cap) ring_step m" using r read_go(3) by (rule ring_move)
    have rd: "reading s = R_first \<or> reading s = R_second" using inv read_go(2) by (auto simp: ring_bench_inv_def)
    from read_go(3,2,4,5) show ?thesis
    proof (cases rule: pop_step_cases)
      case (Empty rdp)
      then have "popped (rb s) = pushed (rb s)" using empty_seen [OF cap r] by blast
      then show ?thesis using inv m Empty read_go rd by (auto simp: ring_bench_inv_def)
    qed (use inv m read_go rd in \<open>auto simp: ring_bench_inv_def\<close>)
  next
    case read_done
    then show ?thesis using inv by (auto simp: ring_bench_inv_def)
  next
    case read_end
    have "length (popped (rb s)) \<le> sent s" using popped_le(2) [OF cap r] inv by (simp add: ring_bench_inv_def)
    then have "sent s = N" "length (popped (rb s)) = sent s" using read_end(3) L inv by (auto simp: ring_bench_inv_def)
    then have "popped (rb s) = pushed (rb s)" using popped_le(1) [OF cap r] inv by (simp add: ring_bench_inv_def)
    then show ?thesis using inv read_end \<open>sent s = N\<close> by (simp add: ring_bench_inv_def)
  qed
qed

text \<open>The bounds are fixed, so they may be kept with the states.\<close>

definition bounded_bench :: "u64 \<Rightarrow> nat \<Rightarrow> nat \<Rightarrow> bool" where
  "bounded_bench cap N L \<longleftrightarrow> unat cap \<le> 2 ^ 63 \<and> N \<le> L"

interpretation ring_bench: inductive_invariant "ring_bench_init cap" "ring_bench_step N L"
    "\<lambda>s. bounded_bench cap N L \<longrightarrow> ring_bench_inv cap N s" for cap N L
proof
  show "bounded_bench cap N L \<longrightarrow> ring_bench_inv cap N s" if "ring_bench_init cap s" for s
    using that by (auto simp: ring_bench_inv_def ring_bench_init_def ring_machine_init_def intro!: reachable.start)
  show "bounded_bench cap N L \<longrightarrow> ring_bench_inv cap N s'"
    if "bounded_bench cap N L \<longrightarrow> ring_bench_inv cap N s" "ring_bench_step N L s s'" for s s'
    using that ring_bench_inv_step unfolding bounded_bench_def by blast
qed

lemma reader_bound: "n < 2 ^ 63 \<Longrightarrow> nat n \<le> unat (of_int n :: u64)"
proof (cases "0 \<le> n")
  case True
  assume "n < 2 ^ 63"
  then have "unat (of_int n :: u64) = nat n" using True unat_of_nat_small [of "nat n"] by simp
  then show ?thesis by simp
qed simp

lemma ring_popped_all:
  assumes "unat cap \<le> 2 ^ 63" and "- (2 ^ 63) \<le> n" and "n < 2 ^ 63"
    and "reachable (ring_bench_init cap) (ring_bench_step (nat n) (unat (of_int n :: u64))) s" and "reading s = R_end"
  shows "popped (rb s) = map of_nat [0..<nat n]"
proof -
  have "nat n \<le> unat (of_int n :: u64)" using assms(3) by (rule reader_bound)
  then have "ring_bench_inv cap (nat n) s"
    using ring_bench.reachable_inv [OF assms(4)] assms(1) by (simp add: bounded_bench_def)
  then show ?thesis using assms(5) by (simp add: ring_bench_inv_def)
qed

text \<open>
  The ring benchmark loses nothing, for any \<^verbatim>\<open>count\<close>, a negative one included: when its consumer has ended,
  whether by its bound or by an empty ring after the flag, it has popped exactly the numbers below \<^verbatim>\<open>count\<close>, in order.
\<close>

theorem ring_bench_consumes_all:
  assumes "unat cap \<le> 2 ^ 63" and "- (2 ^ 63) \<le> n" and "n < 2 ^ 63"
    and "reachable (ring_bench_init cap) (ring_bench_step (nat n) (unat (of_int n :: u64))) s" and "reading s = R_end"
  shows "popped (rb s) = map of_nat [0..<nat n]"
  using assms by (rule ring_popped_all)

definition bench_at :: "u64 SpscRing \<Rightarrow> u64 prod_pc \<Rightarrow> u64 cons_pc \<Rightarrow> u64 list \<Rightarrow> u64 list \<Rightarrow> reader \<Rightarrow> ring_bench" where
  "bench_at r p c xs ys rd =
     \<lparr>rb = \<lparr>ring_of = r, prod = p, cons = c, obs = O_idle, pushed = xs, popped = ys\<rparr>, sent = length xs, done_flag = False, reading = rd\<rparr>"

abbreviation one_reach :: "ring_bench \<Rightarrow> bool" where
  "one_reach \<equiv> reachable (ring_bench_init 2) (ring_bench_step 1 1)"

text \<open>One number sent and received: the main thread first, then the consumer, then the flag.\<close>

definition one_states :: "ring_bench list" where
  "one_states =
     (let r = new_ring 0 2; r1 = r\<lparr>write_pos := 1\<rparr>; r2 = r1\<lparr>write_cache := 1\<rparr>; r3 = r2\<lparr>slots := [9, 0]\<rparr>; r4 = r3\<lparr>read_pos := 1\<rparr>
      in [bench_at r P_idle C_idle [] [] R_loop, bench_at r (P_loaded 0 0) C_idle [] [] R_loop,
          bench_at r (P_store 0 0) C_idle [] [] R_loop, bench_at r (P_publish 0 0) C_idle [] [] R_loop,
          bench_at r1 P_idle C_idle [0] [] R_loop, bench_at r1 P_idle (C_loaded 0) [0] [] R_first,
          bench_at r1 P_idle (C_reload 0) [0] [] R_first, bench_at r2 P_idle (C_read 0) [0] [] R_first,
          bench_at r3 P_idle (C_publish 0 0) [0] [] R_first, bench_at r4 P_idle C_idle [0] [0] R_loop,
          bench_at r4 P_idle C_idle [0] [0] R_end, (bench_at r4 P_idle C_idle [0] [0] R_end)\<lparr>done_flag := True\<rparr>])"

lemma one_run: "successively (ring_bench_step 1 1) one_states"
proof -
  let ?r = "new_ring 0 2 :: u64 SpscRing"
  let ?r1 = "?r\<lparr>write_pos := 1\<rparr>" let ?r2 = "?r1\<lparr>write_cache := 1\<rparr>" let ?r3 = "?r2\<lparr>slots := [9, 0]\<rparr>" let ?r4 = "?r3\<lparr>read_pos := 1\<rparr>"
  have r: "write_pos ?r = 0" "read_cache ?r = 0" "read_pos ?r = 0" "write_cache ?r = 0" "ring_capacity ?r = 2" "slots ?r = [0, 0]"
    "mask_bits ?r = 1" "?r\<lparr>slots := [0, 0]\<rparr> = ?r" by code_simp+
  note at = bench_at_def r ring_capacity_def
  have "ring_bench_step 1 1 (bench_at ?r P_idle C_idle [] [] R_loop) (bench_at ?r (P_loaded 0 0) C_idle [] [] R_loop)"
    using send_try [of "bench_at ?r P_idle C_idle [] [] R_loop" 1 1] by (simp add: at)
  moreover have "ring_bench_step 1 1 (bench_at ?r (P_loaded 0 0) C_idle [] [] R_loop) (bench_at ?r (P_store 0 0) C_idle [] [] R_loop)"
    using send_go [of "bench_at ?r (P_loaded 0 0) C_idle [] [] R_loop", OF _ push_check [of _ 0 0], of 1 1] by (simp add: at)
  moreover have "ring_bench_step 1 1 (bench_at ?r (P_store 0 0) C_idle [] [] R_loop) (bench_at ?r (P_publish 0 0) C_idle [] [] R_loop)"
    using send_go [of "bench_at ?r (P_store 0 0) C_idle [] [] R_loop", OF _ push_store [of _ 0 0], of 1 1] by (simp add: at)
  moreover have "ring_bench_step 1 1 (bench_at ?r (P_publish 0 0) C_idle [] [] R_loop) (bench_at ?r1 P_idle C_idle [0] [] R_loop)"
    using send_go [of "bench_at ?r (P_publish 0 0) C_idle [] [] R_loop", OF _ push_publish [of _ 0 0], of 1 1] by (simp add: at)
  moreover have "ring_bench_step 1 1 (bench_at ?r1 P_idle C_idle [0] [] R_loop) (bench_at ?r1 P_idle (C_loaded 0) [0] [] R_first)"
    using read_try [of "bench_at ?r1 P_idle C_idle [0] [] R_loop" 1 1] by (simp add: at)
  moreover have "ring_bench_step 1 1 (bench_at ?r1 P_idle (C_loaded 0) [0] [] R_first) (bench_at ?r1 P_idle (C_reload 0) [0] [] R_first)"
    using read_go [of "bench_at ?r1 P_idle (C_loaded 0) [0] [] R_first", OF _ pop_check [of _ 0], of 1 1] by (simp add: at)
  moreover have "ring_bench_step 1 1 (bench_at ?r1 P_idle (C_reload 0) [0] [] R_first) (bench_at ?r2 P_idle (C_read 0) [0] [] R_first)"
    using read_go [of "bench_at ?r1 P_idle (C_reload 0) [0] [] R_first", OF _ pop_reload [of _ 0], of 1 1] by (simp add: at)
  moreover have "ring_bench_step 1 1 (bench_at ?r2 P_idle (C_read 0) [0] [] R_first) (bench_at ?r3 P_idle (C_publish 0 0) [0] [] R_first)"
    using read_go [of "bench_at ?r2 P_idle (C_read 0) [0] [] R_first", OF _ pop_read [of _ 0 0 9], of 1 1] by (simp add: at)
  moreover have "ring_bench_step 1 1 (bench_at ?r3 P_idle (C_publish 0 0) [0] [] R_first) (bench_at ?r4 P_idle C_idle [0] [0] R_loop)"
    using read_go [of "bench_at ?r3 P_idle (C_publish 0 0) [0] [] R_first", OF _ pop_publish [of _ 0 0], of 1 1] by (simp add: at)
  moreover have "ring_bench_step 1 1 (bench_at ?r4 P_idle C_idle [0] [0] R_loop) (bench_at ?r4 P_idle C_idle [0] [0] R_end)"
    using read_end [of "bench_at ?r4 P_idle C_idle [0] [0] R_loop" 1 1] by (simp add: at)
  moreover have "ring_bench_step 1 1 (bench_at ?r4 P_idle C_idle [0] [0] R_end) ((bench_at ?r4 P_idle C_idle [0] [0] R_end)\<lparr>done_flag := True\<rparr>)"
    using send_end [of "bench_at ?r4 P_idle C_idle [0] [0] R_end" 1 1] by (simp add: at)
  ultimately show ?thesis by (simp only: one_states_def Let_def successively.simps)
qed

lemma one_start: "ring_bench_init 2 (hd one_states)"
  by (auto simp: one_states_def Let_def ring_bench_init_def bench_at_def ring_machine_init_def)

lemma one_states_reach: "s \<in> set one_states \<Longrightarrow> one_reach s"
  using reachable_successively [of "ring_bench_step 1 1" "hd one_states" "tl one_states"] one_run
    reachable.start [of "ring_bench_init 2", OF one_start]
  by (simp add: one_states_def Let_def)

lemma one_received: "\<exists>r. one_reach (bench_at r P_idle C_idle [0] [0] R_end)"
proof -
  have "one_reach (one_states ! 10)" by (rule one_states_reach) (simp add: one_states_def Let_def)
  then show ?thesis by (auto simp: one_states_def Let_def)
qed

theorem ring_bench_consumes_all_witness: "\<exists>s. one_reach s \<and> reading s = R_end \<and> popped (rb s) = map of_nat [0..<nat 1]"
proof -
  obtain r where s: "one_reach (bench_at r P_idle C_idle [0] [0] R_end)" using one_received by blast
  have u: "nat 1 = 1" "unat (of_int 1 :: u64) = 1" by simp_all
  have "popped (rb (bench_at r P_idle C_idle [0] [0] R_end)) = map of_nat [0..<nat 1]"
    by (rule ring_bench_consumes_all [of 2 1]) (use s in \<open>simp_all only: u, simp_all add: bench_at_def\<close>)
  then show ?thesis using s by (intro exI [of _ "bench_at r P_idle C_idle [0] [0] R_end"]) (simp add: bench_at_def)
qed

end
