(* ===== verification/Bench_Ring_Progress.thy ===== *)
theory Bench_Ring_Progress
  imports Bench_Ring
begin

text \<open>
  That the ring benchmark ends. Both of its threads spin: the main thread while the ring is full, the consumer
  while it is empty and the flag is not set. Neither waits for the other to be scheduled, so the program ends
  only if both are: under every weakly fair schedule it does. The proof follows the ring from one element to the
  next: while elements are in it the consumer comes closer to taking one (\<open>read_rank\<close>), while it is empty the main thread comes
  closer to publishing one (\<open>send_rank\<close>), and after the last one and the flag the consumer comes closer to leaving
  its loop (\<open>end_rank\<close>).
\<close>

section \<open>Turns of the two threads\<close>

definition send_turn :: "nat \<Rightarrow> nat \<Rightarrow> ring_bench \<Rightarrow> ring_bench \<Rightarrow> bool" where
  "send_turn N L s t \<longleftrightarrow> ring_bench_step N L s t \<and> (prod (rb t) \<noteq> prod (rb s) \<or> done_flag t \<noteq> done_flag s)"

definition read_turn :: "nat \<Rightarrow> nat \<Rightarrow> ring_bench \<Rightarrow> ring_bench \<Rightarrow> bool" where
  "read_turn N L s t \<longleftrightarrow> ring_bench_step N L s t \<and> (cons (rb t) \<noteq> cons (rb s) \<or> reading t \<noteq> reading s)"

definition fair_ring_run :: "nat \<Rightarrow> nat \<Rightarrow> (nat \<Rightarrow> ring_bench) \<Rightarrow> bool" where
  "fair_ring_run N L \<sigma> \<longleftrightarrow>
     (\<forall>k. \<sigma> (Suc k) = \<sigma> k \<or> ring_bench_step N L (\<sigma> k) (\<sigma> (Suc k))) \<and>
     weakly_fair (\<lambda>k. \<exists>t. send_turn N L (\<sigma> k) t) (\<lambda>k. send_turn N L (\<sigma> k) (\<sigma> (Suc k))) \<and>
     weakly_fair (\<lambda>k. \<exists>t. read_turn N L (\<sigma> k) t) (\<lambda>k. read_turn N L (\<sigma> k) (\<sigma> (Suc k)))"

text \<open>Nobody calls \<^verbatim>\<open>size\<close> in this program, so every step belongs to one of the two threads.\<close>

lemma push_stepD:
  assumes "ring_step m m'" and "cons m' = cons m" and "obs m' = obs m" and "obs m = O_idle"
  shows "prod m' \<noteq> prod m" "popped m' = popped m" "read_pos (ring_of m') = read_pos (ring_of m)"
  using assms by (cases rule: ring_step.cases; auto split: if_splits)+

lemma pop_stepD:
  assumes "ring_step m m'" and "prod m' = prod m" and "obs m' = obs m" and "obs m = O_idle"
  shows "cons m' \<noteq> cons m" "pushed m' = pushed m"
  using assms by (cases rule: ring_step.cases; auto split: if_splits)+

lemma step_idle: "ring_bench_step N L s t \<Longrightarrow> obs (rb t) = obs (rb s)"
  by (cases rule: ring_bench_step.cases) auto

lemma bench_turns:
  assumes "ring_bench_step N L s t" and "obs (rb s) = O_idle"
  shows "send_turn N L s t \<and> cons (rb t) = cons (rb s) \<and> reading t = reading s \<and> popped (rb t) = popped (rb s) \<or>
    read_turn N L s t \<and> prod (rb t) = prod (rb s) \<and> done_flag t = done_flag s \<and> sent t = sent s"
  using assms(1)
proof cases
  case (send_go m)
  then show ?thesis using assms push_stepD [OF send_go(3-5) assms(2)] by (simp add: send_turn_def)
next
  case (read_go m)
  then show ?thesis using assms pop_stepD [OF read_go(3-5) assms(2)] by (simp add: read_turn_def)
qed (use assms(1) in \<open>auto simp: send_turn_def read_turn_def\<close>)

lemma send_turnD:
  assumes "send_turn N L s t" and "obs (rb s) = O_idle"
  shows "cons (rb t) = cons (rb s)" "reading t = reading s" "popped (rb t) = popped (rb s)" "sent s \<le> sent t" "done_flag s \<longrightarrow> done_flag t"
proof -
  have st: "ring_bench_step N L s t" using assms(1) by (simp add: send_turn_def)
  show "cons (rb t) = cons (rb s)" "reading t = reading s" "popped (rb t) = popped (rb s)"
    using bench_turns [OF st assms(2)] assms(1) by (auto simp: send_turn_def)
  show "sent s \<le> sent t" "done_flag s \<longrightarrow> done_flag t" using st by (cases rule: ring_bench_step.cases; simp)+
qed

lemma read_turnD:
  assumes "read_turn N L s t" and "obs (rb s) = O_idle"
  shows "prod (rb t) = prod (rb s)" "sent t = sent s" "done_flag t = done_flag s" "length (popped (rb s)) \<le> length (popped (rb t))"
proof -
  have st: "ring_bench_step N L s t" using assms(1) by (simp add: read_turn_def)
  show "prod (rb t) = prod (rb s)" "sent t = sent s" "done_flag t = done_flag s"
    using bench_turns [OF st assms(2)] assms(1) by (auto simp: read_turn_def)
  have "length (popped m) \<le> length (popped m')" if "ring_step m m'" for m m' :: "u64 ring_machine"
    using that by (cases rule: ring_step.cases) auto
  with st show "length (popped (rb s)) \<le> length (popped (rb t))" by (cases rule: ring_bench_step.cases) auto
qed

section \<open>No thread is stuck\<close>

lemma push_enabled: "prod m \<noteq> P_idle \<Longrightarrow> \<exists>m'. ring_step m m' \<and> cons m' = cons m \<and> obs m' = obs m \<and> prod m' \<noteq> prod m"
proof (cases "prod m")
  case (P_loaded v w)
  then show ?thesis by (intro exI conjI, rule push_check) auto
next
  case (P_reload v w)
  then show ?thesis by (intro exI conjI, rule push_reload) auto
next
  case (P_store v w)
  then show ?thesis by (intro exI conjI, rule push_store) auto
next
  case (P_publish v w)
  then show ?thesis by (intro exI conjI, rule push_publish) auto
qed simp

lemma pop_enabled: "cons m \<noteq> C_idle \<Longrightarrow> \<exists>m'. ring_step m m' \<and> prod m' = prod m \<and> obs m' = obs m \<and> cons m' \<noteq> cons m"
proof (cases "cons m")
  case (C_loaded rd)
  then show ?thesis by (intro exI conjI, rule pop_check) auto
next
  case (C_reload rd)
  then show ?thesis by (intro exI conjI, rule pop_reload) auto
next
  case (C_read rd)
  then show ?thesis by (intro exI conjI, rule pop_read [OF _ refl]) auto
next
  case (C_publish rd out)
  then show ?thesis by (intro exI conjI, rule pop_publish) auto
qed simp

lemma send_enabled:
  assumes "ring_bench_inv cap N s" and "sent s < N \<or> \<not> done_flag s"
  shows "\<exists>t. send_turn N L s t"
proof (cases "prod (rb s) = P_idle")
  case idle: True
  show ?thesis
  proof (cases "sent s < N")
    case True
    show ?thesis using send_try [OF idle True, of L] idle by (intro exI) (auto simp: send_turn_def)
  next
    case False
    then have "sent s = N" "\<not> done_flag s" using assms by (auto simp: ring_bench_inv_def)
    then show ?thesis using send_end [OF idle, of N L] by (intro exI) (auto simp: send_turn_def)
  qed
next
  case False
  obtain m where "ring_step (rb s) m" "cons m = cons (rb s)" "obs m = obs (rb s)" "prod m \<noteq> prod (rb s)"
    using push_enabled [OF False] by blast
  then show ?thesis using send_go [OF False, of m N L] by (intro exI) (auto simp: send_turn_def)
qed

lemma read_enabled:
  assumes "ring_bench_inv cap N s" and "reading s \<noteq> R_end"
  shows "\<exists>t. read_turn N L s t"
proof (cases "cons (rb s) = C_idle")
  case True
  then have "reading s \<noteq> R_first" "reading s \<noteq> R_second" using assms by (auto simp: ring_bench_inv_def)
  then consider "reading s = R_loop" "length (popped (rb s)) < L" | "reading s = R_loop" "\<not> length (popped (rb s)) < L"
    | "reading s = R_empty" | "reading s = R_retry" using assms(2) by (cases "reading s") auto
  then show ?thesis
  proof cases
    case 1
    then show ?thesis using read_try [OF 1, of N] by (intro exI) (auto simp: read_turn_def)
  next
    case 2
    then show ?thesis using read_end [OF 2, of N] by (intro exI) (auto simp: read_turn_def)
  next
    case 3
    have "read_turn N L s (s\<lparr>reading := if done_flag s then R_retry else R_loop\<rparr>)"
      using read_done [OF 3, of N L] 3 by (cases "done_flag s") (simp_all add: read_turn_def)
    then show ?thesis by blast
  next
    case 4
    then show ?thesis using read_again [OF 4, of N L] by (intro exI) (auto simp: read_turn_def)
  qed
next
  case False
  obtain m where "ring_step (rb s) m" "prod m = prod (rb s)" "obs m = obs (rb s)" "cons m \<noteq> cons (rb s)"
    using pop_enabled [OF False] by blast
  then show ?thesis using read_go [OF False, of m N L] by (intro exI) (auto simp: read_turn_def)
qed

section \<open>What brings each thread closer\<close>

fun send_rank :: "'a prod_pc \<Rightarrow> nat" where
  "send_rank (P_publish v w) = 1"
| "send_rank (P_store v w) = 2"
| "send_rank (P_reload v w) = 3"
| "send_rank (P_loaded v w) = 4"
| "send_rank P_idle = 5"

fun cons_rank :: "'a cons_pc \<Rightarrow> nat" where
  "cons_rank C_idle = 0"
| "cons_rank (C_publish rd out) = 1"
| "cons_rank (C_read rd) = 2"
| "cons_rank (C_reload rd) = 3"
| "cons_rank (C_loaded rd) = 4"

fun read_rank :: "reader \<Rightarrow> 'a cons_pc \<Rightarrow> nat" where
  "read_rank R_first c = cons_rank c"
| "read_rank R_second c = cons_rank c"
| "read_rank R_loop c = 5"
| "read_rank R_retry c = 5"
| "read_rank R_empty c = 6"
| "read_rank R_end c = 0"

fun end_rank :: "reader \<Rightarrow> 'a cons_pc \<Rightarrow> nat" where
  "end_rank R_end c = 0"
| "end_rank R_second c = cons_rank c"
| "end_rank R_retry c = 5"
| "end_rank R_empty c = 6"
| "end_rank R_first c = 7 + cons_rank c"
| "end_rank R_loop c = 12"

text \<open>With an element in the ring the consumer takes it.\<close>

lemma nonempty_read:
  assumes cap: "unat cap \<le> 2 ^ 63" and inv: "ring_bench_inv cap N s" and L: "N \<le> L" and idle: "obs (rb s) = O_idle"
    and some: "length (popped (rb s)) < sent s" and turn: "read_turn N L s t"
  shows "length (popped (rb s)) < length (popped (rb t)) \<or> read_rank (reading t) (cons (rb t)) < read_rank (reading s) (cons (rb s))"
proof -
  have r: "reachable (ring_machine_init cap) ring_step (rb s)" and len: "length (pushed (rb s)) = sent s" "sent s \<le> N"
    and rd: "cons (rb s) \<noteq> C_idle \<Longrightarrow> reading s = R_first \<or> reading s = R_second"
    using inv by (auto simp: ring_bench_inv_def)
  have st: "ring_bench_step N L s t" using turn by (simp add: read_turn_def)
  then show ?thesis
  proof cases
    case (read_go m)
    have full: "rd \<noteq> write_pos (ring_of (rb s))" if "cons (rb s) = C_reload rd" for rd
      using empty_seen [OF cap r that] some len(1) by auto
    from read_go(3) show ?thesis
      by (cases rule: ring_step.cases) (use rd read_go full idle in \<open>auto split: if_splits\<close>)
  next
    case (send_go m)
    then show ?thesis using push_stepD [OF send_go(3-5) idle] turn by (simp add: read_turn_def)
  qed (use turn some len L in \<open>auto simp: read_turn_def\<close>)
qed

text \<open>With an empty ring the main thread publishes its next number.\<close>

lemma empty_send:
  assumes cap: "unat cap \<le> 2 ^ 63" and inv: "ring_bench_inv cap N s" and idle: "obs (rb s) = O_idle"
    and none: "length (popped (rb s)) = sent s" "sent s < N" and turn: "send_turn N L s t"
  shows "sent s < sent t \<or> send_rank (prod (rb t)) < send_rank (prod (rb s))"
proof -
  have r: "reachable (ring_machine_init cap) ring_step (rb s)" and len: "length (pushed (rb s)) = sent s"
    using inv by (auto simp: ring_bench_inv_def)
  obtain k RC WC where m: "machine_at (rb s) k RC WC" using cap r by (rule reachable_machine)
  have at: "ring_at (ring_of (rb s)) k (sent s) (sent s) RC WC" using m len none by (simp add: machine_at_def)
  have room: "w - read_pos (ring_of (rb s)) \<noteq> ring_capacity (ring_of (rb s))" if "prod (rb s) = P_reload v w" for v w
    using ring_at_diffs(2) [OF at] m that by (simp add: machine_at_def)
  have st: "ring_bench_step N L s t" using turn by (simp add: send_turn_def)
  then show ?thesis
  proof cases
    case (send_go m')
    from send_go(3) show ?thesis
      by (cases rule: ring_step.cases) (use send_go room idle in \<open>auto split: if_splits\<close>)
  next
    case (read_go m')
    then show ?thesis using pop_stepD [OF read_go(3-5) idle] turn by (simp add: send_turn_def)
  qed (use turn none in \<open>auto simp: send_turn_def\<close>)
qed

text \<open>After the last element and the flag the consumer leaves its loop.\<close>

lemma drained_read:
  assumes cap: "unat cap \<le> 2 ^ 63" and inv: "ring_bench_inv cap N s" and idle: "obs (rb s) = O_idle"
    and fin: "length (popped (rb s)) = N" "sent s = N" "done_flag s" and turn: "read_turn N L s t"
  shows "end_rank (reading t) (cons (rb t)) < end_rank (reading s) (cons (rb s))"
proof -
  have r: "reachable (ring_machine_init cap) ring_step (rb s)" and len: "length (pushed (rb s)) = sent s"
    and rd: "cons (rb s) \<noteq> C_idle \<Longrightarrow> reading s = R_first \<or> reading s = R_second"
    using inv by (auto simp: ring_bench_inv_def)
  obtain k RC WC where m: "machine_at (rb s) k RC WC" using cap r by (rule reachable_machine)
  have no: "\<not> N < WC" and emp: "read_pos (ring_of (rb s)) = write_pos (ring_of (rb s))"
    "read_pos (ring_of (rb s)) = write_cache (ring_of (rb s))"
    using m fin len ring_at_diffs(3,4) by (fastforce simp: machine_at_def ring_at_def)+
  have c: "cons (rb s) = C_loaded (read_pos (ring_of (rb s))) \<or> cons (rb s) = C_reload (read_pos (ring_of (rb s)))" if "cons (rb s) \<noteq> C_idle"
    using m no fin that by (cases "cons (rb s)") (auto simp: machine_at_def)
  have st: "ring_bench_step N L s t" using turn by (simp add: read_turn_def)
  then show ?thesis
  proof cases
    case (read_go m')
    from read_go(3) show ?thesis
      by (cases rule: ring_step.cases) (use rd read_go c emp idle in \<open>auto split: if_splits\<close>)
  next
    case (send_go m')
    then show ?thesis using push_stepD [OF send_go(3-5) idle] turn by (simp add: read_turn_def)
  qed (use turn fin in \<open>auto simp: read_turn_def\<close>)
qed

section \<open>The program ends\<close>

definition spin_inv :: "u64 \<Rightarrow> nat \<Rightarrow> ring_bench \<Rightarrow> bool" where
  "spin_inv cap N s \<longleftrightarrow> ring_bench_inv cap N s \<and> obs (rb s) = O_idle"

abbreviation taken_out :: "ring_bench \<Rightarrow> nat" where
  "taken_out s \<equiv> length (popped (rb s))"

lemma spin_inv_run:
  assumes "unat cap \<le> 2 ^ 63" and "N \<le> L" and "ring_bench_init cap (\<sigma> 0)" and "fair_ring_run N L \<sigma>"
  shows "spin_inv cap N (\<sigma> k)"
proof (induction k)
  case 0
  have "ring_bench_inv cap N (\<sigma> 0)"
    using ring_bench.reachable_inv [OF reachable.start [of "ring_bench_init cap", OF assms(3)], of N L] assms(1,2)
    by (simp add: bounded_bench_def)
  then show ?case using assms(3) by (simp add: spin_inv_def ring_bench_init_def ring_machine_init_def)
next
  case (Suc k)
  then show ?case using assms(4) ring_bench_inv_step [OF assms(1,2), of "\<sigma> k" "\<sigma> (Suc k)"] step_idle [of N L "\<sigma> k" "\<sigma> (Suc k)"]
    unfolding fair_ring_run_def spin_inv_def by metis
qed

text \<open>In a run every position rests or is a turn of one of the threads.\<close>

lemma run_cases [consumes 2, case_names Rest Send Read]:
  assumes "fair_ring_run N L \<sigma>" and "spin_inv cap N (\<sigma> j)"
  obtains (Rest) "\<sigma> (Suc j) = \<sigma> j" | (Send) "send_turn N L (\<sigma> j) (\<sigma> (Suc j))" | (Read) "read_turn N L (\<sigma> j) (\<sigma> (Suc j))"
  using assms bench_turns unfolding fair_ring_run_def spin_inv_def by blast

lemma run_mono:
  assumes "fair_ring_run N L \<sigma>" and "spin_inv cap N (\<sigma> j)"
  shows "sent (\<sigma> j) \<le> sent (\<sigma> (Suc j))" "taken_out (\<sigma> j) \<le> taken_out (\<sigma> (Suc j))" "done_flag (\<sigma> j) \<Longrightarrow> done_flag (\<sigma> (Suc j))"
proof -
  have o: "obs (rb (\<sigma> j)) = O_idle" using assms(2) by (simp add: spin_inv_def)
  from assms have "sent (\<sigma> j) \<le> sent (\<sigma> (Suc j)) \<and> taken_out (\<sigma> j) \<le> taken_out (\<sigma> (Suc j)) \<and> (done_flag (\<sigma> j) \<longrightarrow> done_flag (\<sigma> (Suc j)))"
    by (cases rule: run_cases) (simp_all add: send_turnD [OF _ o] read_turnD [OF _ o])
  then show "sent (\<sigma> j) \<le> sent (\<sigma> (Suc j))" "taken_out (\<sigma> j) \<le> taken_out (\<sigma> (Suc j))" "done_flag (\<sigma> j) \<Longrightarrow> done_flag (\<sigma> (Suc j))"
    by simp_all
qed

lemma spin_invD:
  assumes "unat cap \<le> 2 ^ 63" and "spin_inv cap N s"
  shows "ring_bench_inv cap N s" "obs (rb s) = O_idle" "taken_out s \<le> sent s" "sent s \<le> N"
  using assms popped_le(2) [OF assms(1), of "rb s"] by (auto simp: spin_inv_def ring_bench_inv_def)

text \<open>As long as not everything has gone through, another element enters or leaves the ring.\<close>

lemma ring_flows:
  assumes cap: "unat cap \<le> 2 ^ 63" and L: "N \<le> L" and run: "fair_ring_run N L \<sigma>" and inv: "\<And>j. spin_inv cap N (\<sigma> j)"
    and left: "taken_out (\<sigma> k) < N"
  shows "\<exists>j\<ge>k. sent (\<sigma> k) + taken_out (\<sigma> k) < sent (\<sigma> j) + taken_out (\<sigma> j)"
proof -
  let ?w = "sent (\<sigma> k)" and ?r = "taken_out (\<sigma> k)"
  let ?P = "\<lambda>j. sent (\<sigma> j) = ?w \<and> taken_out (\<sigma> j) = ?r" and ?Q = "\<lambda>j. ?w + ?r < sent (\<sigma> j) + taken_out (\<sigma> j)"
  note D = spin_invD [OF cap inv] and M = run_mono [OF run inv]
  have stay: "?P (Suc j) \<or> ?Q (Suc j)" if "?P j" for j using that M(1,2) [of j] by linarith
  show ?thesis
  proof (cases "?r < ?w")
    case True
    have fair: "weakly_fair (\<lambda>k. \<exists>t. read_turn N L (\<sigma> k) t) (\<lambda>k. read_turn N L (\<sigma> k) (\<sigma> (Suc k)))"
      using run by (simp add: fair_ring_run_def)
    let ?rank = "\<lambda>j. read_rank (reading (\<sigma> j)) (cons (rb (\<sigma> j)))"
    have fall: "?rank (Suc j) < ?rank j \<or> ?Q (Suc j)" if "?P j" "read_turn N L (\<sigma> j) (\<sigma> (Suc j))" for j
      using nonempty_read [OF cap D(1) L D(2) _ that(2)] that(1) True M(1) [of j] by auto
    show ?thesis
    proof (rule fair_descent [OF fair, of ?P _ ?Q ?rank])
      show "\<exists>t. read_turn N L (\<sigma> j) t" if "?P j" for j
        using that True D(1) [of j] by (intro read_enabled [OF D(1)]) (auto simp: ring_bench_inv_def)
      show "?rank (Suc j) \<le> ?rank j \<or> ?Q (Suc j)" if "?P j" for j
        using run inv [of j] by (cases rule: run_cases) (use fall [OF that] send_turnD [OF _ D(2)] in auto)
    qed (use stay fall in auto)
  next
    case False
    then have e: "?r = ?w" "?w < N" using D(3) [of k] left by auto
    have fair: "weakly_fair (\<lambda>k. \<exists>t. send_turn N L (\<sigma> k) t) (\<lambda>k. send_turn N L (\<sigma> k) (\<sigma> (Suc k)))"
      using run by (simp add: fair_ring_run_def)
    let ?rank = "\<lambda>j. send_rank (prod (rb (\<sigma> j)))"
    have fall: "?rank (Suc j) < ?rank j \<or> ?Q (Suc j)" if "?P j" "send_turn N L (\<sigma> j) (\<sigma> (Suc j))" for j
      using empty_send [OF cap D(1,2) _ _ that(2)] that(1) e M(2) [of j] by auto
    show ?thesis
    proof (rule fair_descent [OF fair, of ?P _ ?Q ?rank])
      show "\<exists>t. send_turn N L (\<sigma> j) t" if "?P j" for j
        using that e by (intro send_enabled [OF D(1)]) auto
      show "?rank (Suc j) \<le> ?rank j \<or> ?Q (Suc j)" if "?P j" for j
        using run inv [of j] by (cases rule: run_cases) (use fall [OF that] read_turnD [OF _ D(2)] in auto)
    qed (use stay fall in auto)
  qed
qed

lemma ring_empties:
  assumes cap: "unat cap \<le> 2 ^ 63" and L: "N \<le> L" and run: "fair_ring_run N L \<sigma>" and inv: "\<And>j. spin_inv cap N (\<sigma> j)"
  shows "\<exists>j. taken_out (\<sigma> j) = N"
proof -
  note D = spin_invD [OF cap inv]
  have "(\<exists>j. taken_out (\<sigma> j) = N) \<or> (\<exists>j. n \<le> sent (\<sigma> j) + taken_out (\<sigma> j))" for n
  proof (induction n)
    case (Suc n)
    show ?case
    proof (cases "\<exists>j. taken_out (\<sigma> j) = N")
      case False
      then obtain j where j: "n \<le> sent (\<sigma> j) + taken_out (\<sigma> j)" using Suc by blast
      have "taken_out (\<sigma> j) < N" using False D(3,4) [of j] by (metis le_neq_implies_less le_trans)
      then show ?thesis using ring_flows [OF cap L run inv] j by (meson Suc_leI le_less_trans)
    qed simp
  qed simp
  from this [of "2 * N"] show ?thesis
  proof
    assume "\<exists>j. 2 * N \<le> sent (\<sigma> j) + taken_out (\<sigma> j)"
    then obtain j where "2 * N \<le> sent (\<sigma> j) + taken_out (\<sigma> j)" by blast
    then show ?thesis using D(3,4) [of j] by (intro exI [of _ j]) linarith
  qed
qed

lemma run_from:
  assumes "fair_ring_run N L \<sigma>" and "\<And>j. spin_inv cap N (\<sigma> j)" and "unat cap \<le> 2 ^ 63" and "taken_out (\<sigma> k) = N" and "k \<le> j"
  shows "taken_out (\<sigma> j) = N" "sent (\<sigma> j) = N"
proof -
  have le: "taken_out (\<sigma> j) \<le> sent (\<sigma> j)" "sent (\<sigma> j) \<le> N" using spin_invD(3,4) [OF assms(3,2)] by blast+
  have "N \<le> taken_out (\<sigma> j)"
    using eq_imp_le [OF assms(4) [symmetric]] _ assms(5)
    by (rule onwards) (use run_mono(2) [OF assms(1,2)] le_trans in blast)
  then show "taken_out (\<sigma> j) = N" "sent (\<sigma> j) = N" using le by simp_all
qed

lemma drained_send:
  assumes "ring_bench_inv cap N s" and "sent s = N" and "send_turn N L s t"
  shows "done_flag t"
proof -
  have "ring_bench_step N L s t" using assms(3) by (simp add: send_turn_def)
  then show ?thesis by cases (use assms in \<open>auto simp: send_turn_def ring_bench_inv_def\<close>)
qed

lemma ring_bench_ends:
  assumes cap: "unat cap \<le> 2 ^ 63" and L: "N \<le> L" and run: "fair_ring_run N L \<sigma>" and inv: "\<And>j. spin_inv cap N (\<sigma> j)"
  shows "\<exists>j. reading (\<sigma> j) = R_end \<and> done_flag (\<sigma> j)"
proof -
  note D = spin_invD [OF cap inv] and M = run_mono [OF run inv]
  have fair: "weakly_fair (\<lambda>k. \<exists>t. send_turn N L (\<sigma> k) t) (\<lambda>k. send_turn N L (\<sigma> k) (\<sigma> (Suc k)))"
    "weakly_fair (\<lambda>k. \<exists>t. read_turn N L (\<sigma> k) t) (\<lambda>k. read_turn N L (\<sigma> k) (\<sigma> (Suc k)))"
    using run by (simp_all add: fair_ring_run_def)
  obtain k where k: "taken_out (\<sigma> k) = N" using ring_empties [OF cap L run inv] by blast
  note N = run_from [OF run inv cap k]
  have "\<exists>j\<ge>k. done_flag (\<sigma> j)"
  proof (cases "done_flag (\<sigma> k)")
    case False
    show ?thesis
    proof (rule fair_descent [OF fair(1), of "\<lambda>j. \<not> done_flag (\<sigma> j)" k "\<lambda>j. done_flag (\<sigma> j)" "\<lambda>_. 0"])
      show "\<exists>t. send_turn N L (\<sigma> j) t" if "\<not> done_flag (\<sigma> j)" for j using that by (intro send_enabled [OF D(1)]) simp
      show "0 < (0 :: nat) \<or> done_flag (\<sigma> (Suc j))" if "k \<le> j" "send_turn N L (\<sigma> j) (\<sigma> (Suc j))" for j
        using drained_send [OF D(1) N(2) [OF that(1)] that(2)] by simp
    qed (use False in auto)
  qed blast
  then obtain m where m: "k \<le> m" "done_flag (\<sigma> m)" by blast
  have d: "done_flag (\<sigma> j)" if "m \<le> j" for j using m(2) M(3) that by (rule onwards)
  have nm: "taken_out (\<sigma> j) = N" "sent (\<sigma> j) = N" if "m \<le> j" for j using N that m(1) by (meson le_trans)+
  let ?rank = "\<lambda>j. end_rank (reading (\<sigma> j)) (cons (rb (\<sigma> j)))"
  have "\<exists>j\<ge>m. reading (\<sigma> j) = R_end"
  proof (cases "reading (\<sigma> m) = R_end")
    case False
    show ?thesis
    proof (rule fair_descent [OF fair(2), of "\<lambda>j. reading (\<sigma> j) \<noteq> R_end" m "\<lambda>j. reading (\<sigma> j) = R_end" ?rank])
      fix j assume j: "m \<le> j"
      have fall: "?rank (Suc j) < ?rank j" if "read_turn N L (\<sigma> j) (\<sigma> (Suc j))"
        using drained_read [OF cap D(1,2) nm [OF j] d [OF j] that] .
      show "\<exists>t. read_turn N L (\<sigma> j) t" if "reading (\<sigma> j) \<noteq> R_end" using that by (rule read_enabled [OF D(1)])
      show "?rank (Suc j) < ?rank j \<or> reading (\<sigma> (Suc j)) = R_end" if "read_turn N L (\<sigma> j) (\<sigma> (Suc j))"
        using fall that by simp
      show "?rank (Suc j) \<le> ?rank j \<or> reading (\<sigma> (Suc j)) = R_end"
        using run inv [of j] by (cases rule: run_cases) (use fall send_turnD [OF _ D(2)] in auto)
    qed (use False in auto)
  qed blast
  then show ?thesis using d by blast
qed

text \<open>
  C6: the ring benchmark ends under every weakly fair schedule of its two threads, for every \<^verbatim>\<open>count\<close> and across the
  wrap-around of the ring's counters: the consumer leaves its loop, the flag is set, and every number below
  \<^verbatim>\<open>count\<close> has been popped, in order.
\<close>

theorem ring_bench_terminates:
  assumes "unat cap \<le> 2 ^ 63" and "- (2 ^ 63) \<le> n" and "n < 2 ^ 63"
    and "ring_bench_init cap (\<sigma> 0)" and "fair_ring_run (nat n) (unat (of_int n :: u64)) \<sigma>"
  shows "\<exists>j. reading (\<sigma> j) = R_end \<and> done_flag (\<sigma> j) \<and> popped (rb (\<sigma> j)) = map of_nat [0..<nat n]"
proof -
  have L: "nat n \<le> unat (of_int n :: u64)" using assms(3) by (rule reader_bound)
  have inv: "spin_inv cap (nat n) (\<sigma> j)" for j using assms(1) L assms(4,5) by (rule spin_inv_run)
  obtain j where j: "reading (\<sigma> j) = R_end" "done_flag (\<sigma> j)" using ring_bench_ends [OF assms(1) L assms(5) inv] by blast
  have "ring_bench_inv cap (nat n) (\<sigma> j)" using inv by (simp add: spin_inv_def)
  then show ?thesis using j by (auto simp: ring_bench_inv_def)
qed

lemma one_fair: "fair_ring_run 1 1 (resting one_states)"
proof -
  have last: "last one_states = one_states ! 11" by (simp add: one_states_def Let_def)
  have e: "reading (one_states ! 11) = R_end" "done_flag (one_states ! 11)" "prod (rb (one_states ! 11)) = P_idle"
    "cons (rb (one_states ! 11)) = C_idle" by (simp_all add: one_states_def Let_def bench_at_def)
  have "\<not> ring_bench_step 1 1 (one_states ! 11) t" for t
  proof
    assume "ring_bench_step 1 1 (one_states ! 11) t"
    then show False by cases (use e in \<open>auto simp: one_states_def Let_def bench_at_def\<close>)
  qed
  then have stuck: "\<not> ring_bench_step 1 1 (resting one_states (k + 12)) t" for k t
    using resting_last [of one_states "k + 12"] last by (simp add: one_states_def Let_def)
  have "one_states \<noteq> []" by (simp add: one_states_def Let_def)
  then show ?thesis using resting_step [OF one_run] stuck unfolding fair_ring_run_def send_turn_def read_turn_def
    by (intro conjI weakly_fairI allI) (auto intro: le_add1)
qed

theorem ring_bench_terminates_witness:
  "\<exists>j. reading (resting one_states j) = R_end \<and> done_flag (resting one_states j) \<and> popped (rb (resting one_states j)) = [0]"
proof -
  have u: "nat 1 = 1" "unat (of_int 1 :: u64) = 1" by simp_all
  have "resting one_states 0 = hd one_states" by (simp add: resting_def one_states_def Let_def)
  then show ?thesis using ring_bench_terminates [of 2 1 "resting one_states", unfolded u] one_start one_fair by simp
qed

end
