(* ===== verification/Bench_Ring_Weak.thy ===== *)
theory Bench_Ring_Weak
  imports Bench_Ring Ring_Weak
begin

text \<open>
  \<^verbatim>\<open>run_spsc_ring\<close> of \<^verbatim>\<open>code/bench/bench_queue_throughput.cpp\<close> under its memory orders. The flag \<^verbatim>\<open>done\<close> is an atomic as well; the
  consumer that has seen it set must not miss an element in its second pop, although it may see old values of the ring's counter.
  What rules that out is the \<^verbatim>\<open>release\<close> store of the flag and its \<^verbatim>\<open>acquire\<close> load: with the flag the consumer acquires
  that the last counter value is stored. The two orders are parameters of the steps.
\<close>

section \<open>The program\<close>

record weak_bench =
  wb :: "u64 weak_ring"
  w_sent :: nat
  w_finished :: bool        \<comment> \<open>the main thread has set the flag\<close>
  w_reading :: reader

inductive weak_bench_step :: "memory_order \<Rightarrow> memory_order \<Rightarrow> nat \<Rightarrow> nat \<Rightarrow> weak_bench \<Rightarrow> weak_bench \<Rightarrow> bool" for so lo N L where
  wsend_try:
    "w_prod (wb s) = P_idle \<Longrightarrow> w_sent s < N \<Longrightarrow> load Relaxed Producer Write_pos i (mem (wb s)) = Some (x, m) \<Longrightarrow>
     weak_bench_step so lo N L s (s\<lparr>wb := (wb s)\<lparr>mem := m, w_prod := P_loaded (of_nat (w_sent s)) x\<rparr>\<rparr>)"
| wsend_go:
    "w_prod (wb s) \<noteq> P_idle \<Longrightarrow> weak_step Release Acquire (wb s) w \<Longrightarrow> w_cons w = w_cons (wb s) \<Longrightarrow>
     weak_bench_step so lo N L s (s\<lparr>wb := w, w_sent := w_sent s + (length (w_pushed w) - length (w_pushed (wb s)))\<rparr>)"
| wsend_end:
    "w_prod (wb s) = P_idle \<Longrightarrow> w_sent s = N \<Longrightarrow> \<not> w_finished s \<Longrightarrow>
     weak_bench_step so lo N L s (s\<lparr>wb := (wb s)\<lparr>mem := store so Producer Done 1 (mem (wb s))\<rparr>, w_finished := True\<rparr>)"
| wread_try:
    "w_reading s = R_loop \<Longrightarrow> length (w_popped (wb s)) < L \<Longrightarrow> load Relaxed Consumer Read_pos i (mem (wb s)) = Some (x, m) \<Longrightarrow>
     weak_bench_step so lo N L s (s\<lparr>wb := (wb s)\<lparr>mem := m, w_cons := C_loaded x\<rparr>, w_reading := R_first\<rparr>)"
| wread_again:
    "w_reading s = R_retry \<Longrightarrow> load Relaxed Consumer Read_pos i (mem (wb s)) = Some (x, m) \<Longrightarrow>
     weak_bench_step so lo N L s (s\<lparr>wb := (wb s)\<lparr>mem := m, w_cons := C_loaded x\<rparr>, w_reading := R_second\<rparr>)"
| wread_go:
    "w_cons (wb s) \<noteq> C_idle \<Longrightarrow> weak_step Release Acquire (wb s) w \<Longrightarrow> w_prod w = w_prod (wb s) \<Longrightarrow>
     weak_bench_step so lo N L s
       (s\<lparr>wb := w, w_reading := (if w_cons w = C_idle then after_read (w_reading s) (w_popped w \<noteq> w_popped (wb s)) else w_reading s)\<rparr>)"
| wread_done:
    "w_reading s = R_empty \<Longrightarrow> load lo Consumer Done i (mem (wb s)) = Some (x, m) \<Longrightarrow>
     weak_bench_step so lo N L s (s\<lparr>wb := (wb s)\<lparr>mem := m\<rparr>, w_reading := (if x \<noteq> 0 then R_retry else R_loop)\<rparr>)"
| wread_end:
    "w_reading s = R_loop \<Longrightarrow> \<not> length (w_popped (wb s)) < L \<Longrightarrow> weak_bench_step so lo N L s (s\<lparr>w_reading := R_end\<rparr>)"

definition weak_bench_init :: "u64 \<Rightarrow> weak_bench \<Rightarrow> bool" where
  "weak_bench_init cap s \<longleftrightarrow> weak_init cap (wb s) \<and> w_sent s = 0 \<and> \<not> w_finished s \<and> w_reading s = R_loop"

section \<open>Steps of a push and of a pop\<close>

lemma weak_push_cases [consumes 3, case_names Go Full Publish]:
  assumes "weak_step so lo w w'" and "w_prod w \<noteq> P_idle" and "w_cons w' = w_cons w"
  obtains (Go) "w_pushed w' = w_pushed w" "w_popped w' = w_popped w" "w_prod w' \<noteq> P_idle" "carried (w_prod w') = carried (w_prod w)"
  | (Full) "w_pushed w' = w_pushed w" "w_popped w' = w_popped w" "w_prod w' = P_idle"
  | (Publish) v where "carried (w_prod w) = Some v" "w_pushed w' = w_pushed w @ [v]" "w_popped w' = w_popped w" "w_prod w' = P_idle"
  using assms by (cases rule: weak_step.cases) (auto split: if_splits)

lemma weak_pop_cases [consumes 3, case_names Go Empty Take]:
  assumes "weak_step so lo w w'" and "w_cons w \<noteq> C_idle" and "w_prod w' = w_prod w"
  obtains (Go) "w_pushed w' = w_pushed w" "w_popped w' = w_popped w" "w_cons w' \<noteq> C_idle"
  | (Empty) x i m where "w_cons w = C_reload x" "load lo Consumer Write_pos i (mem w) = Some (x, m)"
      "w_pushed w' = w_pushed w" "w_popped w' = w_popped w" "w_cons w' = C_idle"
  | (Take) x where "w_pushed w' = w_pushed w" "w_popped w' = w_popped w @ [x]" "w_cons w' = C_idle"
  using assms by (cases rule: weak_step.cases) (auto split: if_splits)

text \<open>The flag is written by the main thread outside the ring, and views only grow.\<close>

lemma weak_step_frame:
  assumes "weak_step so lo w w'"
  shows "history (mem w') Done = history (mem w) Done"
    "w_prod w' = w_prod w \<Longrightarrow> oldest (views (mem w) Consumer) Write_pos \<le> oldest (views (mem w') Consumer) Write_pos"
  using assms by (cases rule: weak_step.cases;
    auto elim!: load_SomeE simp: Let_def join_def le_max_iff_disj split: if_splits)+

lemma weak_pop_step:
  assumes "weak_at d w k RC WC" and "weak_step Release Acquire w w'" and "w_prod w' = w_prod w"
  shows "\<exists>RC WC. weak_at d w' k RC WC"
  using assms(2)
proof cases
  case wpop_load
  then show ?thesis using weak_pop_load [OF assms(1)] by blast
next
  case wpop_check
  then show ?thesis using weak_pop_check [OF assms(1)] by blast
next
  case wpop_reload
  then show ?thesis using weak_pop_reload [OF assms(1)] by blast
next
  case wpop_read
  then show ?thesis using weak_pop_read [OF assms(1)] by blast
next
  case wpop_publish
  then show ?thesis using weak_pop_publish [OF assms(1)] by blast
qed (use assms(3) in \<open>auto split: if_splits\<close>)

text \<open>A pop that loads the counter at position \<open>i\<close> and finds the ring empty has popped \<open>i\<close> elements.\<close>

lemma weak_empty_seen:
  assumes "weak_at d w k RC WC" and "w_cons w = C_reload x" and "load Acquire Consumer Write_pos i (mem w) = Some (x, m)"
  shows "length (w_popped w) = i"
proof -
  have D: "weak_at d (w\<lparr>mem := m\<rparr>) k RC WC" using assms(1,3) by (rule weak_at_load)
  note a = load_acquire [OF weak_atD(2) [OF assms(1)], of Producer, simplified, OF assms(3) weak_atD(3) [OF assms(1)]]
  have "weak_at d (w\<lparr>mem := m, w_write_cache := x, w_cons := (if x = x then C_idle else C_read x)\<rparr>) k RC i"
    using assms by (rule weak_pop_reload)
  from ring_at_diffs(3) [OF weak_atD(7) [OF this]] weak_atD(1) [OF D] assms(2) show ?thesis by (simp add: machine_at_def)
qed

lemma weak_at_flag:
  assumes inv: "weak_at 0 w k RC WC"
  shows "weak_at 1 (w\<lparr>mem := store ord Producer Done x (mem w)\<rparr>) k RC WC"
proof -
  note D = weak_atD [OF inv]
  have "core (w\<lparr>mem := store ord Producer Done x (mem w)\<rparr>) = core w" by (simp add: core_def newest_def)
  then show ?thesis using inv store_coherent [OF D(2)] store_elsewhere by (simp add: weak_at_def)
qed

section \<open>Invariant\<close>

text \<open>Once set, the flag carries that all \<open>N\<close> numbers are published.\<close>

definition flag_at :: "nat \<Rightarrow> bool \<Rightarrow> message list \<Rightarrow> bool" where
  "flag_at N fin h \<longleftrightarrow>
     (if fin then \<exists>v. h = [\<lparr>stored = 0, attached = no_view\<rparr>, \<lparr>stored = 1, attached = v\<rparr>] \<and> oldest v Write_pos = N
      else h = [\<lparr>stored = 0, attached = no_view\<rparr>])"

definition weak_bench_at :: "nat \<Rightarrow> nat \<Rightarrow> nat \<Rightarrow> nat \<Rightarrow> weak_bench \<Rightarrow> bool" where
  "weak_bench_at N k RC WC s \<longleftrightarrow>
     weak_at (if w_finished s then 1 else 0) (wb s) k RC WC \<and>
     w_pushed (wb s) = map of_nat [0..<w_sent s] \<and> w_sent s \<le> N \<and>
     (w_prod (wb s) \<noteq> P_idle \<longrightarrow> w_sent s < N \<and> carried (w_prod (wb s)) = Some (of_nat (w_sent s))) \<and>
     (w_finished s \<longrightarrow> w_sent s = N) \<and> flag_at N (w_finished s) (history (mem (wb s)) Done) \<and>
     (w_cons (wb s) = C_idle \<longleftrightarrow> w_reading s \<noteq> R_first \<and> w_reading s \<noteq> R_second) \<and>
     (w_reading s \<in> {R_retry, R_second} \<longrightarrow> w_finished s \<and> N \<le> oldest (views (mem (wb s)) Consumer) Write_pos) \<and>
     (w_reading s = R_end \<longrightarrow> w_sent s = N \<and> w_popped (wb s) = w_pushed (wb s))"

lemma popped_prefix:
  assumes "weak_at d w k RC WC"
  shows "length (w_popped w) \<le> length (w_pushed w)" "length (w_popped w) = length (w_pushed w) \<Longrightarrow> w_popped w = w_pushed w"
proof -
  have p: "w_popped w = take (length (w_popped w)) (w_pushed w)" using weak_atD(1) [OF assms] by (simp add: machine_at_def)
  then show "length (w_popped w) \<le> length (w_pushed w)" by (metis length_take min.cobounded1)
  show "length (w_popped w) = length (w_pushed w) \<Longrightarrow> w_popped w = w_pushed w" using p by simp
qed

lemma weak_bench_send:
  assumes inv: "weak_bench_at N k RC WC s" and pc: "w_prod (wb s) \<noteq> P_idle"
    and step: "weak_step Release Acquire (wb s) w" and c: "w_cons w = w_cons (wb s)"
  shows "\<exists>RC WC. weak_bench_at N k RC WC (s\<lparr>wb := w, w_sent := w_sent s + (length (w_pushed w) - length (w_pushed (wb s)))\<rparr>)"
proof -
  have nf: "\<not> w_finished s" and "weak_at 0 (wb s) k RC WC" using inv pc by (auto simp: weak_bench_at_def split: if_splits)
  then obtain RC' WC' where w: "weak_at 0 w k RC' WC'" using weak_at_step step by blast
  have h: "history (mem w) Done = history (mem (wb s)) Done" using step by (rule weak_step_frame)
  have "weak_bench_at N k RC' WC' (s\<lparr>wb := w, w_sent := w_sent s + (length (w_pushed w) - length (w_pushed (wb s)))\<rparr>)"
    using step pc c by (cases rule: weak_push_cases) (use inv nf w h c pc in \<open>auto simp: weak_bench_at_def\<close>)
  then show ?thesis by blast
qed

lemma weak_bench_read:
  assumes inv: "weak_bench_at N k RC WC s" and pc: "w_cons (wb s) \<noteq> C_idle"
    and step: "weak_step Release Acquire (wb s) w" and c: "w_prod w = w_prod (wb s)"
  shows "\<exists>RC WC. weak_bench_at N k RC WC
    (s\<lparr>wb := w, w_reading := (if w_cons w = C_idle then after_read (w_reading s) (w_popped w \<noteq> w_popped (wb s)) else w_reading s)\<rparr>)"
proof -
  have at: "weak_at (if w_finished s then 1 else 0) (wb s) k RC WC" and rd: "w_reading s = R_first \<or> w_reading s = R_second"
    using inv pc by (auto simp: weak_bench_at_def)
  obtain RC' WC' where w: "weak_at (if w_finished s then 1 else 0) w k RC' WC'" using weak_pop_step [OF at step c] by blast
  note h = weak_step_frame(1) [OF step] and v = weak_step_frame(2) [OF step c]
  have len: "length (w_pushed (wb s)) = w_sent s" "w_sent s \<le> N" using inv by (auto simp: weak_bench_at_def)
  have last: "w_popped (wb s) = w_pushed (wb s) \<and> w_sent s = N"
    if "w_cons (wb s) = C_reload x" "load Acquire Consumer Write_pos i (mem (wb s)) = Some (x, m)" "w_reading s = R_second" for x i m
  proof -
    have "N \<le> i" using inv that(2,3) by (auto elim!: load_SomeE simp: weak_bench_at_def)
    then show ?thesis using weak_empty_seen [OF at that(1,2)] popped_prefix [OF at] len by simp
  qed
  from step pc c have "weak_bench_at N k RC' WC'
    (s\<lparr>wb := w, w_reading := (if w_cons w = C_idle then after_read (w_reading s) (w_popped w \<noteq> w_popped (wb s)) else w_reading s)\<rparr>)"
  proof (cases rule: weak_pop_cases)
    case Go
    then show ?thesis using inv w h v c rd le_trans by (auto simp: weak_bench_at_def)
  next
    case (Empty x i m)
    then show ?thesis using inv w h c rd last [OF Empty(1,2)] by (auto simp: weak_bench_at_def)
  next
    case (Take x)
    then show ?thesis using inv w h c rd by (auto simp: weak_bench_at_def)
  qed
  then show ?thesis by blast
qed

lemma weak_bench_load:
  assumes inv: "weak_bench_at N k RC WC s" and ld: "load ord u l i (mem (wb s)) = Some (x, m)"
  shows "weak_bench_at N k RC WC (s\<lparr>wb := (wb s)\<lparr>mem := m\<rparr>\<rparr>)"
proof -
  have "history m = history (mem (wb s))" using ld by (rule load_SomeE)
  moreover have "oldest (views (mem (wb s)) Consumer) Write_pos \<le> oldest (views m Consumer) Write_pos" using ld by (rule load_mono)
  ultimately show ?thesis using inv weak_at_load [OF _ ld] le_trans by (auto simp: weak_bench_at_def)
qed

lemma weak_bench_pop_load:
  assumes inv: "weak_bench_at N k RC WC s" and idle: "w_cons (wb s) = C_idle" and ld: "load Relaxed Consumer Read_pos i (mem (wb s)) = Some (x, m)"
    and r: "r = R_first \<or> r = R_second \<and> w_reading s = R_retry"
  shows "weak_bench_at N k RC WC (s\<lparr>wb := (wb s)\<lparr>mem := m, w_cons := C_loaded x\<rparr>, w_reading := r\<rparr>)"
proof -
  have "weak_at (if w_finished s then 1 else 0) ((wb s)\<lparr>mem := m, w_cons := C_loaded x\<rparr>) k RC WC"
    by (rule weak_pop_load [OF _ idle ld]) (use inv in \<open>simp add: weak_bench_at_def\<close>)
  then show ?thesis using weak_bench_load [OF inv ld] r by (auto simp: weak_bench_at_def)
qed

text \<open>Acquiring the flag acquires that everything is published.\<close>

lemma flag_acquired:
  assumes "flag_at N fin (history m Done)" and "load Acquire Consumer Done i m = Some (x, m')" and "x \<noteq> 0"
  shows "fin \<and> N \<le> oldest (views m' Consumer) Write_pos"
proof -
  have i: "i < length (history m Done)" "x = stored (history m Done ! i)"
    and v: "views m' Consumer = join ((views m Consumer)\<lparr>oldest := (oldest (views m Consumer))(Done := i)\<rparr>) (attached (history m Done ! i))"
    using assms(2) by (auto elim!: load_SomeE)
  show ?thesis using assms(1,3) i unfolding v flag_at_def join_def by (auto simp: less_Suc_eq split: if_splits)
qed

lemma weak_bench_at_step:
  assumes L: "N \<le> L" and inv: "weak_bench_at N k RC WC s" and step: "weak_bench_step Release Acquire N L s s'"
  shows "\<exists>RC WC. weak_bench_at N k RC WC s'"
  using step
proof cases
  case (wsend_try i x m)
  have nf: "\<not> w_finished s" using inv wsend_try(3) by (auto simp: weak_bench_at_def)
  then have "weak_at 0 ((wb s)\<lparr>mem := m, w_prod := P_loaded (of_nat (w_sent s)) x\<rparr>) k RC WC"
    using inv weak_push_load [OF _ wsend_try(2,4)] by (simp add: weak_bench_at_def)
  then show ?thesis using weak_bench_load [OF inv wsend_try(4)] wsend_try nf
    by (intro exI [of _ RC] exI [of _ WC]) (auto simp: weak_bench_at_def)
next
  case (wsend_go w)
  then show ?thesis using weak_bench_send [OF inv] by blast
next
  case wsend_end
  let ?m = "store Release Producer Done 1 (mem (wb s))"
  have at: "weak_at 0 (wb s) k RC WC" using inv wsend_end(4) by (simp add: weak_bench_at_def)
  have "oldest (views (mem (wb s)) Producer) Write_pos = N"
    using weak_atD(3) [OF at] inv wsend_end(3) by (simp add: counter_at_def weak_bench_at_def)
  then have "flag_at N True (history ?m Done)" using inv wsend_end(4) by (simp add: weak_bench_at_def flag_at_def)
  then have "weak_bench_at N k RC WC s'" using inv weak_at_flag [OF at] wsend_end by (auto simp: weak_bench_at_def)
  then show ?thesis by blast
next
  case (wread_try i x m)
  then have "w_cons (wb s) = C_idle" using inv by (simp add: weak_bench_at_def)
  then show ?thesis using weak_bench_pop_load [OF inv _ wread_try(4)] wread_try(1,2) by blast
next
  case (wread_again i x m)
  then have "w_cons (wb s) = C_idle" using inv by (simp add: weak_bench_at_def)
  then show ?thesis using weak_bench_pop_load [OF inv _ wread_again(3)] wread_again(1,2) by blast
next
  case (wread_go w)
  then show ?thesis using weak_bench_read [OF inv] by blast
next
  case (wread_done i x m)
  have "flag_at N (w_finished s) (history (mem (wb s)) Done)" using inv by (simp add: weak_bench_at_def)
  from flag_acquired [OF this wread_done(3)] show ?thesis
    using weak_bench_load [OF inv wread_done(3)] wread_done(1,2)
    by (intro exI [of _ RC] exI [of _ WC]) (auto simp: weak_bench_at_def)
next
  case wread_end
  have at: "weak_at (if w_finished s then 1 else 0) (wb s) k RC WC" using inv by (simp add: weak_bench_at_def)
  have "length (w_popped (wb s)) = length (w_pushed (wb s)) \<and> w_sent s = N"
    using popped_prefix(1) [OF at] inv wread_end(3) L by (simp add: weak_bench_at_def)
  then show ?thesis using inv popped_prefix(2) [OF at] wread_end(1,2) by (intro exI [of _ RC] exI [of _ WC]) (auto simp: weak_bench_at_def)
qed

definition weak_bench_inv :: "u64 \<Rightarrow> nat \<Rightarrow> nat \<Rightarrow> weak_bench \<Rightarrow> bool" where
  "weak_bench_inv cap N L s \<longleftrightarrow> bounded_bench cap N L \<longrightarrow> (\<exists>k RC WC. weak_bench_at N k RC WC s)"

lemma weak_bench_start:
  assumes "weak_bench_init cap s"
  shows "weak_bench_inv cap N L s"
proof -
  have i: "weak_init cap (wb s)" "w_sent s = 0" "\<not> w_finished s" "w_reading s = R_loop" using assms by (auto simp: weak_bench_init_def)
  have w: "mem (wb s) = new_memory" "w_pushed (wb s) = []" "w_prod (wb s) = P_idle" "w_cons (wb s) = C_idle"
    using i(1) by (auto simp: weak_init_def)
  have "\<exists>k RC WC. weak_at 0 (wb s) k RC WC" if "unat cap \<le> 2 ^ 63"
    using weak_init_inv [OF i(1)] that unfolding weak_inv_def by blast
  then show ?thesis using i w by (auto simp: weak_bench_inv_def weak_bench_at_def flag_at_def new_memory_def bounded_bench_def)
qed

interpretation weak_bench: inductive_invariant "weak_bench_init cap" "weak_bench_step Release Acquire N L" "weak_bench_inv cap N L"
  for cap N L
proof
  show "weak_bench_inv cap N L t" if "weak_bench_inv cap N L s" "weak_bench_step Release Acquire N L s t" for s t
    using that weak_bench_at_step unfolding weak_bench_inv_def bounded_bench_def by blast
qed (rule weak_bench_start)

section \<open>Runs that evaluate\<close>

fun main_move :: "memory_order \<Rightarrow> nat \<Rightarrow> nat \<Rightarrow> weak_bench \<Rightarrow> weak_bench option" where
  "main_move so N i s =
     (case w_prod (wb s) of
        P_idle \<Rightarrow>
          if w_sent s < N then map_option (\<lambda>w. s\<lparr>wb := w\<rparr>) (producer_move Release Acquire (of_nat (w_sent s)) i (wb s))
          else if \<not> w_finished s \<and> w_sent s = N
               then Some (s\<lparr>wb := (wb s)\<lparr>mem := store so Producer Done 1 (mem (wb s))\<rparr>, w_finished := True\<rparr>) else None
      | _ \<Rightarrow> map_option (\<lambda>w. s\<lparr>wb := w, w_sent := w_sent s + (length (w_pushed w) - length (w_pushed (wb s)))\<rparr>)
               (producer_move Release Acquire 0 i (wb s)))"

fun reader_move :: "memory_order \<Rightarrow> nat \<Rightarrow> nat \<Rightarrow> weak_bench \<Rightarrow> weak_bench option" where
  "reader_move lo L i s =
     (case w_reading s of
        R_loop \<Rightarrow>
          if \<not> length (w_popped (wb s)) < L then Some (s\<lparr>w_reading := R_end\<rparr>)
          else map_option (\<lambda>(x, m). s\<lparr>wb := (wb s)\<lparr>mem := m, w_cons := C_loaded x\<rparr>, w_reading := R_first\<rparr>)
                 (load Relaxed Consumer Read_pos i (mem (wb s)))
      | R_retry \<Rightarrow> map_option (\<lambda>(x, m). s\<lparr>wb := (wb s)\<lparr>mem := m, w_cons := C_loaded x\<rparr>, w_reading := R_second\<rparr>)
                 (load Relaxed Consumer Read_pos i (mem (wb s)))
      | R_empty \<Rightarrow> map_option (\<lambda>(x, m). s\<lparr>wb := (wb s)\<lparr>mem := m\<rparr>, w_reading := (if x \<noteq> 0 then R_retry else R_loop)\<rparr>)
                 (load lo Consumer Done i (mem (wb s)))
      | R_end \<Rightarrow> None
      | _ \<Rightarrow> if w_cons (wb s) = C_idle then None
             else map_option (\<lambda>w. s\<lparr>wb := w, w_reading := (if w_cons w = C_idle
                    then after_read (w_reading s) (w_popped w \<noteq> w_popped (wb s)) else w_reading s)\<rparr>)
                  (consumer_move Release Acquire 0 i (wb s)))"

fun bench_run :: "memory_order \<Rightarrow> memory_order \<Rightarrow> nat \<Rightarrow> nat \<Rightarrow> (thread \<times> nat) list \<Rightarrow> weak_bench \<Rightarrow> weak_bench option" where
  "bench_run so lo N L [] s = Some s"
| "bench_run so lo N L ((t, i) # cs) s =
     Option.bind (case t of Producer \<Rightarrow> main_move so N i s | Consumer \<Rightarrow> reader_move lo L i s) (bench_run so lo N L cs)"

lemma producer_move_cons: "producer_move so lo v i w = Some w' \<Longrightarrow> w_cons w' = w_cons w"
  by (cases "w_prod w") (auto simp: producer_move.simps)

lemma consumer_move_prod: "consumer_move so lo v i w = Some w' \<Longrightarrow> w_prod w' = w_prod w"
  by (cases "w_cons w") (auto simp: consumer_move.simps)

lemma main_move_step:
  assumes "main_move so N i s = Some t"
  shows "weak_bench_step so lo N L s t"
proof (cases "w_prod (wb s) = P_idle")
  case True
  then show ?thesis using assms
    by (auto simp: producer_move.simps split: if_splits intro: weak_bench_step.intros)
next
  case False
  then obtain w where w: "producer_move Release Acquire 0 i (wb s) = Some w"
    "t = s\<lparr>wb := w, w_sent := w_sent s + (length (w_pushed w) - length (w_pushed (wb s)))\<rparr>"
    using assms by (cases "w_prod (wb s)") auto
  then show ?thesis using wsend_go [OF False producer_move_step producer_move_cons] by blast
qed

lemma reader_move_step:
  assumes "reader_move lo L i s = Some t"
  shows "weak_bench_step so lo N L s t"
proof (cases "w_reading s = R_first \<or> w_reading s = R_second")
  case True
  then obtain w where w: "w_cons (wb s) \<noteq> C_idle" "consumer_move Release Acquire 0 i (wb s) = Some w"
    "t = s\<lparr>wb := w, w_reading := (if w_cons w = C_idle then after_read (w_reading s) (w_popped w \<noteq> w_popped (wb s)) else w_reading s)\<rparr>"
    using assms by (auto split: if_splits)
  then show ?thesis using wread_go [OF w(1) consumer_move_step consumer_move_prod] by blast
next
  case False
  show ?thesis
  proof (cases "w_reading s = R_empty")
    case True
    then obtain x m where "load lo Consumer Done i (mem (wb s)) = Some (x, m)"
      "t = s\<lparr>wb := (wb s)\<lparr>mem := m\<rparr>, w_reading := (if x \<noteq> 0 then R_retry else R_loop)\<rparr>" using assms by auto
    then show ?thesis using wread_done [OF True] by blast
  next
    case nonempty: False
    then show ?thesis using assms False
      by (cases "w_reading s") (auto split: if_splits intro: weak_bench_step.intros)
  qed
qed

declare main_move.simps [simp del] reader_move.simps [simp del]

lemma bench_run_steps: "bench_run so lo N L cs s = Some t \<Longrightarrow> (weak_bench_step so lo N L)\<^sup>*\<^sup>* s t"
proof (induction cs arbitrary: s)
  case (Cons c cs)
  obtain r i where c: "c = (r, i)" by (metis surj_pair)
  obtain u where u: "weak_bench_step so lo N L s u" "bench_run so lo N L cs u = Some t"
    using Cons.prems main_move_step reader_move_step unfolding c by (cases r) (fastforce simp: bind_eq_Some_conv)+
  then show ?case using Cons.IH by (meson converse_rtranclp_into_rtranclp)
qed simp

definition bench_start :: weak_bench where
  "bench_start = \<lparr>wb = \<lparr>mem = new_memory, w_mask = 1, w_slots = [0, 0], touched = (\<lambda>_ _. 0), w_read_cache = 0, w_write_cache = 0,
     w_prod = P_idle, w_cons = C_idle, racy = False, w_pushed = [], w_popped = []\<rparr>, w_sent = 0, w_finished = False, w_reading = R_loop\<rparr>"

lemma bench_start_init: "weak_bench_init 2 bench_start"
proof -
  have "round_up_pow2 2 = 2" by code_simp
  moreover have "replicate (unat (2 - 1 + 1 :: u64)) 0 = [0, 0 :: u64]" by code_simp
  ultimately show ?thesis unfolding weak_bench_init_def weak_init_def by (auto intro!: exI [of _ 0] simp: bench_start_def)
qed

lemma bench_run_reach:
  "\<not> Option.is_none (bench_run so lo N L cs bench_start) \<Longrightarrow>
     reachable (weak_bench_init 2) (weak_bench_step so lo N L) (the (bench_run so lo N L cs bench_start))"
  using reachable_trans [OF bench_run_steps reachable.start [of "weak_bench_init 2", OF bench_start_init]]
  by (cases "bench_run so lo N L cs bench_start") auto

section \<open>The flag is enough\<close>

text \<open>
  C5: with \<^verbatim>\<open>release\<close> and \<^verbatim>\<open>acquire\<close> on the flag, as in the source, a consumer that has ended has popped every number below
  \<^verbatim>\<open>count\<close>, in order and without a race, although its pops may see old values of the ring's counter: the second pop after the flag
  cannot find the ring empty while an element is in it.
\<close>

theorem weak_bench_consumes_all:
  assumes "unat cap \<le> 2 ^ 63" and "- (2 ^ 63) \<le> n" and "n < 2 ^ 63"
    and "reachable (weak_bench_init cap) (weak_bench_step Release Acquire (nat n) (unat (of_int n :: u64))) s" and "w_reading s = R_end"
  shows "w_popped (wb s) = map of_nat [0..<nat n] \<and> \<not> racy (wb s)"
proof -
  have "bounded_bench cap (nat n) (unat (of_int n :: u64))" using assms(1) reader_bound [OF assms(3)] by (simp add: bounded_bench_def)
  then obtain k RC WC where "weak_bench_at (nat n) k RC WC s"
    using weak_bench.reachable_inv [OF assms(4)] unfolding weak_bench_inv_def by blast
  then show ?thesis using assms(5) by (auto simp: weak_bench_at_def weak_at_def)
qed

text \<open>One number is sent and the flag set; the consumer's first pop still sees the old counter, its second one cannot.\<close>

definition second_pop :: "(thread \<times> nat) list" where
  "second_pop = replicate 5 (Producer, 0) @ replicate 3 (Consumer, 0) @ [(Consumer, 1), (Consumer, 0), (Consumer, 0), (Consumer, 1)]"

theorem weak_bench_consumes_all_witness:
  "w_popped (wb (the (bench_run Release Acquire 1 1 (second_pop @ replicate 3 (Consumer, 0)) bench_start))) = map of_nat [0..<nat 1]"
proof -
  let ?r = "bench_run Release Acquire 1 1 (second_pop @ replicate 3 (Consumer, 0)) bench_start"
  have u: "nat 1 = 1" "unat (of_int 1 :: u64) = 1" by simp_all
  have r: "\<not> Option.is_none ?r" "w_reading (the ?r) = R_end" by code_simp+
  show ?thesis using weak_bench_consumes_all [of 2 1 "the ?r", unfolded u, OF _ _ _ bench_run_reach [OF r(1)] r(2)] by simp
qed

text \<open>With a relaxed flag the second pop may still see the old counter: the consumer ends without the number that was sent.\<close>

theorem relaxed_flag_loses:
  "\<exists>s. reachable (weak_bench_init 2) (weak_bench_step Relaxed Relaxed 1 1) s \<and> w_reading s = R_end \<and>
     w_pushed (wb s) = [0] \<and> w_popped (wb s) = []"
proof -
  let ?cs = "replicate 5 (Producer, 0) @ replicate 3 (Consumer, 0) @ [(Consumer, 1), (Consumer, 0), (Consumer, 0), (Consumer, 0)]"
  let ?r = "bench_run Relaxed Relaxed 1 1 ?cs bench_start"
  have "\<not> Option.is_none ?r" "w_reading (the ?r) = R_end" "w_pushed (wb (the ?r)) = [0]" "w_popped (wb (the ?r)) = []" by code_simp+
  then show ?thesis using bench_run_reach by blast
qed

end
