(* ===== verification/Bench_Throughput.thy ===== *)
theory Bench_Throughput
  imports Printf Args Bench_Ring Bench_Progress "HOL-Library.Monad_Syntax"
begin

text \<open>
  \<^verbatim>\<open>main\<close> and \<^verbatim>\<open>report\<close> of \<^verbatim>\<open>code/bench/bench_queue_throughput.cpp\<close>: the configuration read from the command line, the three
  measured runs, each a completed run of its thread program, and the text that is printed.
\<close>

section \<open>Output\<close>





section \<open>The runs\<close>




section \<open>What is reported\<close>










end
