(* ===== verification/Bench_Latency.thy ===== *)
theory Bench_Latency
  imports Histogram Qos Time Args "HOL-Library.Monad_Syntax"
begin

text \<open>
  \<^verbatim>\<open>code/bench/bench_bus_latency.cpp\<close>: the configuration read from the command line, the callback every subscriber
  runs on a message, and the counters of the publishing loop, given what each iteration meets (a buffer or
  none, an accepted publication or not, a missed tick or not). The program as a whole is in \<open>Bench_Bus\<close>.
\<close>

section \<open>Configuration\<close>

record latency_config =
  rate_hz :: int
  total_count :: int
  subscribers :: int
  payload_bytes :: int
  queue_depth :: int
  pool_size :: int
  slow_ms :: int
  reliable_timeout_ms :: int
  best_effort :: bool

definition read_config :: "string list \<Rightarrow> latency_config option" where
  "read_config argv = do {
     rate \<leftarrow> arg_int argv ''--rate'' 1000;
     total \<leftarrow> arg_int argv ''--count'' 100000;
     subs \<leftarrow> arg_int argv ''--subscribers'' 1;
     bytes \<leftarrow> arg_int argv ''--payload'' 1024;
     deep \<leftarrow> arg_int argv ''--depth'' 64;
     pool \<leftarrow> arg_int argv ''--pool'' 256;
     slow \<leftarrow> arg_int argv ''--slow-ms'' 0;
     timeout \<leftarrow> arg_int argv ''--reliable-timeout-ms'' 50;
     Some \<lparr>rate_hz = rate, total_count = total, subscribers = subs, payload_bytes = bytes, queue_depth = deep, pool_size = pool,
           slow_ms = slow, reliable_timeout_ms = timeout, best_effort = arg_flag argv ''--best-effort''\<rparr>
   }"

definition bench_qos :: "latency_config \<Rightarrow> QoS" where
  "bench_qos c = default_qos\<lparr>reliability := (if best_effort c then BestEffort else Reliable),
                             depth := unat (of_int (queue_depth c) :: u64)\<rparr>"

section \<open>The callback\<close>

record Sample =
  sample_seq :: u64
  sample_publish_ns :: u64
  sample_payload :: nat    \<comment> \<open>the address of its buffer\<close>

record SubscriberState =
  latency :: Histogram
  received :: u64
  out_of_order :: u64
  last_seq :: u64
  work_us :: int

definition new_subscriber_state :: SubscriberState where
  "new_subscriber_state = \<lparr>latency = new_histogram, received = 0, out_of_order = 0, last_seq = 0, work_us = 0\<rparr>"

text \<open>The callback up to its artificial sleep of \<^verbatim>\<open>work\<close>.\<close>

definition on_message :: "nanos \<times> Sample \<Rightarrow> SubscriberState \<Rightarrow> SubscriberState" where
  "on_message call st =
     (case call of (steady, m) \<Rightarrow>
        let now = now_ns steady;
            st = st\<lparr>latency := record_value (now - sample_publish_ns m) (latency st)\<rparr>;
            st = (if sample_seq m < last_seq st then st\<lparr>out_of_order := out_of_order st + 1\<rparr> else st);
            st = st\<lparr>last_seq := sample_seq m\<rparr>
        in st\<lparr>received := received st + 1\<rparr>)"

section \<open>The publishing loop\<close>

record loop_counters =
  publish_failed :: u64
  pool_empty :: u64
  missed_ticks :: u64

text \<open>One iteration: whether \<^verbatim>\<open>acquire\<close> gave a buffer, whether the publication was accepted, whether the ticker caught up.\<close>

definition publish_iteration :: "bool \<times> bool \<times> bool \<Rightarrow> loop_counters \<Rightarrow> loop_counters" where
  "publish_iteration r c =
     (case r of (got_buffer, accepted, missed) \<Rightarrow>
        let c = (if \<not> got_buffer then c\<lparr>pool_empty := pool_empty c + 1\<rparr>
                 else if \<not> accepted then c\<lparr>publish_failed := publish_failed c + 1\<rparr> else c)
        in if missed then c\<lparr>missed_ticks := missed_ticks c + 1\<rparr> else c)"

definition publish_loop :: "(bool \<times> bool \<times> bool) list \<Rightarrow> loop_counters" where
  "publish_loop rs = fold publish_iteration rs \<lparr>publish_failed = 0, pool_empty = 0, missed_ticks = 0\<rparr>"

section \<open>What is counted\<close>

text \<open>The steps of a sequence of numbers that go down.\<close>

fun descents :: "u64 list \<Rightarrow> nat" where
  "descents (x # y # ys) = (if y < x then 1 else 0) + descents (y # ys)"
| "descents _ = 0"

lemma on_messages:
  "received (fold on_message ms st) = received st + of_nat (length ms)"
  "count_value (latency (fold on_message ms st)) = count_value (latency st) + of_nat (length ms)"
  "out_of_order (fold on_message ms st) =
     out_of_order st + of_nat (descents (last_seq st # map (sample_seq \<circ> snd) ms))"
  by (induction ms arbitrary: st) (auto simp: on_message_def Let_def record_value_def count_value_def)

text \<open>
  After any sequence of messages a subscriber's counters are right modulo their width: it received as many
  as it was called with and recorded one latency each, and it counts as out of order exactly the messages
  whose number is below that of the message before.
\<close>

theorem latency_callback_counts:
  "received (fold on_message ms new_subscriber_state) = of_nat (length ms) \<and>
   count_value (latency (fold on_message ms new_subscriber_state)) = of_nat (length ms) \<and>
   out_of_order (fold on_message ms new_subscriber_state) = of_nat (descents (map (sample_seq \<circ> snd) ms))"
proof -
  have d: "descents (0 # xs) = descents xs" for xs by (cases xs) simp_all
  have "received new_subscriber_state = 0" "count_value (latency new_subscriber_state) = 0"
    "out_of_order new_subscriber_state = 0" "last_seq new_subscriber_state = 0"
    by (simp_all add: new_subscriber_state_def count_value_def new_histogram_def)
  then show ?thesis by (simp add: on_messages d)
qed

text \<open>
  Every iteration is published, refused or skipped for want of a buffer. The program prints the number of
  iterations as the number of messages sent, the skipped ones included.
\<close>

lemma publish_loop_counts:
  "pool_empty (publish_loop rs) = of_nat (length (filter (\<lambda>(b, a, m). \<not> b) rs))"
  "publish_failed (publish_loop rs) = of_nat (length (filter (\<lambda>(b, a, m). b \<and> \<not> a) rs))"
  "missed_ticks (publish_loop rs) = of_nat (length (filter (\<lambda>(b, a, m). m) rs))"
proof -
  have "pool_empty (fold publish_iteration rs c) = pool_empty c + of_nat (length (filter (\<lambda>(b, a, m). \<not> b) rs)) \<and>
    publish_failed (fold publish_iteration rs c) = publish_failed c + of_nat (length (filter (\<lambda>(b, a, m). b \<and> \<not> a) rs)) \<and>
    missed_ticks (fold publish_iteration rs c) = missed_ticks c + of_nat (length (filter (\<lambda>(b, a, m). m) rs))" for c
    by (induction rs arbitrary: c) (auto simp: publish_iteration_def Let_def)
  then show "pool_empty (publish_loop rs) = of_nat (length (filter (\<lambda>(b, a, m). \<not> b) rs))"
    "publish_failed (publish_loop rs) = of_nat (length (filter (\<lambda>(b, a, m). b \<and> \<not> a) rs))"
    "missed_ticks (publish_loop rs) = of_nat (length (filter (\<lambda>(b, a, m). m) rs))"
    by (simp_all add: publish_loop_def)
qed

end
