(* ===== verification/Bench_Bus.thy ===== *)
theory Bench_Bus
  imports Bench_Latency Buffer_Pool Summary Bus_Order Bus_Shutdown
begin

text \<open>
  \<^verbatim>\<open>main\<close> of \<^verbatim>\<open>code/bench/bench_bus_latency.cpp\<close> as a whole: one thread that subscribes, publishes in a loop with buffers
  from the pool, waits for the bus to be idle and shuts it down, interleaved with the sections of its own calls into
  the bus (\<open>Bus_Exec\<close>), with the workers of the subscribers running the callback, and with the release of buffers
  whose last message is gone. \<open>latency_exec\<close> is a function of the scheduler's choice.

  The benchmark's numbers are shown to be those of the run: the callbacks saw what the bus delivered, none
  out of order, and the iterations without a buffer are the ones the pool counted.
\<close>

section \<open>State\<close>

datatype main_at =
    M_subscribe nat                 \<comment> \<open>how many subscriptions were made\<close>
  | M_acquire nat                   \<comment> \<open>at the head of the loop, with \<^verbatim>\<open>i\<close>\<close>
  | M_acquired nat addr             \<comment> \<open>\<^verbatim>\<open>acquire\<close> has left its lock with a buffer\<close>
  | M_publish nat Sample            \<comment> \<open>the message is made\<close>
  | M_publishing nat nat            \<comment> \<open>inside \<^verbatim>\<open>publish\<close>; publications returned before\<close>
  | M_tick nat bool bool            \<comment> \<open>whether there was a buffer and the publication was accepted\<close>
  | M_sleep nat "nanos option"
  | M_wait nanos                    \<comment> \<open>in \<^verbatim>\<open>wait_for_idle\<close>, with its deadline\<close>
  | M_stop
  | M_stopping
  | M_end

record latency_sys =
  bsys :: "(unit, Sample) bus_sys"
  pw :: pool_world
  main_pc :: main_at
  handle_ids :: "nat list"
  callbacks :: "nat \<Rightarrow> SubscriberState"
  busy_until :: "nat \<Rightarrow> nanos"
  counters :: loop_counters
  ticker :: Ticker
  start_time :: nanos
  publish_done :: nanos

definition bench_bus :: "latency_config \<Rightarrow> (unit, Sample) TopicBus" where
  "bench_bus c = fst (advertise ''bench'' () (bench_qos c) (set_reliable_timeout (reliable_timeout_ms c * 1000000) new_bus))"

definition latency_start :: "latency_config \<Rightarrow> nanos \<Rightarrow> latency_sys" where
  "latency_start c t =
     \<lparr>bsys = \<lparr>bus = bench_bus c, calls = [Idle_call], time = t, returned = []\<rparr>,
      pw = create (unat (of_int (payload_bytes c) :: u64)) (unat (of_int (pool_size c) :: u64)),
      main_pc = M_subscribe 0, handle_ids = [], callbacks = (\<lambda>_. new_subscriber_state), busy_until = (\<lambda>_. t),
      counters = \<lparr>publish_failed = 0, pool_empty = 0, missed_ticks = 0\<rparr>, ticker = \<lparr>period = 0, next_tick = 0\<rparr>,
      start_time = t, publish_done = t\<rparr>"

section \<open>The main thread\<close>

text \<open>\<open>new\<close> is the address of a new subscription, \<open>now\<close> the clock as a publication reads it before it takes the lock.\<close>

definition main_subscribe :: "latency_config \<Rightarrow> nat \<Rightarrow> nat \<Rightarrow> latency_sys \<Rightarrow> latency_sys option" where
  "main_subscribe c i new s =
     (if int i < subscribers c
      then map_option (\<lambda>b. s\<lparr>bsys := b, main_pc := M_subscribe (Suc i), handle_ids := handle_ids s @ [new],
             callbacks := (callbacks s)(new := new_subscriber_state\<lparr>work_us := if i = 0 \<and> slow_ms c > 0 then slow_ms c * 1000 else 0\<rparr>)\<rparr>)
           (exec (Do_subscribe 0 new ''bench'' () (bench_qos c)) (bsys s))
      else map_option (\<lambda>tk. s\<lparr>ticker := tk, start_time := time (bsys s), main_pc := M_acquire 0\<rparr>)
           (new_ticker (double_of_int (rate_hz c)) (time (bsys s))))"

definition main_acquire :: "latency_config \<Rightarrow> nat \<Rightarrow> latency_sys \<Rightarrow> latency_sys" where
  "main_acquire c i s =
     (if int i < total_count c
      then (case acquire_begin (pw s) of
              (w, None) \<Rightarrow> s\<lparr>pw := w, main_pc := M_tick i False False\<rparr>
            | (w, Some a) \<Rightarrow> s\<lparr>pw := w, main_pc := M_acquired i a\<rparr>)
      else s\<lparr>publish_done := time (bsys s), main_pc := M_wait (time (bsys s) + 10000 * 1000000)\<rparr>)"

definition main_message :: "latency_config \<Rightarrow> nat \<Rightarrow> addr \<Rightarrow> latency_sys \<Rightarrow> latency_sys" where
  "main_message c i a s =
     s\<lparr>pw := use_buffer a (\<lambda>b. fst (resize (unat (of_int (payload_bytes c) :: u64)) b)) (acquire_end a (pw s)),
       main_pc := M_publish i \<lparr>sample_seq = of_nat i, sample_publish_ns = now_ns (time (bsys s)), sample_payload = a\<rparr>\<rparr>"

definition main_publish :: "latency_config \<Rightarrow> nat \<Rightarrow> Sample \<Rightarrow> nanos \<Rightarrow> latency_sys \<Rightarrow> latency_sys option" where
  "main_publish c i m now s =
     map_option (\<lambda>b. s\<lparr>bsys := b, main_pc := M_publishing i (length (returned (bsys s)))\<rparr>)
       (exec (Do_publish 0 now ''bench'' () (bench_qos c) m) (bsys s))"

definition main_tick :: "nat \<Rightarrow> bool \<Rightarrow> bool \<Rightarrow> latency_sys \<Rightarrow> latency_sys" where
  "main_tick i buf ok s =
     (case sleep_until_next (time (bsys s)) (ticker s) of (tk, missed, until) \<Rightarrow>
        s\<lparr>ticker := tk, counters := publish_iteration (buf, ok, missed) (counters s), main_pc := M_sleep (Suc i) until\<rparr>)"

definition main_step :: "latency_config \<Rightarrow> nat \<Rightarrow> nanos \<Rightarrow> latency_sys \<Rightarrow> latency_sys option" where
  "main_step c new now s =
     (if \<not> call_at (bsys s) 0 Idle_call then None
      else case main_pc s of
        M_subscribe i \<Rightarrow> main_subscribe c i new s
      | M_acquire i \<Rightarrow> Some (main_acquire c i s)
      | M_acquired i a \<Rightarrow> Some (main_message c i a s)
      | M_publish i m \<Rightarrow> main_publish c i m now s
      | M_publishing i k \<Rightarrow>
          Some (s\<lparr>main_pc := M_tick i True (k < length (returned (bsys s)) \<and> snd (snd (last (returned (bsys s)))))\<rparr>)
      | M_tick i buf ok \<Rightarrow> Some (main_tick i buf ok s)
      | M_sleep i until \<Rightarrow>
          (if (case until of None \<Rightarrow> True | Some t \<Rightarrow> t \<le> time (bsys s)) then Some (s\<lparr>main_pc := M_acquire i\<rparr>) else None)
      | M_wait dl \<Rightarrow> (if bus_idle (bus (bsys s)) \<or> dl \<le> time (bsys s) then Some (s\<lparr>main_pc := M_stop\<rparr>) else None)
      | M_stop \<Rightarrow> map_option (\<lambda>b. s\<lparr>bsys := b, main_pc := M_stopping\<rparr>) (exec (Do_shutdown 0) (bsys s))
      | M_stopping \<Rightarrow> Some (s\<lparr>main_pc := M_end\<rparr>)
      | M_end \<Rightarrow> None)"

section \<open>Everything else\<close>

text \<open>The message the worker of a subscriber is about to pass to the callback.\<close>

definition heard :: "nat \<Rightarrow> (unit, Sample) bus_sys \<Rightarrow> Sample option" where
  "heard sid b =
     (case sub_objs (bus b) sid of
        Some x \<Rightarrow>
          (case sub_worker_at x of
             Holding env \<Rightarrow> if is_expired (of_int (time b)) (sub_qos x) env then None else Some (payload env)
           | _ \<Rightarrow> None)
      | None \<Rightarrow> None)"

definition deliver_bus :: "nat \<Rightarrow> latency_sys \<Rightarrow> latency_sys option" where
  "deliver_bus sid s =
     map_option (\<lambda>b.
       (case heard sid (bsys s) of
          None \<Rightarrow> s\<lparr>bsys := b\<rparr>
        | Some m \<Rightarrow>
            s\<lparr>bsys := b, callbacks := (callbacks s)(sid := on_message (time (bsys s), m) (callbacks s sid)),
              busy_until := (busy_until s)(sid := time (bsys s) + work_us (callbacks s sid) * 1000)\<rparr>))
     (exec (Do_deliver sid) (bsys s))"

text \<open>A message is gone when no queue, worker, history or running publication holds it, nor the main thread.\<close>

definition holds_buffer :: "addr \<Rightarrow> (unit, Sample) Envelope \<Rightarrow> bool" where
  "holds_buffer a env \<longleftrightarrow> sample_payload (payload env) = a"

fun call_envelopes :: "('ty, 'm) call \<Rightarrow> ('ty, 'm) Envelope list" where
  "call_envelopes (Publishing env tg ts ok) = [env]"
| "call_envelopes (Push_waiting env tg sid ts ok dl) = [env]"
| "call_envelopes (Subscribing sid bl) = bl"
| "call_envelopes _ = []"

definition in_flight :: "nat list \<Rightarrow> (unit, Sample) bus_sys \<Rightarrow> (unit, Sample) Envelope list" where
  "in_flight sids b =
     concat (map (\<lambda>sid. case sub_objs (bus b) sid of None \<Rightarrow> [] | Some x \<Rightarrow> items (sub_queue x) @ held (sub_worker_at x) @ calling (sub_worker_at x)) sids) @
     concat (map (\<lambda>kv. entry_latched (snd kv)) (topics (bus b))) @ concat (map call_envelopes (calls b))"

fun main_holds :: "addr \<Rightarrow> main_at \<Rightarrow> bool" where
  "main_holds a (M_acquired i a') = (a = a')"
| "main_holds a (M_publish i m) = (a = sample_payload m)"
| "main_holds a _ = False"

definition reap :: "addr \<Rightarrow> latency_sys \<Rightarrow> latency_sys option" where
  "reap a s =
     (if handles (pw s) a > 0 \<and> \<not> main_holds a (main_pc s) \<and> \<not> list_ex (holds_buffer a) (in_flight (handle_ids s) (bsys s))
      then Some (s\<lparr>pw := drop_handle a (pw s)\<rparr>) else None)"

datatype lat_action =
    Main nat nanos
  | Continue            \<comment> \<open>the next section of the main thread's call into the bus\<close>
  | Wake bool
  | Take nat
  | Deliver nat
  | Finish nat          \<comment> \<open>the callback returns, its artificial delay over\<close>
  | Tick nanos
  | Reap addr
  | Give_back addr      \<comment> \<open>the deleter returns a buffer to the pool\<close>

fun latency_exec :: "latency_config \<Rightarrow> lat_action \<Rightarrow> latency_sys \<Rightarrow> latency_sys option" where
  "latency_exec c (Main new now) s = main_step c new now s"
| "latency_exec c Continue s = map_option (\<lambda>b. s\<lparr>bsys := b\<rparr>) (exec (Do_continue 0) (bsys s))"
| "latency_exec c (Wake to) s = map_option (\<lambda>b. s\<lparr>bsys := b\<rparr>) (exec (Do_wake 0 to) (bsys s))"
| "latency_exec c (Take sid) s = map_option (\<lambda>b. s\<lparr>bsys := b\<rparr>) (exec (Do_take sid) (bsys s))"
| "latency_exec c (Deliver sid) s = deliver_bus sid s"
| "latency_exec c (Finish sid) s =
     (if busy_until s sid \<le> time (bsys s) then map_option (\<lambda>b. s\<lparr>bsys := b\<rparr>) (exec (Do_return sid) (bsys s)) else None)"
| "latency_exec c (Tick t) s = map_option (\<lambda>b. s\<lparr>bsys := b\<rparr>) (exec (Do_tick t) (bsys s))"
| "latency_exec c (Reap a) s = reap a s"
| "latency_exec c (Give_back a) s =
     (if a \<in> set (releasing (pw s)) then Some (s\<lparr>pw := release_end a (pw s)\<rparr>) else None)"

definition latency_step :: "latency_config \<Rightarrow> latency_sys \<Rightarrow> latency_sys \<Rightarrow> bool" where
  "latency_step c s s' \<longleftrightarrow> (\<exists>a. latency_exec c a s = Some s')"

definition latency_init :: "latency_config \<Rightarrow> latency_sys \<Rightarrow> bool" where
  "latency_init c s \<longleftrightarrow> (\<exists>t. s = latency_start c t)"

section \<open>Kinds of steps\<close>

declare exec.simps [simp del]

text \<open>The actions on the bus that neither begin a publication or subscription nor call a callback.\<close>

fun quiet :: "('ty, 'm) action \<Rightarrow> bool" where
  "quiet (Do_continue i) = True"
| "quiet (Do_wake i to) = True"
| "quiet (Do_take sid) = True"
| "quiet (Do_tick t) = True"
| "quiet (Do_shutdown i) = True"
| "quiet (Do_return sid) = True"
| "quiet _ = False"

text \<open>How far the numbering of messages has come.\<close>

fun bound_of :: "latency_config \<Rightarrow> main_at \<Rightarrow> nat" where
  "bound_of c (M_subscribe i) = 0"
| "bound_of c (M_acquire i) = i"
| "bound_of c (M_acquired i a) = i"
| "bound_of c (M_publish i m) = i"
| "bound_of c (M_publishing i k) = Suc i"
| "bound_of c (M_tick i buf ok) = Suc i"
| "bound_of c (M_sleep i until) = i"
| "bound_of c _ = nat (total_count c)"

fun pc_ok :: "latency_config \<Rightarrow> main_at \<Rightarrow> bool" where
  "pc_ok c (M_acquired i a) = (int i < total_count c)"
| "pc_ok c (M_publish i m) = (int i < total_count c \<and> sample_seq m = of_nat i)"
| "pc_ok c (M_publishing i k) = (int i < total_count c)"
| "pc_ok c (M_tick i buf ok) = (int i < total_count c)"
| "pc_ok c pc = (bound_of c pc \<le> nat (total_count c))"

lemma latency_cases [consumes 1, case_names Subscribe Publish Quiet Deliver Acquire Pool Local]:
  assumes "latency_exec c a s = Some s'"
  obtains
    (Subscribe) i new w where "main_pc s = M_subscribe i" "main_pc s' = M_subscribe (Suc i)"
      "exec (Do_subscribe 0 new ''bench'' () (bench_qos c)) (bsys s) = Some (bsys s')"
      "callbacks s' = (callbacks s)(new := new_subscriber_state\<lparr>work_us := w\<rparr>)" "pw s' = pw s" "counters s' = counters s"
  | (Publish) i m now k where "main_pc s = M_publish i m" "main_pc s' = M_publishing i k"
      "exec (Do_publish 0 now ''bench'' () (bench_qos c) m) (bsys s) = Some (bsys s')"
      "callbacks s' = callbacks s" "pw s' = pw s" "counters s' = counters s"
  | (Quiet) act where "quiet act" "exec act (bsys s) = Some (bsys s')" "callbacks s' = callbacks s" "pw s' = pw s"
      "counters s' = counters s" 
      "(\<forall>i. act \<noteq> Do_shutdown i) \<and> main_pc s' = main_pc s \<or> act = Do_shutdown 0 \<and> main_pc s = M_stop \<and> main_pc s' = M_stopping"
  | (Deliver) sid where "exec (Do_deliver sid) (bsys s) = Some (bsys s')" "main_pc s' = main_pc s" "pw s' = pw s" "counters s' = counters s"
      "callbacks s' = (case heard sid (bsys s) of None \<Rightarrow> callbacks s
         | Some m \<Rightarrow> (callbacks s)(sid := on_message (time (bsys s), m) (callbacks s sid)))"
  | (Acquire) i w r where "acquire_begin (pw s) = (w, r)" "pw s' = w" "bsys s' = bsys s" "callbacks s' = callbacks s"
      "counters s' = counters s" "main_pc s = M_acquire i" "int i < total_count c"
      "main_pc s' = (case r of None \<Rightarrow> M_tick i False False | Some b \<Rightarrow> M_acquired i b)"
  | (Pool) w where "bsys s' = bsys s" "callbacks s' = callbacks s" "counters s' = counters s" "pw s' = w"
      "(\<exists>i b f m. main_pc s = M_acquired i b \<and> w = use_buffer b f (acquire_end b (pw s)) \<and> main_pc s' = M_publish i m \<and> sample_seq m = of_nat i) \<or>
       (\<exists>b. (w = drop_handle b (pw s) \<or> b \<in> set (releasing (pw s)) \<and> w = release_end b (pw s)) \<and> main_pc s' = main_pc s)"
  | (Local) "bsys s' = bsys s" "callbacks s' = callbacks s" "pw s' = pw s"
      "(\<exists>i buf ok missed until. main_pc s = M_tick i buf ok \<and> main_pc s' = M_sleep (Suc i) until \<and>
          counters s' = publish_iteration (buf, ok, missed) (counters s)) \<or>
       counters s' = counters s \<and> (pc_ok c (main_pc s) \<longrightarrow> pc_ok c (main_pc s') \<and> bound_of c (main_pc s) \<le> bound_of c (main_pc s')) \<and>
         (\<forall>i ok. main_pc s \<noteq> M_tick i False ok) \<and> (\<forall>i ok. main_pc s' \<noteq> M_tick i False ok) \<and>
         (\<forall>i b. main_pc s \<noteq> M_acquired i b) \<and> (\<forall>i b. main_pc s' \<noteq> M_acquired i b)"
      "main_pc s' \<noteq> M_stopping" "main_pc s' = M_end \<longrightarrow> main_pc s = M_stopping \<and> call_at (bsys s) 0 Idle_call" "main_pc s \<noteq> M_end"
      "main_pc s = M_stopping \<longrightarrow> main_pc s' = M_end"
proof (cases a)
  case (Main new now)
  show ?thesis
  proof (cases "main_pc s")
    case (M_subscribe i)
    show ?thesis
    proof (cases "int i < subscribers c")
      case True
      then show ?thesis using assms Main M_subscribe
        by (intro Subscribe [of i new "if i = 0 \<and> slow_ms c > 0 then slow_ms c * 1000 else 0"])
          (auto simp: main_step_def main_subscribe_def split: if_splits)
    next
      case False
      then show ?thesis using assms Main M_subscribe
        by (intro Local) (auto simp: main_step_def main_subscribe_def split: if_splits)
    qed
  next
    case (M_acquire i)
    show ?thesis
    proof (cases "int i < total_count c")
      case True
      obtain w r where "acquire_begin (pw s) = (w, r)" by fastforce
      then show ?thesis using assms Main M_acquire True
        by (intro Acquire [of w r i]) (auto simp: main_step_def main_acquire_def split: if_splits option.splits)
    next
      case False
      then show ?thesis using assms Main M_acquire
        by (intro Local) (auto simp: main_step_def main_acquire_def split: if_splits)
    qed
  next
    case (M_acquired i b)
    then show ?thesis using assms Main
      by (intro Pool [of "pw s'"]) (auto simp: main_step_def main_message_def split: if_splits)
  next
    case (M_publish i m)
    then show ?thesis using assms Main
      by (intro Publish [of i m "length (returned (bsys s))" now]) (auto simp: main_step_def main_publish_def split: if_splits)
  next
    case (M_tick i buf ok)
    then show ?thesis using assms Main
      by (intro Local) (auto simp: main_step_def main_tick_def split: if_splits prod.splits)
  next
    case M_stop
    then show ?thesis using assms Main
      by (intro Quiet [of "Do_shutdown 0"]) (auto simp: main_step_def split: if_splits)
  qed (rule Local; use assms Main in \<open>auto simp: main_step_def split: if_splits\<close>)+
next
  case (Deliver sid)
  then show ?thesis using assms
    by (cases "heard sid (bsys s)"; intro that(4) [of sid]) (auto simp: deliver_bus_def)
next
  case (Reap b)
  then show ?thesis using assms by (intro Pool [of "pw s'"]) (auto simp: reap_def split: if_splits)
next
  case (Give_back b)
  then show ?thesis using assms by (intro Pool [of "pw s'"]) (auto split: if_splits)
next
  case Continue
  then show ?thesis using assms by (intro Quiet [of "Do_continue 0"]) auto
next
  case (Wake to)
  then show ?thesis using assms by (intro Quiet [of "Do_wake 0 to"]) auto
next
  case (Take sid)
  then show ?thesis using assms by (intro Quiet [of "Do_take sid"]) auto
next
  case (Finish sid)
  then show ?thesis using assms by (intro Quiet [of "Do_return sid"]) (auto split: if_splits)
next
  case (Tick t)
  then show ?thesis using assms by (intro Quiet [of "Do_tick t"]) auto
qed

section \<open>What the actions of the bus keep\<close>

definition logs_kept :: "('ty, 'm) TopicBus \<Rightarrow> ('ty, 'm) TopicBus \<Rightarrow> bool" where
  "logs_kept b b' \<longleftrightarrow> (\<forall>t e'. map_of (topics b') t = Some e' \<longrightarrow>
     pub_log e' = [] \<or> (\<exists>e. map_of (topics b) t = Some e \<and> pub_log e' = pub_log e))"

lemma logs_kept_same: "topics b' = topics b \<Longrightarrow> logs_kept b b'"
  by (auto simp: logs_kept_def)

lemma continue_topics: "continue_call i c b = Some b' \<Longrightarrow> topics (bus b') = topics (bus b)"
  by (induction i c b rule: continue_call.induct)
    (auto elim!: with_subE simp: frame_simps split: prod.splits if_splits option.split_asm sum.split_asm)

lemma wake_topics: "wake_call i to c b = Some b' \<Longrightarrow> topics (bus b') = topics (bus b)"
  by (induction i to c b rule: wake_call.induct) (auto elim!: with_subE simp: frame_simps split: prod.splits if_splits)

lemma shutdown_logs: "logs_kept b (fst (shutdown_locked b))"
  by (auto simp: logs_kept_def shutdown_locked_def map_of_map)

lemma quiet_logs: "quiet a \<Longrightarrow> exec a b = Some b' \<Longrightarrow> logs_kept (bus b) (bus b')"
proof (induction a rule: quiet.induct)
  case (1 i)
  then show ?case by (intro logs_kept_same) (auto simp: exec.simps dest: continue_topics split: if_splits)
next
  case (2 i to)
  then show ?case by (intro logs_kept_same) (auto simp: exec.simps dest: wake_topics split: if_splits)
next
  case (3 sid)
  then show ?case by (intro logs_kept_same) (auto simp: exec.simps frame_simps elim!: with_subE split: if_splits option.splits)
next
  case (5 i)
  then show ?case using shutdown_logs [of "bus b"] by (auto simp: exec.simps begin_call_Some split: prod.splits)
next
  case (6 sid)
  then show ?case by (intro logs_kept_same) (auto simp: exec.simps frame_simps elim!: with_subE split: sub_worker.splits)
qed (auto simp: exec.simps logs_kept_same split: if_splits)

lemma deliver_logs: "exec (Do_deliver sid) b = Some b' \<Longrightarrow> logs_kept (bus b) (bus b')"
  by (intro logs_kept_same) (auto simp: exec.simps frame_simps elim!: with_subE split: sub_worker.splits)

lemma subscribe_logs: "exec (Do_subscribe i sid t ty q) b = Some b' \<Longrightarrow> logs_kept (bus b) (bus b')"
proof -
  assume e: "exec (Do_subscribe i sid t ty q) b = Some b'"
  obtain u r where p: "subscribe_locked sid t ty q (bus b) = (u, r)" by fastforce
  then have "bus b' = u" using e by (auto simp: exec.simps begin_call_Some split: if_splits option.splits)
  moreover have "logs_kept (bus b) u"
  proof (cases r)
    case None
    then have "topics_narrow (bus b) u" using subscribe_conflict_narrow p by simp
    then show ?thesis unfolding logs_kept_def
      by (auto elim!: topics_narrow_entry simp: narrowed_def new_entry_def)
  next
    case (Some bl)
    then obtain d where "map_of (topics (bus b)) t = Some d \<or> map_of (topics (bus b)) t = None \<and> d = new_entry ty"
      "map_of (topics u) = (map_of (topics (bus b)))(t \<mapsto> d\<lparr>entry_subs := entry_subs d @ [sid]\<rparr>)"
      using p by (auto elim: subscribe_locked_ok)
    then show ?thesis by (auto simp: logs_kept_def new_entry_def)
  qed
  ultimately show ?thesis by simp
qed

text \<open>A publication appends at most its message to one log.\<close>

lemma publish_logs:
  assumes "exec (Do_publish i now t ty q m) b = Some b'" and "map_of (topics (bus b')) k = Some e'"
  shows "\<exists>e. map_of (topics (bus b)) k = Some e \<and> (pub_log e' = pub_log e \<or> (\<exists>env. payload env = m \<and> pub_log e' = pub_log e @ [env]))"
proof -
  obtain u r where p: "publish_locked t ty q m (of_int now) (bus b) = (u, r)" by fastforce
  then have u: "topics (bus b') = topics u"
    using assms(1) by (auto simp: exec.simps begin_call_Some frame_simps split: if_splits option.splits prod.splits)
  from p show ?thesis
  proof (cases rule: publish_locked_cases)
    case (Published e e2 env ts ms n)
    then have "payload env = m" using p by (auto simp: publish_locked_def Let_def split: if_splits prod.splits)
    then show ?thesis using assms(2) u Published(1,9,11) by (cases "k = t") auto
  qed (use assms(2) u in auto)
qed

text \<open>Only deliveries add to what a callback has heard.\<close>

definition hearing_kept :: "('ty, 'm) TopicBus \<Rightarrow> ('ty, 'm) TopicBus \<Rightarrow> bool" where
  "hearing_kept b b' \<longleftrightarrow> (\<forall>sid x'. sub_objs b' sid = Some x' \<longrightarrow> (\<exists>x. sub_objs b sid = Some x \<and> processed x' = processed x))"

lemma hearing_kept_same: "sub_objs b' = sub_objs b \<Longrightarrow> hearing_kept b b'"
  by (auto simp: hearing_kept_def)

lemma hearing_kept_set: "sub_objs b sid = Some x \<Longrightarrow> processed x' = processed x \<Longrightarrow> hearing_kept b (set_sub sid x' b)"
  by (auto simp: hearing_kept_def set_sub_def)

lemma processed_simps [simp]:
  "processed (sub_pushed env r x) = processed x" "processed (replay env x) = processed x"
  "processed (start_worker x) = processed x" "processed (close_sub x) = processed x"
  by (simp_all add: sub_pushed_def replay_def start_worker_def close_sub_def split: prod.splits)

lemma continue_hearing: "continue_call i c b = Some b' \<Longrightarrow> hearing_kept (bus b) (bus b')"
  by (induction i c b rule: continue_call.induct)
    (auto elim!: with_subE simp: hearing_kept_def frame_simps split: prod.splits if_splits option.split_asm sum.split_asm)

lemma wake_hearing: "wake_call i to c b = Some b' \<Longrightarrow> hearing_kept (bus b) (bus b')"
  by (induction i to c b rule: wake_call.induct)
    (auto elim!: with_subE simp: hearing_kept_def frame_simps split: prod.splits if_splits)

lemma quiet_hearing: "quiet a \<Longrightarrow> exec a b = Some b' \<Longrightarrow> hearing_kept (bus b) (bus b')"
proof (induction a rule: quiet.induct)
  case (1 i)
  then show ?case by (auto simp: exec.simps dest: continue_hearing split: if_splits)
next
  case (2 i to)
  then show ?case by (auto simp: exec.simps dest: wake_hearing split: if_splits)
next
  case (3 sid)
  then obtain x x' where "sub_objs (bus b) sid = Some x" "worker_take x = Some x'" "bus b' = set_sub sid x' (bus b)"
    by (auto simp: exec.simps elim!: with_subE split: if_splits)
  moreover have "processed x' = processed x" using calculation(2) by (cases rule: worker_take_cases) simp_all
  ultimately show ?case using hearing_kept_set by metis
next
  case (5 i)
  then show ?case by (intro hearing_kept_same) (auto simp: exec.simps begin_call_Some shutdown_locked_def)
next
  case (6 sid)
  then obtain x where "sub_objs (bus b) sid = Some x" "bus b' = set_sub sid (deliver_return x) (bus b)"
    by (auto simp: exec.simps elim!: with_subE split: sub_worker.splits)
  then show ?case using hearing_kept_set by (metis deliver_return_frame(10))
qed (auto simp: exec.simps hearing_kept_same split: if_splits)

lemma publish_hearing:
  assumes "exec (Do_publish i now t ty q m) b = Some b'"
  shows "hearing_kept (bus b) (bus b')"
  unfolding hearing_kept_def
proof (intro allI impI)
  fix sid x' assume x': "sub_objs (bus b') sid = Some x'"
  obtain u r where p: "publish_locked t ty q m (of_int now) (bus b) = (u, r)" by fastforce
  then have "sub_objs (bus b') = sub_objs u"
    using assms by (auto simp: exec.simps begin_call_Some frame_simps split: if_splits option.splits prod.splits)
  then have "sub_objs u sid = Some x'" using x' by simp
  with p obtain x where "sub_objs (bus b) sid = Some x" "requalified x x'" by (rule publish_locked_subs)
  then show "\<exists>x. sub_objs (bus b) sid = Some x \<and> processed x' = processed x" by (auto simp: requalified_def)
qed

lemma subscribe_hearing:
  assumes "exec (Do_subscribe i new t ty q) b = Some b'" and "sub_objs (bus b') sid = Some x'"
  shows "sub_objs (bus b) sid = Some x' \<and> sid \<noteq> new \<or> sid = new \<and> processed x' = []"
proof -
  obtain u r where p: "subscribe_locked new t ty q (bus b) = (u, r)" by fastforce
  then have "bus b' = u" "sub_objs (bus b) new = None"
    using assms(1) by (auto simp: exec.simps begin_call_Some split: if_splits option.splits)
  then show ?thesis using assms(2) subscribe_locked_subs [OF p] by (auto simp: new_subscription_def split: if_splits)
qed

lemma deliver_hearing:
  assumes "exec (Do_deliver k) b = Some b'" and "sub_objs (bus b') sid = Some x'"
  obtains x where "sub_objs (bus b) sid = Some x"
    "map payload (lefts (processed x')) =
       map payload (lefts (processed x)) @ (if sid = k then (case heard k b of None \<Rightarrow> [] | Some m \<Rightarrow> [m]) else [])"
proof -
  obtain x env where x: "sub_objs (bus b) k = Some x" "sub_worker_at x = Holding env"
    "bus b' = set_sub k (deliver_call (of_int (time b)) env x) (bus b)"
    using assms(1) by (auto simp: exec.simps elim!: with_subE split: sub_worker.splits)
  show ?thesis
  proof (cases "sid = k")
    case True
    then have "x' = deliver_call (of_int (time b)) env x" using assms(2) x(3) by (simp add: frame_simps)
    then show ?thesis using that [of x] x(1,2) True by (simp add: heard_def frame_simps)
  next
    case False
    then show ?thesis using that assms(2) x(3) by (simp add: frame_simps)
  qed
qed

section \<open>Messages are numbered upwards\<close>

definition num :: "(unit, Sample) Envelope \<Rightarrow> nat" where
  "num env = unat (sample_seq (payload env))"

definition numbered_below :: "nat \<Rightarrow> (unit, Sample) TopicBus \<Rightarrow> bool" where
  "numbered_below n b \<longleftrightarrow> (\<forall>t e. map_of (topics b) t = Some e \<longrightarrow>
     sorted_wrt (\<lambda>v w. num v < num w) (pub_log e) \<and> (\<forall>v\<in>set (pub_log e). num v < n))"

definition numbered :: "latency_config \<Rightarrow> latency_sys \<Rightarrow> bool" where
  "numbered c s \<longleftrightarrow> pc_ok c (main_pc s) \<and> (total_count c < 2 ^ 63 \<longrightarrow> numbered_below (bound_of c (main_pc s)) (bus (bsys s)))"

lemma numbered_kept: "numbered_below n b \<Longrightarrow> logs_kept b b' \<Longrightarrow> n \<le> n' \<Longrightarrow> numbered_below n' b'"
  unfolding numbered_below_def
proof (intro allI impI)
  fix t e' assume n: "\<forall>t e. map_of (topics b) t = Some e \<longrightarrow> sorted_wrt (\<lambda>v w. num v < num w) (pub_log e) \<and> (\<forall>v\<in>set (pub_log e). num v < n)"
    and k: "logs_kept b b'" "n \<le> n'" and e': "map_of (topics b') t = Some e'"
  consider "pub_log e' = []" | e where "map_of (topics b) t = Some e" "pub_log e' = pub_log e"
    using k(1) e' unfolding logs_kept_def by blast
  then show "sorted_wrt (\<lambda>v w. num v < num w) (pub_log e') \<and> (\<forall>v\<in>set (pub_log e'). num v < n')"
    using n k(2) by cases (simp, fastforce)
qed

lemma numbered_publish:
  assumes n: "numbered_below n (bus b)" and e: "exec (Do_publish i now t ty q m) b = Some b'" and m: "unat (sample_seq m) = n"
  shows "numbered_below (Suc n) (bus b')"
  unfolding numbered_below_def
proof (intro allI impI)
  fix k e' assume "map_of (topics (bus b')) k = Some e'"
  then obtain d where d: "map_of (topics (bus b)) k = Some d"
    "pub_log e' = pub_log d \<or> (\<exists>env. payload env = m \<and> pub_log e' = pub_log d @ [env])"
    using publish_logs [OF e] by blast
  have "sorted_wrt (\<lambda>v w. num v < num w) (pub_log d)" "\<forall>v\<in>set (pub_log d). num v < n"
    using n d(1) by (auto simp: numbered_below_def)
  then show "sorted_wrt (\<lambda>v w. num v < num w) (pub_log e') \<and> (\<forall>v\<in>set (pub_log e'). num v < Suc n)"
    using d(2) m by (auto simp: sorted_wrt_append num_def [of "_ :: (unit, Sample) Envelope"] less_Suc_eq)
qed

lemma numbered_step:
  assumes n: "numbered c s" and step: "latency_exec c a s = Some s'"
  shows "numbered c s'"
proof -
  have pc: "pc_ok c (main_pc s)" and below: "total_count c < 2 ^ 63 \<Longrightarrow> numbered_below (bound_of c (main_pc s)) (bus (bsys s))"
    using n by (simp_all add: numbered_def)
  have keep: "numbered c s'" if "logs_kept (bus (bsys s)) (bus (bsys s'))" "pc_ok c (main_pc s')" "bound_of c (main_pc s) \<le> bound_of c (main_pc s')"
    using that numbered_kept [OF below] by (simp add: numbered_def)
  have same: "logs_kept (bus (bsys s)) (bus (bsys s'))" if "bsys s' = bsys s" using that by (simp add: logs_kept_same)
  from step show ?thesis
  proof (cases rule: latency_cases)
    case Subscribe
    then show ?thesis using pc subscribe_logs by (intro keep) auto
  next
    case (Publish i m now k)
    then have i: "int i < total_count c" "sample_seq m = of_nat i" using pc by simp_all
    have "numbered_below (Suc i) (bus (bsys s'))" if t: "total_count c < 2 ^ 63"
    proof (rule numbered_publish [OF _ Publish(3)])
      show "numbered_below i (bus (bsys s))" using below [OF t] Publish(1) by simp
      show "unat (sample_seq m) = i" using i t unat_of_nat_small [of i] by simp
    qed
    then show ?thesis using Publish(2) i(1) by (simp add: numbered_def)
  next
    case (Quiet act)
    then show ?thesis using pc quiet_logs by (intro keep) auto
  next
    case (Deliver sid)
    then show ?thesis using pc deliver_logs by (intro keep) auto
  next
    case (Acquire i w r)
    then show ?thesis by (intro keep same) (auto split: option.splits)
  next
    case (Pool w)
    then show ?thesis using pc by (intro keep same) auto
  next
    case Local
    from Local(4) show ?thesis
    proof
      assume "\<exists>i buf ok missed until. main_pc s = M_tick i buf ok \<and> main_pc s' = M_sleep (Suc i) until \<and>
        counters s' = publish_iteration (buf, ok, missed) (counters s)"
      then show ?thesis using pc Local(1) by (intro keep same) auto
    qed (use pc Local(1) in \<open>auto intro!: keep same\<close>)
  qed
qed

section \<open>Callbacks\<close>

definition hearing :: "latency_sys \<Rightarrow> bool" where
  "hearing s \<longleftrightarrow> (\<forall>sid x. sub_objs (bus (bsys s)) sid = Some x \<longrightarrow>
     (\<exists>ms w. callbacks s sid = fold on_message ms (new_subscriber_state\<lparr>work_us := w\<rparr>) \<and> map snd ms = map payload (lefts (processed x))))"

lemma hearing_keep:
  "hearing s \<Longrightarrow> hearing_kept (bus (bsys s)) (bus (bsys s')) \<Longrightarrow> callbacks s' = callbacks s \<Longrightarrow> hearing s'"
  unfolding hearing_def hearing_kept_def by metis

lemma hearing_step:
  assumes h: "hearing s" and step: "latency_exec c a s = Some s'"
  shows "hearing s'"
  using step
proof (cases rule: latency_cases)
  case (Subscribe i new w)
  show ?thesis unfolding hearing_def
  proof (intro allI impI)
    fix sid x assume "sub_objs (bus (bsys s')) sid = Some x"
    then consider "sub_objs (bus (bsys s)) sid = Some x" "sid \<noteq> new" | "sid = new" "processed x = []"
      using subscribe_hearing [OF Subscribe(3)] by blast
    then show "\<exists>ms w. callbacks s' sid = fold on_message ms (new_subscriber_state\<lparr>work_us := w\<rparr>) \<and> map snd ms = map payload (lefts (processed x))"
    proof cases
      case 1
      then show ?thesis using h Subscribe(4) by (simp add: hearing_def)
    next
      case 2
      then show ?thesis using Subscribe(4) by (intro exI [of _ "[]"] exI [of _ w]) simp
    qed
  qed
next
  case (Publish i m now k)
  then show ?thesis using hearing_keep [OF h publish_hearing] by blast
next
  case (Quiet act)
  then show ?thesis using hearing_keep [OF h quiet_hearing] by blast
next
  case (Deliver k)
  show ?thesis unfolding hearing_def
  proof (intro allI impI)
    fix sid x' assume "sub_objs (bus (bsys s')) sid = Some x'"
    with Deliver(1) obtain x where x: "sub_objs (bus (bsys s)) sid = Some x" "map payload (lefts (processed x')) =
        map payload (lefts (processed x)) @ (if sid = k then (case heard k (bsys s) of None \<Rightarrow> [] | Some m \<Rightarrow> [m]) else [])"
      by (rule deliver_hearing)
    obtain ms w where m: "callbacks s sid = fold on_message ms (new_subscriber_state\<lparr>work_us := w\<rparr>)" "map snd ms = map payload (lefts (processed x))"
      using h x(1) unfolding hearing_def by blast
    let ?ms = "ms @ (if sid = k then (case heard k (bsys s) of None \<Rightarrow> [] | Some m \<Rightarrow> [(time (bsys s), m)]) else [])"
    have "callbacks s' sid = fold on_message ?ms (new_subscriber_state\<lparr>work_us := w\<rparr>)"
      using m(1) Deliver(5) by (auto split: option.splits)
    moreover have "map snd ?ms = map payload (lefts (processed x'))" using m(2) x(2) by (auto split: option.splits)
    ultimately show "\<exists>ms w. callbacks s' sid = fold on_message ms (new_subscriber_state\<lparr>work_us := w\<rparr>) \<and> map snd ms = map payload (lefts (processed x'))"
      by blast
  qed
qed (use hearing_keep [OF h hearing_kept_same] in simp_all)

section \<open>The pool\<close>

fun acquiring_of :: "main_at \<Rightarrow> addr list" where
  "acquiring_of (M_acquired i a) = [a]"
| "acquiring_of _ = []"

fun skipped :: "main_at \<Rightarrow> u64" where
  "skipped (M_tick i buf ok) = (if buf then 0 else 1)"
| "skipped _ = 0"

definition pool_tracked :: "pool_world \<Rightarrow> addr list \<Rightarrow> u64 \<Rightarrow> bool" where
  "pool_tracked w as n \<longleftrightarrow> acquiring w = as \<and> pool_refs w = 1 + length (acquiring w) + length (releasing w) \<and>
     (\<exists>p. pool w = Some p \<and> exhausted p = n)"

lemma pool_unref_tracked:
  assumes "acquiring w = as" "pool_refs w = 2 + length (acquiring w) + length (releasing w)" "\<exists>p. pool w = Some p \<and> exhausted p = n"
  shows "pool_tracked (pool_unref w) as n"
  using assms by (simp add: pool_tracked_def pool_unref_def)

lemma pool_ops_tracked:
  assumes "pool_tracked w as n"
  shows "pool_tracked (drop_handle b w) as n"
    and "b \<in> set (releasing w) \<Longrightarrow> pool_tracked (release_end b w) as n"
    and "as = [b] \<Longrightarrow> pool_tracked (use_buffer b f (acquire_end b w)) [] n"
    and "as = [] \<Longrightarrow> acquire_begin w = (w', r) \<Longrightarrow>
      pool_tracked w' (case r of None \<Rightarrow> [] | Some a \<Rightarrow> [a]) (n + (if r = None then 1 else 0))"
proof -
  show "pool_tracked (drop_handle b w) as n" using assms by (auto simp: pool_tracked_def drop_handle_def Let_def)
  show "pool_tracked (release_end b w) as n" if "b \<in> set (releasing w)"
  proof -
    have "length (releasing w) = Suc (length (remove1 b (releasing w)))"
      using that by (simp add: length_remove1) (metis Suc_pred length_pos_if_in_set)
    then show ?thesis unfolding release_end_def Let_def using assms
      by (intro pool_unref_tracked) (auto simp: pool_tracked_def release_def)
  qed
  show "pool_tracked (use_buffer b f (acquire_end b w)) [] n" if "as = [b]"
  proof -
    have "pool_tracked (acquire_end b w) [] n" unfolding acquire_end_def using assms that
      by (intro pool_unref_tracked) (auto simp: pool_tracked_def)
    then show ?thesis by (simp add: pool_tracked_def use_buffer_def)
  qed
  show "pool_tracked w' (case r of None \<Rightarrow> [] | Some a \<Rightarrow> [a]) (n + (if r = None then 1 else 0))"
    if "as = []" "acquire_begin w = (w', r)"
    using that assms by (auto simp: pool_tracked_def acquire_begin_def acquire_locked_def split: option.splits if_splits)
qed

definition pool_counted :: "latency_sys \<Rightarrow> bool" where
  "pool_counted s \<longleftrightarrow> pool_tracked (pw s) (acquiring_of (main_pc s)) (pool_empty (counters s) + skipped (main_pc s))"

lemma pool_step_counted:
  assumes p: "pool_counted s" and step: "latency_exec c a s = Some s'"
  shows "pool_counted s'"
  using step
proof (cases rule: latency_cases)
  case (Acquire i w r)
  then show ?thesis using p pool_ops_tracked(4) [of "pw s" "[]" _ w r]
    by (auto simp: pool_counted_def split: option.splits)
next
  case (Pool w)
  from Pool(5) show ?thesis
  proof
    assume "\<exists>i b f m. main_pc s = M_acquired i b \<and> w = use_buffer b f (acquire_end b (pw s)) \<and> main_pc s' = M_publish i m \<and> sample_seq m = of_nat i"
    then show ?thesis using p Pool(3,4) pool_ops_tracked(3) by (auto simp: pool_counted_def)
  qed (use p Pool(3,4) pool_ops_tracked(1,2) in \<open>auto simp: pool_counted_def\<close>)
next
  case Local
  from Local(4) show ?thesis
  proof
    assume "\<exists>i buf ok missed until. main_pc s = M_tick i buf ok \<and> main_pc s' = M_sleep (Suc i) until \<and>
      counters s' = publish_iteration (buf, ok, missed) (counters s)"
    then show ?thesis using p Local(3) by (auto simp: pool_counted_def publish_iteration_def Let_def)
  next
    assume "counters s' = counters s \<and> (pc_ok c (main_pc s) \<longrightarrow> pc_ok c (main_pc s') \<and> bound_of c (main_pc s) \<le> bound_of c (main_pc s')) \<and>
      (\<forall>i ok. main_pc s \<noteq> M_tick i False ok) \<and> (\<forall>i ok. main_pc s' \<noteq> M_tick i False ok) \<and>
      (\<forall>i b. main_pc s \<noteq> M_acquired i b) \<and> (\<forall>i b. main_pc s' \<noteq> M_acquired i b)"
    moreover have "acquiring_of pc = []" if "\<forall>i b. pc \<noteq> M_acquired i b" for pc using that by (cases pc) auto
    moreover have "skipped pc = 0" if "\<forall>i ok. pc \<noteq> M_tick i False ok" for pc using that by (cases pc) auto
    ultimately show ?thesis using p Local(3) by (simp add: pool_counted_def)
  qed
qed (use p in \<open>auto simp: pool_counted_def\<close>)

section \<open>The end of the workers\<close>

text \<open>
  Until the shutdown every subscription is listed on the bus. The shutdown then has all of them to stop, and when it is
  over all workers are joined.
\<close>

definition listed :: "('ty, 'm) TopicBus \<Rightarrow> bool" where
  "listed b \<longleftrightarrow> (\<forall>sid. sub_objs b sid \<noteq> None \<longrightarrow> (\<exists>t e. map_of (topics b) t = Some e \<and> sid \<in> set (entry_subs e)))"

definition winding :: "('ty, 'm) bus_sys \<Rightarrow> bool" where
  "winding b \<longleftrightarrow> (\<forall>sid x. sub_objs (bus b) sid = Some x \<longrightarrow>
     sub_worker_at x = Thread_joined \<or> sid \<in> stops (calls b ! 0) \<or> (\<exists>e. calls b ! 0 = Join_failed e))"

definition all_joined :: "('ty, 'm) bus_sys \<Rightarrow> bool" where
  "all_joined b \<longleftrightarrow> (\<forall>sid x. sub_objs (bus b) sid = Some x \<longrightarrow> sub_worker_at x = Thread_joined)"

text \<open>Actions that neither subscribe nor publish nor shut the bus down.\<close>

definition plain :: "('ty, 'm) action \<Rightarrow> bool" where
  "plain a \<longleftrightarrow> quiet a \<and> (\<forall>i. a \<noteq> Do_shutdown i) \<or> (\<exists>sid. a = Do_deliver sid)"

lemma plain_subs: "plain a \<Longrightarrow> exec a b = Some b' \<Longrightarrow> sub_objs (bus b') sid \<noteq> None \<Longrightarrow> sub_objs (bus b) sid \<noteq> None"
  by (erule exec_subs) (auto simp: plain_def)

lemma plain_topics: "plain a \<Longrightarrow> exec a b = Some b' \<Longrightarrow> topics (bus b') = topics (bus b)"
  by (cases a) (auto simp: plain_def exec.simps frame_simps continue_topics wake_topics elim!: with_subE
      split: if_splits option.splits sub_worker.splits dest: continue_topics wake_topics)

lemma plain_listed: "listed (bus b) \<Longrightarrow> plain a \<Longrightarrow> exec a b = Some b' \<Longrightarrow> listed (bus b')"
  unfolding listed_def using plain_subs plain_topics by metis

lemma subscribe_listed:
  assumes "listed (bus b)" and "exec (Do_subscribe i new t ty q) b = Some b'"
  shows "listed (bus b')"
proof -
  obtain u r where p: "subscribe_locked new t ty q (bus b) = (u, r)" by fastforce
  then have u: "bus b' = u" using assms(2) by (auto simp: exec.simps begin_call_Some split: if_splits option.splits)
  show ?thesis
  proof (cases r)
    case None
    then have "u = bus b" using p by (auto simp: subscribe_locked_def ensure_topic_def new_entry_def Let_def split: option.splits if_splits)
    then show ?thesis using assms(1) u by simp
  next
    case (Some bl)
    then obtain d where "map_of (topics (bus b)) t = Some d \<or> map_of (topics (bus b)) t = None \<and> d = new_entry ty"
      "map_of (topics u) = (map_of (topics (bus b)))(t \<mapsto> d\<lparr>entry_subs := entry_subs d @ [new]\<rparr>)"
      "sub_objs u = (sub_objs (bus b))(new \<mapsto> new_subscription t ty q)"
      using p by (auto elim: subscribe_locked_ok)
    then show ?thesis using assms(1) unfolding u listed_def by (auto split: if_splits) (metis option.inject option.distinct(1))+
  qed
qed

lemma publish_listed:
  assumes "listed (bus b)" and "exec (Do_publish i now t ty q m) b = Some b'"
  shows "listed (bus b')"
proof -
  obtain u r where p: "publish_locked t ty q m (of_int now) (bus b) = (u, r)" by fastforce
  then have u: "topics (bus b') = topics u" "sub_objs (bus b') = sub_objs u"
    using assms(2) by (auto simp: exec.simps begin_call_Some frame_simps split: if_splits option.splits prod.splits)
  have "sub_objs (bus b) sid \<noteq> None" if "sub_objs u sid \<noteq> None" for sid
    using that publish_locked_subs [OF p] by (metis option.distinct(1) option.exhaust)
  moreover have "\<exists>k e'. map_of (topics u) k = Some e' \<and> sid \<in> set (entry_subs e')"
    if "map_of (topics (bus b)) k = Some e" "sid \<in> set (entry_subs e)" for sid k e
    using p
  proof (cases rule: publish_locked_cases)
    case (Published d d' env ts ms n)
    then show ?thesis using that by (intro exI [of _ k] exI [of _ "if k = t then d' else e"]) auto
  qed (use that in auto)
  ultimately show ?thesis using assms(1) unfolding listed_def u by metis
qed

lemma shutdown_winding:
  assumes "listed (bus b)" and "exec (Do_shutdown 0) b = Some b'"
  shows "winding b'"
proof -
  have b': "call_at b 0 Idle_call" "b' = go 0 (Stopping (all_subs (bus b))) (fst (shutdown_locked (bus b))) b"
    using assms(2) by (auto simp: exec.simps begin_call_Some shutdown_locked_def)
  have "sid \<in> set (all_subs (bus b))" if some: "sub_objs (bus b) sid \<noteq> None" for sid
  proof -
    obtain t e where "map_of (topics (bus b)) t = Some e" "sid \<in> set (entry_subs e)" using assms(1) some unfolding listed_def by blast
    then show ?thesis unfolding all_subs_def by (auto dest!: map_of_SomeD intro!: bexI [of _ "(t, e)"])
  qed
  then show ?thesis using b' by (auto simp: winding_def call_at_def frame_simps)
qed

lemma joined_stays:
  assumes "bus_reach n b" and "exec a b = Some b'" and "sub_objs (bus b) sid = Some x" and "sub_worker_at x = Thread_joined"
    and "sub_objs (bus b') sid = Some x'"
  shows "sub_worker_at x' = Thread_joined"
  using worker_step [OF bus_subs.reachable_inv [OF assms(1)] exec_step [OF assms(2)] assms(3)] assms(4,5)
  by (auto simp: worker_next_def)

lemma plain_joined: "all_joined b \<Longrightarrow> bus_reach n b \<Longrightarrow> plain a \<Longrightarrow> exec a b = Some b' \<Longrightarrow> all_joined b'"
  unfolding all_joined_def
proof (intro allI impI)
  fix sid x'
  assume a: "\<forall>sid x. sub_objs (bus b) sid = Some x \<longrightarrow> sub_worker_at x = Thread_joined" "bus_reach n b" "plain a" "exec a b = Some b'"
    and x': "sub_objs (bus b') sid = Some x'"
  then obtain x where "sub_objs (bus b) sid = Some x" using plain_subs [OF a(3,4), of sid] by auto
  then show "sub_worker_at x' = Thread_joined" using joined_stays [OF a(2,4) _ _ x'] a(1) by blast
qed

text \<open>The only call goes on: what it has dealt with is joined, for no worker is left to be started.\<close>

lemma continue_winding:
  assumes w: "winding b" and r: "bus_reach 1 b" and e: "exec (Do_continue 0) b = Some b'" and c: "stopping (calls b ! 0)"
  shows "winding b'"
  unfolding winding_def
proof (intro allI impI)
  fix sid x' assume x': "sub_objs (bus b') sid = Some x'"
  have len: "length (calls b) = 1" using r by (rule bus_reach_calls)
  then have cs: "calls b = [calls b ! 0]" by (cases "calls b") auto
  have "subscribing (calls b ! 0) = None" using c by (cases "calls b ! 0") simp_all
  then have "starters (calls b) = {#}" by (subst cs) (simp add: starters_def)
  then have started: "\<not> not_started (bus b) k" for k using bus_awaited.reachable_inv [OF r] by (auto simp: awaited_def)
  have k: "continue_call 0 (calls b ! 0) b = Some b'" using e len by (simp add: exec.simps)
  obtain x where x: "sub_objs (bus b) sid = Some x"
    using plain_subs [of "Do_continue 0" b b' sid] e x' by (auto simp: plain_def)
  note j = joined_stays [OF r e x _ x'] and wx = w [unfolded winding_def, rule_format, OF x]
  show "sub_worker_at x' = Thread_joined \<or> sid \<in> stops (calls b' ! 0) \<or> (\<exists>e. calls b' ! 0 = Join_failed e)"
  proof (cases "calls b ! 0")
    case (Stopping sids)
    then show ?thesis using k wx j len by (cases sids) (auto elim!: with_subE)
  next
    case (Closed_sub a sids)
    then obtain y where y: "sub_objs (bus b) a = Some y"
      "b' = go 0 (if joinable (sub_worker_at y) then Joining a sids else Stopping sids) (bus b) b"
      using k by (auto elim!: with_subE)
    have "sub_worker_at y = Thread_joined" if "\<not> joinable (sub_worker_at y)"
      using that started [of a] y(1) by (cases "sub_worker_at y") (auto simp: not_started_def)
    then show ?thesis using wx j y x Closed_sub len by auto
  next
    case (Joining a sids)
    with k have k: "with_sub a (\<lambda>x. case join_worker (sub_worker_at x) of
        None \<Rightarrow> None
      | Some (Inl e) \<Rightarrow> Some (go 0 (Join_failed e) (bus b) b)
      | Some (Inr w) \<Rightarrow> Some (go 0 (Stopping sids) (set_sub a (x\<lparr>sub_worker_at := w\<rparr>) (bus b)) b)) b = Some b'" by simp
    then show ?thesis
      by (rule with_subE) (use wx j x' Joining len in
        \<open>auto simp: join_worker_Inr frame_simps split: option.split_asm sum.split_asm if_split_asm\<close>)
  qed (use k c in auto)
qed

lemma plain_winding:
  assumes w: "winding b" and r: "bus_reach 1 b" and p: "plain a" and e: "exec a b = Some b'"
  shows "winding b'"
proof (cases "stopping (calls b ! 0)")
  case False
  then have "stops (calls b ! 0) = {}" "\<not> (\<exists>e. calls b ! 0 = Join_failed e)" by (cases "calls b ! 0"; simp)+
  then have "all_joined b" using w by (auto simp: winding_def all_joined_def)
  then have "all_joined b'" using r p e by (rule plain_joined)
  then show ?thesis by (auto simp: winding_def all_joined_def)
next
  case True
  have len: "length (calls b) = 1" using r by (rule bus_reach_calls)
  show ?thesis
  proof (cases "a = Do_continue 0")
    case True
    then show ?thesis using continue_winding [OF w r] e \<open>stopping (calls b ! 0)\<close> by simp
  next
    case False
    have "call_at b 0 (calls b ! 0)" using len by (simp add: call_at_def)
    then have "calls b' ! 0 = calls b ! 0" using stopping_stays [OF e _ True False] by (simp add: call_at_def)
    then have c: "stops (calls b' ! 0) = stops (calls b ! 0)" "(\<exists>e. calls b' ! 0 = Join_failed e) \<longleftrightarrow> (\<exists>e. calls b ! 0 = Join_failed e)"
      by simp_all
    show ?thesis unfolding winding_def c
    proof (intro allI impI)
      fix sid x' assume x': "sub_objs (bus b') sid = Some x'"
      then obtain x where x: "sub_objs (bus b) sid = Some x" using plain_subs [OF p e, of sid] by auto
      then show "sub_worker_at x' = Thread_joined \<or> sid \<in> stops (calls b ! 0) \<or> (\<exists>e. calls b ! 0 = Join_failed e)"
        using w [unfolded winding_def, rule_format, OF x] joined_stays [OF r e x _ x'] by blast
    qed
  qed
qed

definition wind_down :: "latency_sys \<Rightarrow> bool" where
  "wind_down s \<longleftrightarrow> (if main_pc s = M_stopping then winding (bsys s) else if main_pc s = M_end then all_joined (bsys s) else listed (bus (bsys s)))"

lemma wind_down_step:
  assumes w: "wind_down s" and r: "bus_reach 1 (bsys s)" and step: "latency_exec c a s = Some s'"
  shows "wind_down s'"
proof -
  have plain: "wind_down s'" if "plain act" "exec act (bsys s) = Some (bsys s')" "main_pc s' = main_pc s" for act
    using w that plain_winding [OF _ r that(1,2)] plain_joined [OF _ r that(1,2)] plain_listed [OF _ that(1,2)]
    by (auto simp: wind_down_def)
  have same: "wind_down s'" if "bsys s' = bsys s" "main_pc s' \<noteq> M_stopping" "main_pc s' \<noteq> M_end" "main_pc s \<noteq> M_stopping" "main_pc s \<noteq> M_end"
    using w that by (simp add: wind_down_def)
  from step show ?thesis
  proof (cases rule: latency_cases)
    case (Subscribe i new w')
    then show ?thesis using w subscribe_listed [OF _ Subscribe(3)] by (simp add: wind_down_def)
  next
    case (Publish i m now k)
    then show ?thesis using w publish_listed [OF _ Publish(3)] by (simp add: wind_down_def)
  next
    case (Quiet act)
    from Quiet(6) show ?thesis
    proof
      assume "act = Do_shutdown 0 \<and> main_pc s = M_stop \<and> main_pc s' = M_stopping"
      then show ?thesis using w shutdown_winding Quiet(2) by (auto simp: wind_down_def)
    qed (use Quiet plain in \<open>auto simp: plain_def\<close>)
  next
    case (Deliver sid)
    then show ?thesis by (intro plain) (auto simp: plain_def)
  next
    case (Acquire i w' r)
    then show ?thesis by (intro same) (auto split: option.splits)
  next
    case (Pool w')
    from Pool(5) show ?thesis
    proof
      assume "\<exists>b. (w' = drop_handle b (pw s) \<or> b \<in> set (releasing (pw s)) \<and> w' = release_end b (pw s)) \<and> main_pc s' = main_pc s"
      then show ?thesis using w Pool(1) by (auto simp: wind_down_def)
    qed (use same Pool(1) in auto)
  next
    case Local
    show ?thesis
    proof (cases "main_pc s' = M_end")
      case True
      then have "main_pc s = M_stopping" "stops (calls (bsys s) ! 0) = {}" "\<not> (\<exists>e. calls (bsys s) ! 0 = Join_failed e)"
        using Local(6) by (auto simp: call_at_def)
      then show ?thesis using True w Local(1) by (auto simp: wind_down_def winding_def all_joined_def)
    next
      case False
      then show ?thesis using Local by (intro same) auto
    qed
  qed
qed

section \<open>The benchmark's own invariant\<close>

definition latency_inv :: "latency_config \<Rightarrow> latency_sys \<Rightarrow> bool" where
  "latency_inv c s \<longleftrightarrow> bus_reach 1 (bsys s) \<and> numbered c s \<and> hearing s \<and> pool_counted s \<and> wind_down s"

lemma latency_bus_step: "latency_exec c a s = Some s' \<Longrightarrow> bsys s' = bsys s \<or> bus_step (bsys s) (bsys s')"
  by (erule latency_cases) (auto intro: exec_step)

lemma latency_inv_step: "latency_inv c s \<Longrightarrow> latency_step c s s' \<Longrightarrow> latency_inv c s'"
proof -
  assume i: "latency_inv c s" and "latency_step c s s'"
  then obtain a where a: "latency_exec c a s = Some s'" by (auto simp: latency_step_def)
  then have "bus_reach 1 (bsys s')"
    using i latency_bus_step [OF a] by (auto simp: latency_inv_def intro: reachable.move [where step = bus_step])
  then show ?thesis using i numbered_step [OF _ a] hearing_step [OF _ a] pool_step_counted [OF _ a] wind_down_step [OF _ _ a] by (simp add: latency_inv_def)
qed

lemma bench_bus_topics: "topics (bench_bus c) = [(''bench'', new_entry ())]" "sub_objs (bench_bus c) = Map.empty"
  by (simp_all add: bench_bus_def advertise_def ensure_topic_def set_reliable_timeout_def new_bus_def)

lemma latency_start_reach: "bus_reach 1 (bsys (latency_start c t))"
proof -
  let ?s0 = "\<lparr>bus = new_bus, calls = [Idle_call], time = t, returned = []\<rparr> :: (unit, Sample) bus_sys"
  let ?s1 = "?s0\<lparr>bus := set_reliable_timeout (reliable_timeout_ms c * 1000000) (bus ?s0)\<rparr>"
  note move = reachable.move [where step = bus_step]
  have "bus_reach 1 ?s0" by (rule reachable.start) (simp add: bus_init_def)
  then have "bus_reach 1 ?s1" using set_timeout by (rule move)
  moreover have "bus_step ?s1 (go 0 Idle_call (fst (advertise ''bench'' () (bench_qos c) (bus ?s1))) ?s1)"
    by (rule bus_step.advertise) (simp add: call_at_def)
  ultimately have "bus_reach 1 (go 0 Idle_call (fst (advertise ''bench'' () (bench_qos c) (bus ?s1))) ?s1)" by (rule move)
  then show ?thesis by (simp add: latency_start_def go_def bench_bus_def)
qed

lemma latency_inv_init: "latency_init c s \<Longrightarrow> latency_inv c s"
proof -
  assume "latency_init c s"
  then obtain t where s: "s = latency_start c t" by (auto simp: latency_init_def)
  have "numbered c s" "hearing s" using bench_bus_topics [of c]
    by (simp_all add: s latency_start_def numbered_def numbered_below_def hearing_def new_entry_def)
  moreover have "pool_counted s"
    by (simp add: s latency_start_def pool_counted_def pool_tracked_def create_def preallocate_eq new_pool_def)
  moreover have "wind_down s" using bench_bus_topics [of c] by (simp add: s latency_start_def wind_down_def listed_def)
  ultimately show ?thesis using latency_start_reach by (simp add: latency_inv_def s)
qed

interpretation latency: inductive_invariant "latency_init c" "latency_step c" "latency_inv c" for c
  by unfold_locales (use latency_inv_init latency_inv_step in blast)+

section \<open>What is printed\<close>

definition latency_banner :: "latency_config \<Rightarrow> string" where
  "latency_banner c =
     ''config: rate='' @ decimal_int (rate_hz c) @ ''Hz count='' @ decimal_int (total_count c) @
     '' subs='' @ decimal_int (subscribers c) @ '' payload='' @ decimal_int (payload_bytes c) @
     ''B depth='' @ decimal_int (queue_depth c) @ '' reliability='' @ to_string_reliability (reliability (bench_qos c)) @
     '' slow_ms='' @ decimal_int (slow_ms c) @ newline @
     (if slow_ms c > 0 \<and> \<not> best_effort c
      then ''warning: Reliable + '' @ utf8 [230, 133, 162, 232, 174, 162, 233, 152, 133, 232, 128, 133] @ '' '' @
           utf8 [228, 188, 154, 230, 138, 138, 229, 143, 145, 229, 184, 131, 233, 128, 159, 231, 142, 135, 230, 139, 137,
                 229, 136, 176, 231, 186, 166] @ '' '' @
           print_fixed 1 (double_div (Finite 1000) (double_of_int (reliable_timeout_ms c))) @ '' msg/s'' @
           utf8 [239, 188, 140, 229, 133, 136, 231, 148, 168, 229, 176, 143, 231, 154, 132] @ '' --count '' @
           utf8 [232, 167, 130, 229, 175, 159, 232, 131, 140, 229, 142, 139, 239, 188, 140, 229, 134, 141, 229, 138, 160] @
           '' --best-effort '' @ utf8 [229, 175, 185, 230, 175, 148, 233, 154, 148, 231, 166, 187, 227, 128, 130] @ newline
      else [])"

definition elapsed :: "latency_sys \<Rightarrow> double" where
  "elapsed s = double_div (double_of_u64 (now_ns (publish_done s) - now_ns (start_time s))) (Finite 1000000000)"

definition publish_line :: "latency_config \<Rightarrow> latency_sys \<Rightarrow> string" where
  "publish_line c s =
     (let secs = elapsed s in
      ''publish: sent='' @ decimal_int (total_count c) @ '' failed='' @ print_u64 (publish_failed (counters s)) @
      '' pool_empty='' @ print_u64 (pool_empty (counters s)) @ '' elapsed='' @ print_fixed 3 secs @ ''s rate='' @
      print_fixed 0 (double_div (double_of_int (total_count c)) (if double_less (Finite 0) secs then secs else Finite 1)) @
      '' msg/s'' @ newline)"

definition ticker_line :: "latency_config \<Rightarrow> latency_sys \<Rightarrow> string" where
  "ticker_line c s =
     ''ticker: missed_ticks='' @ print_u64 (missed_ticks (counters s)) @ '' ('' @
     print_fixed 2 (double_div (double_mul (Finite 100) (double_of_u64 (missed_ticks (counters s))))
       (double_of_int (if total_count c > 0 then total_count c else 1))) @
     ''% of '' @ decimal_int (total_count c) @ '')'' @ newline"

definition pool_line :: "BufferPool \<Rightarrow> string" where
  "pool_line p = ''pool: exhausted='' @ print_u64 (exhausted_count p) @ '' in_use='' @ decimal (in_use p) @ newline"

definition sub_lines :: "nat \<Rightarrow> SubscriberStats \<Rightarrow> SubscriberState \<Rightarrow> string" where
  "sub_lines i st cb =
     ''sub['' @ decimal i @ '']: recv='' @ print_u64 (st_delivered st) @ '' dropped='' @ print_u64 (st_dropped st) @
     '' expired='' @ print_u64 (st_expired st) @ '' hwm='' @ decimal (st_high_water st) @
     '' out_of_order='' @ print_u64 (out_of_order cb) @ newline @
     ''sub['' @ decimal i @ '']: latency '' @ summary (latency cb) ''us'' (Finite 1000) @ newline"

definition latency_output :: "latency_config \<Rightarrow> latency_sys \<Rightarrow> string" where
  "latency_output c s =
     latency_banner c @ publish_line c s @ ticker_line c s @ (case pool (pw s) of Some p \<Rightarrow> pool_line p | None \<Rightarrow> []) @
     concat (map (\<lambda>(i, sid). sub_lines i (stats (sub_objs (bus (bsys s)) sid)) (callbacks s sid)) (enumerate 0 (handle_ids s)))"

text \<open>The program: its options, any schedule until the end, and the text.\<close>

definition latency_main :: "string list \<Rightarrow> string \<Rightarrow> bool" where
  "latency_main argv out \<longleftrightarrow>
     (\<exists>c s. read_config argv = Some c \<and> reachable (latency_init c) (latency_step c) s \<and> main_pc s = M_end \<and> out = latency_output c s)"

section \<open>The figures are true\<close>

lemma descents_sorted: "sorted_wrt (<) xs \<Longrightarrow> descents xs = 0"
  by (induction xs rule: descents.induct) auto

lemma latency_callback:
  assumes inv: "latency_inv c s" and t: "total_count c < 2 ^ 63" and x: "sub_objs (bus (bsys s)) sid = Some x"
  shows "out_of_order (callbacks s sid) = 0"
    and "received (callbacks s sid) = st_delivered (stats (Some x)) + of_nat (length (calling (sub_worker_at x)))"
    and "count_value (latency (callbacks s sid)) = received (callbacks s sid)"
proof -
  obtain ms w where m: "callbacks s sid = fold on_message ms (new_subscriber_state\<lparr>work_us := w\<rparr>)" "map snd ms = map payload (lefts (processed x))"
    using inv x unfolding latency_inv_def hearing_def by blast
  have r: "bus_reach 1 (bsys s)" using inv by (simp add: latency_inv_def)
  then have "reachable (bus_init 1) (solo_step sid) (bsys s)" by (rule one_client)
  then obtain e where e: "map_of (topics (bus (bsys s))) (sub_topic x) = Some e" "subseq (lefts (processed x)) (pub_log e)"
    using x by (rule solo_delivered)
  have "sorted_wrt (\<lambda>v w. num v < num w) (pub_log e)"
    using inv t e(1) by (auto simp: latency_inv_def numbered_def numbered_below_def)
  then have "sorted_wrt (\<lambda>v w. num v < num w) (lefts (processed x))" by (rule subseq_sorted_wrt [OF e(2)])
  then have "sorted_wrt (<) (map (sample_seq \<circ> payload) (lefts (processed x)))"
    by (simp add: sorted_wrt_map num_def word_less_nat_alt)
  moreover have "map (sample_seq \<circ> snd) ms = map (sample_seq \<circ> payload) (lefts (processed x))"
    using arg_cong [OF m(2), of "map sample_seq"] by simp
  ultimately have d: "descents (map (sample_seq \<circ> snd) ms) = 0" using descents_sorted by simp
  have new: "descents (0 # ys) = descents ys" for ys by (cases ys) simp_all
  have len: "length ms = length (lefts (processed x))" using arg_cong [OF m(2), of length] by simp
  have st: "st_delivered (stats (Some x)) + of_nat (length (calling (sub_worker_at x))) = of_nat (length ms)"
    using reach_sub_ok [OF r x] len by (simp add: stats_def sub_ok_def)
  have zero: "received new_subscriber_state = 0" "count_value (latency new_subscriber_state) = 0"
    "out_of_order new_subscriber_state = 0" "last_seq new_subscriber_state = 0"
    by (simp_all add: new_subscriber_state_def count_value_def new_histogram_def)
  show "out_of_order (callbacks s sid) = 0" by (simp add: m(1) on_messages zero d new)
  show "received (callbacks s sid) = st_delivered (stats (Some x)) + of_nat (length (calling (sub_worker_at x)))"
    by (simp add: m(1) on_messages zero st)
  show "count_value (latency (callbacks s sid)) = received (callbacks s sid)" by (simp add: m(1) on_messages zero)
qed

text \<open>
  C38: the latency benchmark reports what happened. Under every schedule of its main thread, its subscribers' workers and
  the release of buffers, no subscriber counts a message out of order, and every subscriber's callback was called and
  recorded a latency exactly as often as the bus says it delivered to it, a call that is still running apart. At the end
  every worker is joined, the figures are equal, and the pool was found exhausted exactly as often as an iteration was skipped.
\<close>

theorem latency_figures:
  assumes "reachable (latency_init c) (latency_step c) s" and "total_count c < 2 ^ 63" and "sub_objs (bus (bsys s)) sid = Some x"
  shows "out_of_order (callbacks s sid) = 0 \<and>
    received (callbacks s sid) = st_delivered (stats (Some x)) + of_nat (length (calling (sub_worker_at x))) \<and>
    count_value (latency (callbacks s sid)) = received (callbacks s sid) \<and>
    (main_pc s = M_end \<longrightarrow> sub_worker_at x = Thread_joined \<and> received (callbacks s sid) = st_delivered (stats (Some x)) \<and>
       (\<exists>p. pool (pw s) = Some p \<and> exhausted_count p = pool_empty (counters s)))"
proof -
  have inv: "latency_inv c s" using assms(1) by (rule latency.reachable_inv)
  moreover have "sub_worker_at x = Thread_joined" if "main_pc s = M_end"
    using inv that assms(3) by (auto simp: latency_inv_def wind_down_def all_joined_def)
  moreover have "\<exists>p. pool (pw s) = Some p \<and> exhausted_count p = pool_empty (counters s)" if "main_pc s = M_end"
    using inv that by (auto simp: latency_inv_def pool_counted_def pool_tracked_def exhausted_count_def)
  ultimately show ?thesis using latency_callback [OF _ assms(2,3)] by simp
qed

section \<open>A run\<close>

text \<open>One message to one subscriber, from the start to the end.\<close>

fun latency_run :: "latency_config \<Rightarrow> lat_action list \<Rightarrow> latency_sys \<Rightarrow> latency_sys option" where
  "latency_run c [] s = Some s"
| "latency_run c (a # as) s = Option.bind (latency_exec c a s) (latency_run c as)"

lemma latency_run_reach:
  "latency_run c as s = Some s' \<Longrightarrow> reachable (latency_init c) (latency_step c) s \<Longrightarrow> reachable (latency_init c) (latency_step c) s'"
proof (induction as arbitrary: s)
  case (Cons a as)
  then obtain t where t: "latency_exec c a s = Some t" "latency_run c as t = Some s'" by (auto simp: bind_eq_Some_conv)
  then have "latency_step c s t" by (auto simp: latency_step_def)
  with Cons.prems(2) have "reachable (latency_init c) (latency_step c) t" by (rule reachable.move [where step = "latency_step c"])
  with t(2) show ?case by (rule Cons.IH)
qed simp

definition tiny :: latency_config where
  "tiny = \<lparr>rate_hz = 0, total_count = 1, subscribers = 1, payload_bytes = 4, queue_depth = 2, pool_size = 1, slow_ms = 0,
           reliable_timeout_ms = 5, best_effort = False\<rparr>"

definition tiny_subscribed :: latency_sys where
  "tiny_subscribed = the (latency_run tiny [Main 7 0, Continue] (latency_start tiny 0))"

definition tiny_looping :: latency_sys where
  "tiny_looping = tiny_subscribed\<lparr>ticker := \<lparr>period = 1000000000, next_tick = time (bsys tiny_subscribed)\<rparr>,
     start_time := time (bsys tiny_subscribed), main_pc := M_acquire 0\<rparr>"

definition tiny_end :: latency_sys where
  "tiny_end = the (latency_run tiny
     [Main 0 0, Main 0 0, Main 0 0, Continue, Continue, Take 7, Deliver 7, Finish 7, Main 0 0, Main 0 0, Tick 1000000000, Main 0 0, Main 0 0,
      Main 0 0, Main 0 0, Continue, Take 7, Continue, Continue, Continue, Main 0 0] tiny_looping)"

lemma tiny_loop: "latency_exec tiny (Main 0 0) tiny_subscribed = Some tiny_looping"
proof -
  have "main_pc tiny_subscribed = M_subscribe 1" "call_at (bsys tiny_subscribed) 0 Idle_call" by code_simp+
  moreover have "new_ticker (double_of_int 0) t = Some \<lparr>period = 1000000000, next_tick = t\<rparr>" for t
    using ticker_period_default(2) [of 0] by (simp add: new_ticker_def double_of_int_def to_double_def)
  ultimately show ?thesis by (simp add: main_step_def main_subscribe_def tiny_def tiny_looping_def)
qed

lemma tiny_reach: "reachable (latency_init tiny) (latency_step tiny) tiny_end"
proof -
  have "reachable (latency_init tiny) (latency_step tiny) (latency_start tiny 0)" by (rule reachable.start) (auto simp: latency_init_def)
  moreover have "latency_run tiny [Main 7 0, Continue] (latency_start tiny 0) = Some tiny_subscribed"
    unfolding tiny_subscribed_def by (rule runs) code_simp
  ultimately have "reachable (latency_init tiny) (latency_step tiny) tiny_subscribed" by (rule latency_run_reach [rotated])
  moreover have "latency_step tiny tiny_subscribed tiny_looping" unfolding latency_step_def using tiny_loop by blast
  ultimately have r: "reachable (latency_init tiny) (latency_step tiny) tiny_looping" by (rule reachable.move [where step = "latency_step tiny"])
  show ?thesis unfolding tiny_end_def by (rule latency_run_reach [OF runs r]) code_simp
qed

theorem latency_figures_witness:
  "\<exists>x. sub_objs (bus (bsys tiny_end)) 7 = Some x \<and> main_pc tiny_end = M_end \<and> out_of_order (callbacks tiny_end 7) = 0 \<and>
     received (callbacks tiny_end 7) = 1 \<and> count_value (latency (callbacks tiny_end 7)) = 1 \<and> pool (pw tiny_end) \<noteq> None"
proof -
  let ?x = "the (sub_objs (bus (bsys tiny_end)) 7)"
  have x: "sub_objs (bus (bsys tiny_end)) 7 = Some ?x" by (rule runs) code_simp
  have "main_pc tiny_end = M_end" "st_delivered (stats (Some ?x)) = 1" by code_simp+
  moreover have "total_count tiny < 2 ^ 63" by (simp add: tiny_def)
  ultimately show ?thesis using latency_figures [OF tiny_reach _ x] x by auto
qed

end
