(* ===== verification/Spec2Isabelle.thy ===== *)
theory Spec2Isabelle
  imports Prelude Qos Header Framing Bounded_Queue Queue_Machine Ring_Machine Ring_Weak Histogram Buffer_Pool Thread_Pool Bus_Guarantees Bus_Order Bus_Shutdown Bus_Stop Time Args Printf Summary Check Bench_Queues Bench_Progress Bench_Ring Bench_Ring_Progress Bench_Ring_Weak Bench_Throughput Bench_Latency Bench_Bus
begin

text \<open>
  Verification of \<^verbatim>\<open>rdb\<close>, the in-process robot data bus under \<^verbatim>\<open>code/include/rdb\<close>, of the two benchmark programs
  under \<^verbatim>\<open>code/bench\<close> and of the test harness.

  \<^bold>\<open>The program.\<close> A publisher hands a message to \<^verbatim>\<open>TopicBus\<close> (\<^verbatim>\<open>bus/topic_bus.h\<close>), which numbers it, keeps it for late
  joiners if the publisher asks for that, picks the subscribers whose \<^verbatim>\<open>QoS\<close> is compatible (\<^verbatim>\<open>bus/qos.h\<close>) and pushes it
  to each subscriber's own \<^verbatim>\<open>BoundedQueue\<close> (\<^verbatim>\<open>concurrency/bounded_queue.h\<close>), from which one worker thread per subscriber
  calls the user's callback. Beside it stand a lock-free \<^verbatim>\<open>SpscRing\<close> (\<^verbatim>\<open>concurrency/spsc_ring.h\<close>), a \<^verbatim>\<open>ThreadPool\<close> over the
  same queue (\<^verbatim>\<open>concurrency/thread_pool.h\<close>), a \<^verbatim>\<open>BufferPool\<close> of reusable payload buffers (\<^verbatim>\<open>msg/buffer_pool.h\<close>), the wire
  header (\<^verbatim>\<open>msg/header.h\<close>), the stream framing (\<^verbatim>\<open>transport/framing.h\<close>), a latency \<^verbatim>\<open>Histogram\<close> (\<^verbatim>\<open>metrics/histogram.h\<close>) and
  the clock and ticker (\<^verbatim>\<open>common/time.h\<close>).

  \<^bold>\<open>How the theories correspond to it.\<close>
  \<^item> \<open>Prelude\<close>: types, slices of lists, words, tagged lists, reachability and the locale of inductive invariants.
    \<open>Fairness\<close>: weakly fair runs, and descent along a rank under them.
  \<^item> \<open>Qos\<close>: the enumerations, \<^verbatim>\<open>QoS\<close>, the presets and \<open>check_compatible\<close>, which is shown to behave like an order
    over the strength of each policy.
  \<^item> \<open>Byte_Codec\<close>, \<open>Header\<close>: little-endian accessors (locale \<open>byte_codec\<close>, one interpretation per width), \<open>encode_header\<close>,
    \<open>decode_header\<close> with its partially written output, the FNV fingerprint. Layout, round trip, canonicity, exactly which
    bytes are accepted.
  \<^item> \<open>Framing\<close>: \<open>encode_frame_into\<close> and the decoder (\<open>feed\<close>, \<open>next_frame\<close>, \<open>compact\<close>, \<open>reset\<close>). Round trip under any cutting of
    the stream, independence of the cuts, the size limit, bounded buffering.
  \<^item> \<open>Fifo_Spec\<close>: the contract of a non-blocking queue (locales \<open>fifo\<close>, \<open>bounded_fifo\<close>, \<open>fifo_pair\<close>), interpreted by both queues.
  \<^item> \<open>Bounded_Queue\<close>: the record and every operation, cut where the code takes or leaves the lock or waits; a push or
    pop ends in \<open>Return\<close> or \<open>Waiting\<close>. \<open>Queue_Machine\<close> interleaves these sections for any number of threads, with the
    wait sets of the condition variables explicit. FIFO order and conservation, no lost wake-up, bounds.
  \<^item> \<open>Spsc_Ring\<close>, \<open>Ring_Machine\<close>: the ring sequentially and at the level of its single loads and stores, across the wrap-around of
    its 64-bit counters. FIFO order, no slot shared by producer and consumer, torn \<^verbatim>\<open>size\<close>.
  \<^item> \<open>Memory_Order\<close>, \<open>Ring_Weak\<close>: relaxed, acquire and release accesses to atomics with the views of the threads, and the ring's \<^verbatim>\<open>push\<close>
    and \<^verbatim>\<open>pop\<close> on them: with the orders of the source no access to a slot is a data race and order is kept; with a relaxed store or a relaxed
    reload there are races.
  \<^item> \<open>Double\<close>, \<open>Histogram\<close>: IEEE binary64 rounding as rationals (locale \<open>rounding\<close>); buckets, recording, merging and percentiles.
    Buckets partition the values, the histogram is a function of the multiset recorded, percentiles are ranks.
  \<^item> \<open>Buffer_Pool\<close>: free list, heap, reference counts and the deleter with its weak reference, interleaved.
  \<^item> \<open>Thread_Pool\<close>: posts, workers and the stages of \<^verbatim>\<open>stop\<close>, interleaved. Tasks are conserved, \<^verbatim>\<open>stop\<close> settles and ends.
  \<^item> \<open>Topic_Bus\<close>: the data and operations of the bus, cut at the bus mutex and at queue operations; what each does
    undisturbed. \<open>Bus_Machine\<close> interleaves them for any number of calling threads and all workers, and classifies the
    steps by their effect. A join that fails is an outcome of its own, and a callback begins and returns in two steps. \<open>Bus_Exec\<close> is the same relation as a function of a schedule, so that schedules evaluate.
    \<open>Bus_Guarantees\<close>: callbacks are type-safe, see only published messages and each at most once, the books
    balance, a publication that returned true reached every target, stopping a subscription drains it and ends.
    \<open>Bus_Order\<close>: a subscriber to which pushes do not overlap hears everything in the order of publication.
    \<open>Bus_Shutdown\<close>: \<^verbatim>\<open>shutdown\<close> and \<^verbatim>\<open>unsubscribe\<close> return under every weakly fair schedule unless another call stops the same subscription meanwhile. \<open>Bus_Stop\<close>: the same
    calls and the destructor as whole functions of the bus, which the machine refines.
  \<^item> \<open>Time\<close>: clock readings, unit conversions, the ticker and its freedom from drift.
  \<^item> \<open>Args\<close>, \<open>Printf\<close>, \<open>Summary\<close>: the command line, the \<^verbatim>\<open>printf\<close> conversions with their lengths and accuracy, and
    \<^verbatim>\<open>Histogram::summary\<close>, whose buffer is large enough.
  \<^item> \<open>Bench_Queues\<close>, \<open>Bench_Progress\<close>, \<open>Bench_Ring\<close>, \<open>Bench_Ring_Progress\<close>, \<open>Bench_Ring_Weak\<close>, \<open>Bench_Throughput\<close>: \<^verbatim>\<open>bench_queue_throughput.cpp\<close>, its thread programs on top of the
    machines above, \<^verbatim>\<open>main\<close> and its output. Consumers receive everything that was produced; the bounded-queue program
    always ends, which puts \<open>no_lost_wakeup\<close> to use; the
    ring program, which spins, ends under every weakly fair schedule, and receives everything also under its memory orders; what is reported.
  \<^item> \<open>Bench_Latency\<close>, \<open>Bench_Bus\<close>: \<^verbatim>\<open>bench_bus_latency.cpp\<close>, its callback and counters, and the program as a whole over the bus, the
    buffer pool and the ticker. Its figures are those of the run; nothing arrives out of order; at the end all workers are joined.
  \<^item> \<open>Check\<close>: the test harness \<^verbatim>\<open>testing/check.h\<close>; exit code and polling wait.

  \<^bold>\<open>Modelling decisions.\<close> Fixed-width counters and sizes that can wrap are words; sizes of containers are \<open>nat\<close>; durations and
  time points are \<open>int\<close>. Clocks, payloads, callbacks, tasks and type indices are parameters. Objects shared through
  \<^verbatim>\<open>shared_ptr\<close> live in an explicit store. Ghost fields (logs of what entered and left, what was published) are written and never
  read by the operations; a benchmark's count of what it has received is the length of such a log. Every recursion terminates by a measure or on its data; no fuel is used. State machines allow
  every interleaving of the atomic sections, spurious wake-ups and timeouts; reads and writes of atomics
  are sequentially consistent, except in \<open>Ring_Weak\<close> and \<open>Bench_Ring_Weak\<close>. Progress that
  depends on the scheduler is stated for infinite runs that are weakly fair to every thread.

  \<^bold>\<open>Bounds.\<close> The ring theorems assume a capacity of at most \<open>2 ^ 63\<close>, above which rounding up overflows; percentile ranks
  at most \<open>2 ^ 53\<close> recorded values, the integers a double holds exactly; \<open>deliver_outcome\<close> durations below \<open>2 ^ 63\<close> nanoseconds, the range of
  their C++ type.

  \<^bold>\<open>Not modelled.\<close> The memory orders of the bus's statistics counters, which are relaxed and order nothing, and of \<^verbatim>\<open>size\<close>
  of the ring; that a thread sees a newer value of an atomic in the end, so progress is shown under sequential consistency only; what undefined behaviour does, where two calls
  join one thread at once (the model has the error that \<^verbatim>\<open>join\<close> has for a thread that is not joinable); exceptions thrown by tasks and callbacks; the bytes
  the latency benchmark never writes into its payloads; the tests themselves; builds and documents.
\<close>

section \<open>The two queues answer alike\<close>

interpretation rq: fifo_pair ring_push "ring_pop mv" ring_contents ring_ok "\<lambda>r. unat (ring_capacity r)"
    bq_enq bq_deq items keeps_order_open capacity for mv
  by unfold_locales

text \<open>
  C28: used without blocking, the lock-free ring and a blocking-policy queue whose capacity is the ring's
  rounded capacity give the same answers to every sequence of pushes and pops.
\<close>

theorem ring_equals_queue:
  assumes "unat cap \<le> 2 ^ 63"
  shows "snd (run_ops ring_push (ring_pop mv) (new_ring d cap) os) =
         snd (run_ops bq_enq bq_deq (new_queue (unat (round_up_pow2 cap)) Block) os)"
proof (rule rq.alike_run)
  obtain k where "k \<le> 63" "round_up_pow2 cap = 2 ^ k" using assms by (rule round_up_pow2_pow)
  then have "unat (round_up_pow2 cap) \<noteq> 0" by (simp add: unat_pow2)
  then show "rq.alike (new_ring d cap) (new_queue (unat (round_up_pow2 cap)) Block)"
    by (simp add: rq.alike_def new_ring_ok [OF assms] keeps_order_open_def keeps_order_def new_queue_def queue_inv_def)
qed

theorem ring_equals_queue_witness:
  "snd (run_ops ring_push (ring_pop id) (new_ring 0 1) [Push 1, Push 2, Push (3 :: nat), Pop]) =
   snd (run_ops bq_enq bq_deq (new_queue (unat (round_up_pow2 1)) Block) [Push 1, Push 2, Push 3, Pop])"
  by (rule ring_equals_queue) simp

end
